(* ===== verification/Prelude.thy ===== *)
theory Prelude
  imports Main "HOL-Library.AList" "HOL-Library.Multiset"
begin

text \<open>
  Shared vocabulary of the development: the Python exceptions the code raises, programs that
  read and write a state and may raise (the state reached before the exception is kept, as in
  Python, where an exception does not roll anything back), insertion-ordered dictionaries as
  association lists, a few Python built-ins, and a small Hoare logic over programs whose rules
  carry the invariant proofs of the components.
\<close>

unbundle bit_operations_syntax

named_theorems prog_simps \<open>definitions of the program combinators, for evaluation\<close>
named_theorems triple_intro \<open>Hoare rules for the program combinators\<close>

section \<open>Exceptions and programs\<close>

datatype py_error =
    AdmissionFailure
  | ValueError
  | KeyError
  | IndexError
  | AssertionError
  | NotImplementedError
  | AttributeError
  | ZeroDivisionError
  | TypeError

type_synonym ('s, 'a) prog = "'s \<Rightarrow> (py_error + 'a) \<times> 's"

definition ret :: "'a \<Rightarrow> ('s, 'a) prog" where
  [prog_simps]: "ret x = (\<lambda>s. (Inr x, s))"

definition raise :: "py_error \<Rightarrow> ('s, 'a) prog" where
  [prog_simps]: "raise e = (\<lambda>s. (Inl e, s))"

definition bindS :: "('s, 'a) prog \<Rightarrow> ('a \<Rightarrow> ('s, 'b) prog) \<Rightarrow> ('s, 'b) prog" where
  [prog_simps]: "bindS m k = (\<lambda>s. case m s of (Inl e, s') \<Rightarrow> (Inl e, s') | (Inr x, s') \<Rightarrow> k x s')"

definition thenS :: "('s, 'a) prog \<Rightarrow> ('s, 'b) prog \<Rightarrow> ('s, 'b) prog" where
  [prog_simps]: "thenS m m' = bindS m (\<lambda>_. m')"

definition getS :: "('s \<Rightarrow> 'a) \<Rightarrow> ('s, 'a) prog" where
  [prog_simps]: "getS f = (\<lambda>s. (Inr (f s), s))"

definition modifyS :: "('s \<Rightarrow> 's) \<Rightarrow> ('s, unit) prog" where
  [prog_simps]: "modifyS f = (\<lambda>s. (Inr (), f s))"

definition assertS :: "('s \<Rightarrow> bool) \<Rightarrow> py_error \<Rightarrow> ('s, unit) prog" where
  [prog_simps]: "assertS c e = (\<lambda>s. if c s then (Inr (), s) else (Inl e, s))"

text \<open>The list comprehension \<open>[f x for x in xs]\<close> and the loop \<open>for x in xs: f x\<close>, left to right,
  stopping at the first exception.\<close>

fun mapS :: "('a \<Rightarrow> ('s, 'b) prog) \<Rightarrow> 'a list \<Rightarrow> ('s, 'b list) prog" where
  "mapS f [] = ret []"
| "mapS f (x # xs) = bindS (f x) (\<lambda>y. bindS (mapS f xs) (\<lambda>ys. ret (y # ys)))"

fun eachS :: "('a \<Rightarrow> ('s, unit) prog) \<Rightarrow> 'a list \<Rightarrow> ('s, unit) prog" where
  "eachS f [] = ret ()"
| "eachS f (x # xs) = thenS (f x) (eachS f xs)"

text \<open>A loop that threads an accumulator.\<close>

fun foldS :: "('a \<Rightarrow> 'b \<Rightarrow> ('s, 'b) prog) \<Rightarrow> 'a list \<Rightarrow> 'b \<Rightarrow> ('s, 'b) prog" where
  "foldS f [] acc = ret acc"
| "foldS f (x # xs) acc = bindS (f x acc) (foldS f xs)"

text \<open>\<open>[m for _ in range(n)]\<close>: Python's \<open>range\<close> of a negative number is empty.\<close>

fun repeatN :: "nat \<Rightarrow> ('s, 'a) prog \<Rightarrow> ('s, 'a list) prog" where
  "repeatN 0 m = ret []"
| "repeatN (Suc n) m = bindS m (\<lambda>y. bindS (repeatN n m) (\<lambda>ys. ret (y # ys)))"

definition repeatS :: "int \<Rightarrow> ('s, 'a) prog \<Rightarrow> ('s, 'a list) prog" where
  [prog_simps]: "repeatS n m = repeatN (nat n) m"

text \<open>The state a program leaves, whether it returned or raised, and its outcome.\<close>

abbreviation final :: "('s, 'a) prog \<Rightarrow> 's \<Rightarrow> 's" where
  "final m s \<equiv> snd (m s)"

abbreviation outcome :: "('s, 'a) prog \<Rightarrow> 's \<Rightarrow> py_error + 'a" where
  "outcome m s \<equiv> fst (m s)"

text \<open>A sequence of programs that has returned so far, and one that has returned.\<close>

lemma runs_on:
  "m s = (Inr x, s1) \<Longrightarrow> bindS m k s = k x s1" "m s = (Inr x, s1) \<Longrightarrow> thenS m m' s = m' s1"
  by (simp_all add: bindS_def thenS_def)

lemma runsD: "bindS m k s = (Inr y, s') \<Longrightarrow> \<exists>x s1. m s = (Inr x, s1) \<and> k x s1 = (Inr y, s')"
    "thenS m m' s = (Inr y, s') \<Longrightarrow> \<exists>x s1. m s = (Inr x, s1) \<and> m' s1 = (Inr y, s')"
  by (auto simp: bindS_def thenS_def split: prod.splits sum.splits)

section \<open>Python built-ins\<close>

text \<open>\<open>-(-a // b)\<close>: Python's floor division is Isabelle's \<open>div\<close> on \<open>int\<close>; a zero divisor raises.\<close>

definition ceil_div :: "int \<Rightarrow> int \<Rightarrow> int" where
  "ceil_div a b = - ((- a) div b)"

text \<open>The slices \<open>xs[:k]\<close> and \<open>xs[k:]\<close>, where a negative \<open>k\<close> counts from the end.\<close>

definition slice_pos :: "int \<Rightarrow> 'a list \<Rightarrow> nat" where
  "slice_pos k xs = (if k < 0 then nat (int (length xs) + k) else nat k)"

definition slice_to :: "int \<Rightarrow> 'a list \<Rightarrow> 'a list" where
  "slice_to k xs = take (slice_pos k xs) xs"

definition slice_from :: "int \<Rightarrow> 'a list \<Rightarrow> 'a list" where
  "slice_from k xs = drop (slice_pos k xs) xs"

text \<open>Decimal rendering of an integer, as \<open>str\<close> and f-strings do it.\<close>

fun show_nat :: "nat \<Rightarrow> string" where
  "show_nat n = (if n < 10 then [char_of (48 + n)] else show_nat (n div 10) @ [char_of (48 + n mod 10)])"

declare show_nat.simps [simp del]

definition show_int :: "int \<Rightarrow> string" where
  "show_int i = (if i < 0 then ''-'' @ show_nat (nat (- i)) else show_nat (nat i))"

lemma slice_to_from [simp]: "slice_to k xs @ slice_from k xs = xs"
  by (simp add: slice_to_def slice_from_def)

lemma mset_slices [simp]: "mset (slice_to k xs) + mset (slice_from k xs) = mset xs"
  by (metis mset_append slice_to_from)

text \<open>All the elements of a list but the one at a position (a comparison by identity).\<close>

definition others :: "nat \<Rightarrow> 'a list \<Rightarrow> 'a list" where
  "others w xs = map (\<lambda>i. xs ! i) (filter (\<lambda>i. i \<noteq> w) [0..<length xs])"

lemma others_split: "w < length xs \<Longrightarrow> others w xs = take w xs @ drop (Suc w) xs"
proof -
  assume w: "w < length xs"
  then have "[0..<length xs] = [0..<w] @ w # [Suc w..<length xs]"
    using upt_add_eq_append [of 0 w "length xs - w"] by (simp add: upt_conv_Cons)
  then have "filter (\<lambda>i. i \<noteq> w) [0..<length xs] = [0..<w] @ [Suc w..<length xs]"
    by (simp add: filter_id_conv)
  moreover have "map (\<lambda>i. xs ! i) [0..<w] = take w xs"
    using w by (intro nth_equalityI) auto
  moreover have "map (\<lambda>i. xs ! i) [Suc w..<length xs] = drop (Suc w) xs"
    using w by (intro nth_equalityI) auto
  ultimately show ?thesis by (simp add: others_def)
qed

lemma mset_concat_others:
  "w < length xs \<Longrightarrow> mset (concat xs) = mset (xs ! w) + mset (concat (others w xs))"
proof -
  assume w: "w < length xs"
  then have "concat xs = concat (take w xs @ xs ! w # drop (Suc w) xs)"
    by (simp add: id_take_nth_drop [symmetric])
  then show ?thesis using w by (simp add: others_split)
qed

lemma eachS_append: "eachS f (xs @ ys) = thenS (eachS f xs) (eachS f ys)"
  by (induction xs) (auto simp: prog_simps fun_eq_iff split: prod.splits sum.splits)

lemma eachS_concat: "eachS (eachS f) xss = eachS f (concat xss)"
  by (induction xss) (simp_all add: eachS_append)

section \<open>Dictionaries\<close>

text \<open>
  A Python \<open>dict\<close> keeps insertion order: storing under a present key keeps its place, a new key
  goes to the end. \<open>AList.update\<close> and \<open>AList.delete\<close> are exactly these two operations.
\<close>

type_synonym ('k, 'v) dict = "('k \<times> 'v) list"

abbreviation dict_ok :: "('k, 'v) dict \<Rightarrow> bool" where
  "dict_ok d \<equiv> distinct (map fst d)"

definition dget :: "'k \<Rightarrow> ('s \<Rightarrow> ('k, 'v) dict) \<Rightarrow> ('s, 'v) prog" where
  [prog_simps]: "dget k f = (\<lambda>s. case map_of (f s) k of None \<Rightarrow> (Inl KeyError, s) | Some v \<Rightarrow> (Inr v, s))"

lemma map_of_update [simp]: "map_of (AList.update k v d) = (map_of d)(k \<mapsto> v)"
  by (simp add: update_conv')

lemma map_of_delete [simp]: "map_of (AList.delete k d) = (map_of d)(k := None)"
  by (simp add: delete_conv')

lemma dict_ok_update [simp]: "dict_ok d \<Longrightarrow> dict_ok (AList.update k v d)"
  by (rule distinct_update)

lemma dict_ok_delete [simp]: "dict_ok d \<Longrightarrow> dict_ok (AList.delete k d)"
  by (rule distinct_delete)

lemma update_new: "map_of d k = None \<Longrightarrow> AList.update k v d = d @ [(k, v)]"
  by (induction d) (auto split: if_splits)

lemma update_present:
  "dict_ok d \<Longrightarrow> map_of d k = Some w \<Longrightarrow> AList.update k v d = map (\<lambda>(k', x). (k', if k' = k then v else x)) d"
proof (induction d)
  case Nil
  then show ?case by simp
next
  case (Cons p d)
  obtain k' x where p: "p = (k', x)" by (cases p)
  show ?case
  proof (cases "k' = k")
    case True
    with Cons.prems p have "\<forall>y \<in> set d. fst y \<noteq> k" by force
    then have "map (\<lambda>(k', x). (k', if k' = k then v else x)) d = d"
      by (intro map_idI) auto
    with p True show ?thesis by simp
  qed (use Cons p in auto)
qed

lemma length_update_new: "map_of d k = None \<Longrightarrow> length (AList.update k v d) = Suc (length d)"
  by (simp add: update_new)

lemma length_update_old: "map_of d k = Some w \<Longrightarrow> length (AList.update k v d) = length d"
  by (induction d) (auto split: if_splits)

lemma delete_notin: "map_of d k = None \<Longrightarrow> AList.delete k d = d"
  by (induction d) (auto simp: AList.delete_eq split: if_splits)

lemma length_delete:
  "dict_ok d \<Longrightarrow> map_of d k = Some w \<Longrightarrow> Suc (length (AList.delete k d)) = length d"
proof (induction d)
  case Nil
  then show ?case by simp
next
  case (Cons p d)
  obtain k' v' where p: "p = (k', v')" by (cases p)
  show ?case
  proof (cases "k = k'")
    case True
    with Cons.prems p have "map_of d k = None"
      by (auto simp: map_of_eq_None_iff)
    then have "AList.delete k d = d" by (rule delete_notin)
    with p True show ?thesis by (simp add: AList.delete_eq)
  next
    case False
    with Cons p show ?thesis by (auto simp: AList.delete_eq)
  qed
qed

text \<open>The sum of a measure over the values of a dictionary, under the two updates.\<close>

definition dsum :: "('v \<Rightarrow> 'm::comm_monoid_add) \<Rightarrow> ('k, 'v) dict \<Rightarrow> 'm" where
  "dsum f d = sum_list (map (\<lambda>p. f (snd p)) d)"

lemma dsum_Nil [simp]: "dsum f [] = 0"
  by (simp add: dsum_def)

lemma dsum_Cons [simp]: "dsum f ((k, v) # d) = f v + dsum f d"
  by (simp add: dsum_def)

lemma dsum_append [simp]: "dsum f (d @ d') = dsum f d + dsum f d'"
  by (simp add: dsum_def)

lemma dsum_update_new: "map_of d k = None \<Longrightarrow> dsum f (AList.update k v d) = dsum f d + f v"
  by (simp add: update_new)

lemma dsum_delete:
  "dict_ok d \<Longrightarrow> map_of d k = Some v \<Longrightarrow> dsum f d = dsum f (AList.delete k d) + f v"
proof (induction d)
  case Nil
  then show ?case by simp
next
  case (Cons p d)
  obtain k' v' where p: "p = (k', v')" by (cases p)
  show ?case
  proof (cases "k = k'")
    case True
    with Cons.prems p have "map_of d k = None" and v: "v' = v"
      by (auto simp: map_of_eq_None_iff)
    then have "AList.delete k (p # d) = d"
      using p True by (simp add: AList.delete_eq delete_notin [unfolded AList.delete_eq])
    with p v show ?thesis by (simp add: add.commute)
  next
    case False
    with Cons p have "dsum f d = dsum f (AList.delete k d) + f v" by auto
    then show ?thesis using p False by (simp add: AList.delete_eq add.assoc)
  qed
qed

lemma dsum_update_old:
  "dict_ok d \<Longrightarrow> map_of d k = Some w \<Longrightarrow> dsum f (AList.update k v d) + f w = dsum f d + f v"
proof (induction d)
  case Nil
  then show ?case by simp
next
  case (Cons p d)
  obtain k' v' where p: "p = (k', v')" by (cases p)
  show ?case
  proof (cases "k = k'")
    case True
    with Cons.prems p show ?thesis by (simp add: ac_simps)
  next
    case False
    with Cons p have "dsum f (AList.update k v d) + f w = dsum f d + f v" by auto
    then show ?thesis using p False by (simp add: add.assoc)
  qed
qed

section \<open>A Hoare logic for programs\<close>

text \<open>
  \<open>triple P m Q E\<close>: from a state satisfying \<open>P\<close> the program \<open>m\<close> either returns \<open>x\<close> in a state with
  \<open>Q x\<close> or raises \<open>e\<close> in a state with \<open>E e\<close>. Programs are total functions, so this is total
  correctness.
\<close>

definition triple ::
  "('s \<Rightarrow> bool) \<Rightarrow> ('s, 'a) prog \<Rightarrow> ('a \<Rightarrow> 's \<Rightarrow> bool) \<Rightarrow> (py_error \<Rightarrow> 's \<Rightarrow> bool) \<Rightarrow> bool" where
  "triple P m Q E \<longleftrightarrow> (\<forall>s. P s \<longrightarrow> (case m s of (Inl e, s') \<Rightarrow> E e s' | (Inr x, s') \<Rightarrow> Q x s'))"

lemma tripleI:
  assumes "\<And>s e s'. P s \<Longrightarrow> m s = (Inl e, s') \<Longrightarrow> E e s'"
    and "\<And>s x s'. P s \<Longrightarrow> m s = (Inr x, s') \<Longrightarrow> Q x s'"
  shows "triple P m Q E"
  using assms unfolding triple_def by (auto split: prod.splits sum.splits)

lemma triple_ret [triple_intro]: "(\<And>s. P s \<Longrightarrow> Q x s) \<Longrightarrow> triple P (ret x) Q E"
  by (simp add: triple_def ret_def)

lemma triple_raise [triple_intro]: "(\<And>s. P s \<Longrightarrow> E e s) \<Longrightarrow> triple P (raise e) Q E"
  by (simp add: triple_def raise_def)

lemma triple_bind [triple_intro]:
  "triple P m R E \<Longrightarrow> (\<And>x. triple (R x) (k x) Q E) \<Longrightarrow> triple P (bindS m k) Q E"
  unfolding triple_def bindS_def by (fastforce split: prod.splits sum.splits)

lemma triple_then [triple_intro]:
  "triple P m (\<lambda>_. R) E \<Longrightarrow> triple R m' Q E \<Longrightarrow> triple P (thenS m m') Q E"
  unfolding thenS_def by (rule triple_bind)

lemma triple_get [triple_intro]: "(\<And>s. P s \<Longrightarrow> Q (f s) s) \<Longrightarrow> triple P (getS f) Q E"
  by (simp add: triple_def getS_def)

lemma triple_modify [triple_intro]: "(\<And>s. P s \<Longrightarrow> Q () (f s)) \<Longrightarrow> triple P (modifyS f) Q E"
  by (simp add: triple_def modifyS_def)

lemma triple_assert [triple_intro]:
  "(\<And>s. P s \<Longrightarrow> c s \<Longrightarrow> Q () s) \<Longrightarrow> (\<And>s. P s \<Longrightarrow> \<not> c s \<Longrightarrow> E e s) \<Longrightarrow> triple P (assertS c e) Q E"
  by (simp add: triple_def assertS_def)

lemma triple_if [triple_intro]:
  "(b \<Longrightarrow> triple P m Q E) \<Longrightarrow> (\<not> b \<Longrightarrow> triple P m' Q E) \<Longrightarrow> triple P (if b then m else m') Q E"
  by simp

lemma triple_dget [triple_intro]:
  assumes "\<And>s v. P s \<Longrightarrow> map_of (f s) k = Some v \<Longrightarrow> Q v s"
    and "\<And>s. P s \<Longrightarrow> map_of (f s) k = None \<Longrightarrow> E KeyError s"
  shows "triple P (dget k f) Q E"
  using assms by (auto simp: triple_def dget_def split: option.splits)

lemma triple_weaken:
  assumes "triple P' m Q' E'"
    and "\<And>s. P s \<Longrightarrow> P' s"
    and "\<And>x s. Q' x s \<Longrightarrow> Q x s"
    and "\<And>e s. E' e s \<Longrightarrow> E e s"
  shows "triple P m Q E"
  using assms unfolding triple_def by (fastforce split: prod.splits sum.splits)

lemma triple_each:
  assumes "\<And>x. x \<in> set xs \<Longrightarrow> triple I (f x) (\<lambda>_. I) E"
  shows "triple I (eachS f xs) (\<lambda>_. I) E"
  using assms by (induction xs) (auto intro!: triple_intro)

text \<open>Reading a triple back as a statement about a run.\<close>

lemma triple_final:
  assumes "triple P m (\<lambda>_. R) (\<lambda>_. R)" and "P s"
  shows "R (final m s)"
  using assms unfolding triple_def by (cases "m s"; cases "fst (m s)") auto

lemma triple_returns:
  assumes "triple P m Q (\<lambda>_ _. False)" and "P s"
  obtains x s' where "m s = (Inr x, s')" and "Q x s'"
proof -
  from assms have "case m s of (Inl e, s') \<Rightarrow> False | (Inr x, s') \<Rightarrow> Q x s'"
    by (auto simp: triple_def)
  then show ?thesis by (auto split: prod.splits sum.splits intro: that)
qed

section \<open>Arithmetic\<close>

lemma ceil_div_eq: "0 < b \<Longrightarrow> ceil_div a b = (a + b - 1) div b"
proof -
  assume b: "0 < b"
  define q r where "q = (- a) div b" and "r = (- a) mod b"
  have "- a = q * b + r" unfolding q_def r_def by simp
  then have eq: "a + b - 1 = (b - 1 - r) + (- q) * b" by (simp add: algebra_simps)
  have "0 \<le> b - 1 - r" and "b - 1 - r < b"
    using b pos_mod_bound [of b "- a"] pos_mod_sign [of b "- a"] unfolding r_def by linarith+
  then have "(b - 1 - r) div b = 0" by (rule div_pos_pos_trivial)
  then have "(a + b - 1) div b = - q"
    unfolding eq using b by (subst div_mult_self1) auto
  then show ?thesis by (simp add: ceil_div_def q_def)
qed

lemma ceil_div_le_iff: "0 < b \<Longrightarrow> ceil_div a b \<le> c \<longleftrightarrow> a \<le> c * b"
proof -
  assume b: "0 < b"
  define q r where "q = (- a) div b" and "r = (- a) mod b"
  have a: "a = (- q) * b - r" unfolding q_def r_def by (simp add: minus_div_mult_eq_mod [symmetric])
  have r: "0 \<le> r" "r < b" using b unfolding r_def by simp_all
  show ?thesis
  proof
    assume "ceil_div a b \<le> c"
    then have "- q \<le> c" by (simp add: ceil_div_def q_def)
    then have "(- q) * b \<le> c * b" using b by (intro mult_right_mono) auto
    with a r show "a \<le> c * b" by linarith
  next
    assume "a \<le> c * b"
    with a r have "(- q) * b < (c + 1) * b" by (simp add: distrib_right)
    with b have "- q < c + 1" by (meson mult_less_cancel_right_pos)
    then show "ceil_div a b \<le> c" by (simp add: ceil_div_def q_def)
  qed
qed

lemma int_div_less: "0 < a \<Longrightarrow> l < b * a \<Longrightarrow> l div a < b" for a :: int
proof (rule ccontr)
  assume a: "0 < a" and l: "l < b * a" and "\<not> l div a < b"
  then have "b * a \<le> (l div a) * a" by (intro mult_right_mono) auto
  also have "\<dots> \<le> l"
    using pos_mod_sign [OF a, of l] div_mult_mod_eq [of l a] by linarith
  finally show False using l by simp
qed

lemma int_div_bounds: "0 < a \<Longrightarrow> l div a = k \<Longrightarrow> k * a \<le> l \<and> l < (k + 1) * a" for a :: int
proof -
  assume a: "0 < a" and k: "l div a = k"
  define r where "r = l mod a"
  have "l = k * a + r" using k div_mult_mod_eq [of l a] by (simp add: r_def)
  moreover have "0 \<le> r" "r < a" using a by (simp_all add: r_def)
  ultimately show ?thesis by (simp add: distrib_right)
qed

end
