(* ===== verification/Config.thy ===== *)
theory Config
  imports Complex_Main Prelude
begin

text \<open>
  DRAM geometry, PIM timing and model shape (\<open>pimkv/config.py\<close>), with the alignment-frame size
  that \<open>pimkv/run.py\<close> derives from them. Sizes are unbounded Python integers (\<open>int\<close>); the
  dataclass validation of \<open>DramGeometry.__post_init__\<close> is the function \<^theory_text>\<open>post_init\<close>, so an
  invalid geometry is an error value and every theorem about geometries starts from a geometry
  that validation let through. Times are floats in the code and \<open>real\<close> here.
\<close>

section \<open>Geometry\<close>

definition is_pow2 :: "int \<Rightarrow> bool" where
  "is_pow2 x \<longleftrightarrow> x > 0 \<and> (x AND (x - 1)) = 0"

record dram_geometry =
  geom_name :: string
  channels :: int
  bank_groups :: int
  banks_per_group :: int
  row_bytes :: int
  burst_bytes :: int
  rows_per_bank :: int
  cacheline_bytes :: int

definition post_init :: "dram_geometry \<Rightarrow> py_error + unit" where
  "post_init g =
     (if \<not> list_all is_pow2 [channels g, bank_groups g, banks_per_group g, row_bytes g,
                              burst_bytes g, rows_per_bank g, cacheline_bytes g]
      then Inl ValueError
      else if row_bytes g mod burst_bytes g \<noteq> 0 then Inl ValueError
      else if cacheline_bytes g mod burst_bytes g \<noteq> 0 then Inl ValueError
      else Inr ())"

definition DramGeometry ::
  "string \<Rightarrow> int \<Rightarrow> int \<Rightarrow> int \<Rightarrow> int \<Rightarrow> int \<Rightarrow> int \<Rightarrow> int \<Rightarrow> py_error + dram_geometry" where
  "DramGeometry nm ch bg ba row burst rows cl =
     (let g = \<lparr>geom_name = nm, channels = ch, bank_groups = bg, banks_per_group = ba,
               row_bytes = row, burst_bytes = burst, rows_per_bank = rows, cacheline_bytes = cl\<rparr>
      in case post_init g of Inl e \<Rightarrow> Inl e | Inr _ \<Rightarrow> Inr g)"

definition banks_per_channel :: "dram_geometry \<Rightarrow> int" where
  "banks_per_channel g = bank_groups g * banks_per_group g"

definition cols_per_row :: "dram_geometry \<Rightarrow> int" where
  "cols_per_row g = row_bytes g div burst_bytes g"

definition rowgroup_bytes :: "dram_geometry \<Rightarrow> int" where
  "rowgroup_bytes g = row_bytes g * banks_per_channel g"

definition allbank_cmd_bytes :: "dram_geometry \<Rightarrow> int" where
  "allbank_cmd_bytes g = burst_bytes g * banks_per_channel g"

definition capacity_bytes :: "dram_geometry \<Rightarrow> int" where
  "capacity_bytes g = channels g * banks_per_channel g * rows_per_bank g * row_bytes g"

definition total_bursts :: "dram_geometry \<Rightarrow> int" where
  "total_bursts g = capacity_bytes g div burst_bytes g"

section \<open>Timing and model shape\<close>

record pim_timing =
  tccd_ab_ns :: real
  trc_ns :: real

definition miss_hit_ratio :: "pim_timing \<Rightarrow> py_error + real" where
  "miss_hit_ratio t = (if tccd_ab_ns t = 0 then Inl ZeroDivisionError else Inr (trc_ns t / tccd_ab_ns t))"

record model_shape =
  shape_name :: string
  kv_heads :: int
  head_dim :: int
  dtype_bytes :: int

definition kv_bytes_per_token :: "model_shape \<Rightarrow> int" where
  "kv_bytes_per_token s = 2 * kv_heads s * head_dim s * dtype_bytes s"

section \<open>Presets\<close>

definition HBM3_PIM :: dram_geometry where
  "HBM3_PIM = \<lparr>geom_name = ''hbm3-pim'', channels = 32, bank_groups = 4, banks_per_group = 4,
     row_bytes = 1024, burst_bytes = 32, rows_per_bank = 16384, cacheline_bytes = 64\<rparr>"

definition GDDR6_PIM :: dram_geometry where
  "GDDR6_PIM = \<lparr>geom_name = ''gddr6-pim'', channels = 8, bank_groups = 4, banks_per_group = 4,
     row_bytes = 2048, burst_bytes = 32, rows_per_bank = 16384, cacheline_bytes = 64\<rparr>"

definition DRAM_PRESETS :: "(string, dram_geometry) dict" where
  "DRAM_PRESETS = [(''hbm3-pim'', HBM3_PIM), (''gddr6-pim'', GDDR6_PIM)]"

definition DEFAULT_TIMING :: pim_timing where
  "DEFAULT_TIMING = \<lparr>tccd_ab_ns = 43 / 10, trc_ns = 45\<rparr>"

definition LLAMA_GQA_8KV :: model_shape where
  "LLAMA_GQA_8KV = \<lparr>shape_name = ''llama-gqa-8kv'', kv_heads = 8, head_dim = 128, dtype_bytes = 2\<rparr>"

definition MQA_1KV :: model_shape where
  "MQA_1KV = \<lparr>shape_name = ''mqa-1kv'', kv_heads = 1, head_dim = 128, dtype_bytes = 2\<rparr>"

definition MHA_32KV :: model_shape where
  "MHA_32KV = \<lparr>shape_name = ''mha-32kv'', kv_heads = 32, head_dim = 128, dtype_bytes = 2\<rparr>"

definition MODEL_PRESETS :: "(string, model_shape) dict" where
  "MODEL_PRESETS =
     [(''llama-gqa-8kv'', LLAMA_GQA_8KV), (''mqa-1kv'', MQA_1KV), (''mha-32kv'', MHA_32KV)]"

section \<open>Sharding and derived sizes\<close>

text \<open>\<open>dataclasses.replace\<close> builds a new geometry, so the validation runs again on it.\<close>

definition shard_kv ::
  "dram_geometry \<Rightarrow> model_shape \<Rightarrow> int \<Rightarrow> py_error + (dram_geometry \<times> model_shape)" where
  "shard_kv g s n =
     (if n = 1 then Inr (g, s)
      else if n = 0 then Inl ZeroDivisionError
      else if channels g mod n \<noteq> 0 \<or> kv_heads s mod n \<noteq> 0 then Inl ValueError
      else let g' = g\<lparr>geom_name := geom_name g @ ''-s'' @ show_int n, channels := channels g div n\<rparr>;
               s' = s\<lparr>shape_name := shape_name s @ ''-s'' @ show_int n, kv_heads := kv_heads s div n\<rparr>
           in case post_init g' of Inl e \<Rightarrow> Inl e | Inr _ \<Rightarrow> Inr (g', s'))"

definition derive_block_tokens ::
  "dram_geometry \<Rightarrow> model_shape \<Rightarrow> int \<Rightarrow> bool \<Rightarrow> py_error + int" where
  "derive_block_tokens g s rowgroups_per_block spread_channels =
     (let block_bytes = rowgroups_per_block * rowgroup_bytes g;
          block_bytes = (if spread_channels then block_bytes * channels g else block_bytes)
      in if kv_bytes_per_token s = 0 then Inl ZeroDivisionError
         else Inr (max 1 (ceil_div block_bytes (kv_bytes_per_token s))))"

definition frame_bytes :: "dram_geometry \<Rightarrow> int" where
  "frame_bytes g = rowgroup_bytes g * channels g"

definition frame_blocks_for :: "dram_geometry \<Rightarrow> model_shape \<Rightarrow> int \<Rightarrow> py_error + int" where
  "frame_blocks_for g s block_tokens =
     (let fb = frame_bytes g; block_bytes = block_tokens * kv_bytes_per_token s
      in if block_bytes \<ge> fb
         then (if fb = 0 then Inl ZeroDivisionError
               else if block_bytes mod fb \<noteq> 0 then Inl ValueError else Inr 1)
         else if block_bytes = 0 then Inl ZeroDivisionError
         else if fb mod block_bytes \<noteq> 0 then Inl ValueError
         else Inr (fb div block_bytes))"

section \<open>Powers of two\<close>

lemma and_pred_double: "((2 * y) AND (2 * y - 1)) = 2 * (y AND (y - 1))" for y :: int
proof -
  have "(2 * y - 1) div 2 = y - 1" by linarith
  then show ?thesis by (simp add: and_int_rec [of "2 * y"])
qed

lemma and_pred_odd: "((1 + 2 * y) AND (1 + 2 * y - 1)) = 2 * y" for y :: int
  by (simp add: and_int_rec [of "1 + 2 * y"])

lemma pow2_if_and_pred: "0 < x \<Longrightarrow> (x AND (x - 1)) = 0 \<Longrightarrow> \<exists>n. x = 2 ^ n" for x :: int
proof (induction "nat x" arbitrary: x rule: less_induct)
  case less
  show ?case
  proof (cases "even x")
    case True
    then obtain y where x: "x = 2 * y" by (auto elim: evenE)
    with less.prems have "0 < y" and "(y AND (y - 1)) = 0" by (auto simp: and_pred_double)
    moreover from x less.prems have "nat y < nat x" by simp
    ultimately obtain n where "y = 2 ^ n" using less.hyps by blast
    with x have "x = 2 ^ Suc n" by simp
    then show ?thesis by blast
  next
    case False
    then obtain y where x: "x = 1 + 2 * y" by (auto elim: oddE)
    with less.prems have "y = 0" using and_pred_odd [of y] by simp
    with x have "x = 2 ^ 0" by simp
    then show ?thesis by blast
  qed
qed

lemma and_pred_pow2: "((2 ^ n) AND (2 ^ n - 1)) = (0 :: int)"
  by (simp add: mask_eq_exp_minus_1 [symmetric] take_bit_eq_mask [symmetric])

theorem is_pow2_iff: "is_pow2 x \<longleftrightarrow> (\<exists>n. x = 2 ^ n)"
  unfolding is_pow2_def using pow2_if_and_pred and_pred_pow2 by auto

lemma pow2_dvd_iff: "(2 ^ m dvd (2 ^ n :: int)) \<longleftrightarrow> m \<le> n"
proof
  assume "(2 ^ m :: int) dvd 2 ^ n"
  then have "(2 ^ m :: int) \<le> 2 ^ n" by (rule zdvd_imp_le) simp
  then show "m \<le> n" by simp
qed (rule le_imp_power_dvd)

text \<open>A geometry that passed validation is a vector of exponents.\<close>

definition valid_geometry :: "dram_geometry \<Rightarrow> bool" where
  "valid_geometry g \<longleftrightarrow> post_init g = Inr ()"

lemma valid_geometryE:
  assumes "valid_geometry g"
  obtains c bg ba ro bu co cl where
    "channels g = 2 ^ c" "bank_groups g = 2 ^ bg" "banks_per_group g = 2 ^ ba"
    "rows_per_bank g = 2 ^ ro" "burst_bytes g = 2 ^ bu" "row_bytes g = 2 ^ (bu + co)"
    "cacheline_bytes g = 2 ^ (bu + cl)"
proof -
  from assms have p: "is_pow2 (channels g)" "is_pow2 (bank_groups g)" "is_pow2 (banks_per_group g)"
      "is_pow2 (row_bytes g)" "is_pow2 (burst_bytes g)" "is_pow2 (rows_per_bank g)"
      "is_pow2 (cacheline_bytes g)"
    and d: "burst_bytes g dvd row_bytes g" "burst_bytes g dvd cacheline_bytes g"
    by (auto simp: valid_geometry_def post_init_def mod_eq_0_iff_dvd split: if_splits)
  from p obtain c bg ba r bu ro l where e:
    "channels g = 2 ^ c" "bank_groups g = 2 ^ bg" "banks_per_group g = 2 ^ ba" "row_bytes g = 2 ^ r"
    "burst_bytes g = 2 ^ bu" "rows_per_bank g = 2 ^ ro" "cacheline_bytes g = 2 ^ l"
    by (auto simp: is_pow2_iff)
  from d e have "bu \<le> r" "bu \<le> l" by (simp_all add: pow2_dvd_iff)
  then obtain co cl where "r = bu + co" "l = bu + cl" using le_Suc_ex by blast
  with e show ?thesis by (intro that) simp_all
qed

lemma valid_geometry_pos:
  assumes "valid_geometry g"
  shows "0 < channels g" "0 < bank_groups g" "0 < banks_per_group g" "0 < rows_per_bank g"
    "0 < burst_bytes g" "0 < row_bytes g" "0 < cacheline_bytes g"
  using assms by (auto elim!: valid_geometryE)

lemma valid_geometry_cols:
  assumes "valid_geometry g"
  shows "cols_per_row g * burst_bytes g = row_bytes g" and "0 < cols_per_row g"
  using assms by (auto elim!: valid_geometryE simp: cols_per_row_def power_add)

lemma valid_geometry_total:
  assumes "valid_geometry g"
  shows "total_bursts g = channels g * banks_per_channel g * rows_per_bank g * cols_per_row g"
proof -
  have "capacity_bytes g
      = (channels g * banks_per_channel g * rows_per_bank g * cols_per_row g) * burst_bytes g"
    using valid_geometry_cols(1) [OF assms] by (simp add: capacity_bytes_def)
  then show ?thesis
    using valid_geometry_pos(5) [OF assms] by (simp add: total_bursts_def)
qed

lemma frame_bytes_pos: "valid_geometry g \<Longrightarrow> 0 < frame_bytes g"
  by (simp add: frame_bytes_def rowgroup_bytes_def banks_per_channel_def valid_geometry_pos)

section \<open>What the derived sizes promise\<close>

lemma shard_kv_InrD:
  assumes "valid_geometry g" and "shard_kv g s n = Inr (g', s')"
  shows "0 < n" and "channels g = n * channels g'" and "kv_heads s = n * kv_heads s'"
    and "valid_geometry g'" and "row_bytes g' = row_bytes g" and "bank_groups g' = bank_groups g"
    and "banks_per_group g' = banks_per_group g" and "burst_bytes g' = burst_bytes g"
    and "rows_per_bank g' = rows_per_bank g"
    and "head_dim s' = head_dim s" and "dtype_bytes s' = dtype_bytes s"
proof -
  have *: "0 < n \<and> channels g = n * channels g' \<and> kv_heads s = n * kv_heads s' \<and> valid_geometry g'
      \<and> row_bytes g' = row_bytes g \<and> bank_groups g' = bank_groups g
      \<and> banks_per_group g' = banks_per_group g \<and> burst_bytes g' = burst_bytes g
      \<and> rows_per_bank g' = rows_per_bank g
      \<and> head_dim s' = head_dim s \<and> dtype_bytes s' = dtype_bytes s"
  proof (cases "n = 1")
    case True
    with assms show ?thesis by (simp add: shard_kv_def)
  next
    case False
    with assms(2) have n: "n \<noteq> 0" and c: "channels g mod n = 0" and h: "kv_heads s mod n = 0"
      and g': "g' = g\<lparr>geom_name := geom_name g @ ''-s'' @ show_int n, channels := channels g div n\<rparr>"
      and s': "s' = s\<lparr>shape_name := shape_name s @ ''-s'' @ show_int n, kv_heads := kv_heads s div n\<rparr>"
      and v: "valid_geometry g'"
      by (auto simp: shard_kv_def Let_def valid_geometry_def split: if_splits sum.splits)
    have "0 < channels g div n" using valid_geometry_pos(1) [OF v] g' by simp
    then have "0 < n"
      using div_nonneg_neg_le0 [of "channels g" n] valid_geometry_pos(1) [OF assms(1)] n
      by linarith
    with n c h g' s' v show ?thesis by (auto simp: mult_div_mod_eq [symmetric] minus_mod_eq_mult_div [symmetric])
  qed
  show "0 < n" "channels g = n * channels g'" "kv_heads s = n * kv_heads s'" "valid_geometry g'"
    "row_bytes g' = row_bytes g" "bank_groups g' = bank_groups g"
    "banks_per_group g' = banks_per_group g" "burst_bytes g' = burst_bytes g"
    "rows_per_bank g' = rows_per_bank g"
    "head_dim s' = head_dim s" "dtype_bytes s' = dtype_bytes s"
    using * by auto
qed

lemma frame_blocks_for_scale:
  assumes n: "0 < n" and f: "frame_bytes g = n * frame_bytes g'"
    and k: "kv_bytes_per_token s = n * kv_bytes_per_token s'"
  shows "frame_blocks_for g s bt = frame_blocks_for g' s' bt"
proof -
  have b: "bt * kv_bytes_per_token s = n * (bt * kv_bytes_per_token s')" using k by simp
  show ?thesis
    unfolding frame_blocks_for_def Let_def f b
    using n by (simp add: mult_le_cancel_left_pos mult_mod_right [symmetric])
qed

text \<open>KV-head sharding leaves the alignment ratio unchanged: when \<open>shard_kv\<close> accepts a shard
  count, the shard is again a valid geometry with the same row groups, the shard count divides the
  channels and the heads exactly, and the number of blocks per alignment frame, errors included, is
  the one of the unsharded configuration at every block size. This is the invariance the docstring
  of \<open>shard_kv\<close> announces.\<close>

theorem shard_kv_frame_invariant:
  assumes "valid_geometry g" and "shard_kv g s n = Inr (g', s')"
  shows "valid_geometry g' \<and> rowgroup_bytes g' = rowgroup_bytes g
    \<and> channels g = n * channels g' \<and> kv_heads s = n * kv_heads s'
    \<and> frame_blocks_for g' s' bt = frame_blocks_for g s bt"
proof -
  note d = shard_kv_InrD [OF assms]
  have r: "rowgroup_bytes g' = rowgroup_bytes g"
    using d by (simp add: rowgroup_bytes_def banks_per_channel_def)
  have "frame_blocks_for g s bt = frame_blocks_for g' s' bt"
    using d r by (intro frame_blocks_for_scale [of n])
      (simp_all add: frame_bytes_def kv_bytes_per_token_def)
  with d r show ?thesis by simp
qed

theorem shard_kv_frame_invariant_witness:
  "frame_blocks_for
     (HBM3_PIM\<lparr>geom_name := ''hbm3-pim-s4'', channels := 8\<rparr>)
     (LLAMA_GQA_8KV\<lparr>shape_name := ''llama-gqa-8kv-s4'', kv_heads := 2\<rparr>) 16
   = frame_blocks_for HBM3_PIM LLAMA_GQA_8KV 16"
proof -
  let ?g = "HBM3_PIM\<lparr>geom_name := ''hbm3-pim-s4'', channels := 8\<rparr>"
  let ?s = "LLAMA_GQA_8KV\<lparr>shape_name := ''llama-gqa-8kv-s4'', kv_heads := 2\<rparr>"
  have "valid_geometry HBM3_PIM" by code_simp
  moreover have "shard_kv HBM3_PIM LLAMA_GQA_8KV 4 = Inr (?g, ?s)" by code_simp
  ultimately show ?thesis using shard_kv_frame_invariant by blast
qed

lemma frame_blocks_for_Inr:
  assumes "valid_geometry g" and "0 < block_tokens * kv_bytes_per_token s"
  shows "frame_blocks_for g s block_tokens = Inr k \<longleftrightarrow>
    (if frame_bytes g \<le> block_tokens * kv_bytes_per_token s
     then k = 1 \<and> frame_bytes g dvd block_tokens * kv_bytes_per_token s
     else k * (block_tokens * kv_bytes_per_token s) = frame_bytes g)"
proof -
  define b where "b = block_tokens * kv_bytes_per_token s"
  have b: "0 < b" and f: "0 < frame_bytes g"
    using assms(2) frame_bytes_pos [OF assms(1)] by (auto simp: b_def)
  have "frame_bytes g mod b = 0 \<and> frame_bytes g div b = k \<longleftrightarrow> k * b = frame_bytes g"
  proof
    assume "k * b = frame_bytes g"
    then have "frame_bytes g = k * b" by simp
    with b show "frame_bytes g mod b = 0 \<and> frame_bytes g div b = k" by simp
  qed auto
  then show ?thesis
    unfolding frame_blocks_for_def Let_def b_def [symmetric]
    using b f by (auto simp: mod_eq_0_iff_dvd)
qed

text \<open>The block size that \<open>derive_block_tokens\<close> computes is the PIM-natural one: it is the least
  positive number of tokens whose bytes cover one row index of every bank of every channel, and when
  the bytes of a token divide that frame, the block is exactly one frame, so \<open>frame_blocks_for\<close>
  returns 1 for it.\<close>

theorem derive_block_tokens_natural:
  assumes "valid_geometry g" and "0 < kv_bytes_per_token s"
  shows "\<exists>t. derive_block_tokens g s 1 True = Inr t \<and> 1 \<le> t
    \<and> (\<forall>u. frame_bytes g \<le> u * kv_bytes_per_token s \<longleftrightarrow> t \<le> u)
    \<and> (kv_bytes_per_token s dvd frame_bytes g \<longrightarrow>
         t * kv_bytes_per_token s = frame_bytes g \<and> frame_blocks_for g s t = Inr 1)"
proof -
  let ?k = "kv_bytes_per_token s" and ?t = "ceil_div (frame_bytes g) (kv_bytes_per_token s)"
  note fpos = frame_bytes_pos [OF assms(1)]
  have le: "frame_bytes g \<le> u * ?k \<longleftrightarrow> ?t \<le> u" for u
    using ceil_div_le_iff [OF assms(2)] by blast
  have t1: "1 \<le> ?t"
    using le [of 0] fpos by simp
  have der: "derive_block_tokens g s 1 True = Inr ?t"
    using assms(2) t1 by (simp add: derive_block_tokens_def Let_def frame_bytes_def)
  have exact: "?t * ?k = frame_bytes g" if "?k dvd frame_bytes g"
    using that assms(2) by (auto simp: ceil_div_def elim!: dvdE)
  have "frame_blocks_for g s ?t = Inr 1" if "?k dvd frame_bytes g"
    using frame_blocks_for_Inr [OF assms(1), of ?t s 1] exact [OF that] fpos by simp
  with der t1 le exact show ?thesis by blast
qed

theorem derive_block_tokens_natural_witness:
  "derive_block_tokens HBM3_PIM LLAMA_GQA_8KV 1 True = Inr 128
   \<and> frame_blocks_for HBM3_PIM LLAMA_GQA_8KV 128 = Inr 1"
proof -
  have v: "valid_geometry HBM3_PIM" "0 < kv_bytes_per_token LLAMA_GQA_8KV" by code_simp+
  have d: "derive_block_tokens HBM3_PIM LLAMA_GQA_8KV 1 True = Inr 128" by code_simp
  have "kv_bytes_per_token LLAMA_GQA_8KV dvd frame_bytes HBM3_PIM" by code_simp
  with derive_block_tokens_natural [OF v] d show ?thesis by auto
qed

end
