(* ===== verification/Addr_Map.thy ===== *)
theory Addr_Map
  imports Config
begin

text \<open>
  The physical address map (\<open>pimkv/addrmap.py\<close>): a linear KV burst index is sliced bit by bit into
  channel, bank group, bank, row and column. The numpy arrays of the code are lists here and the
  per-element arithmetic is on \<open>int\<close>; \<open>addr_map\<close> rejects every index outside
  \<open>[0, total_bursts)\<close>, and all intermediate values stay below \<open>total_bursts\<close>, so the 64-bit
  arithmetic of the code does not wrap for any geometry of fewer than \<open>2 ^ 63\<close> bursts.
\<close>

section \<open>Layouts\<close>

datatype dram_field = Fch | Fbg | Fba | Fro | Fco

text \<open>\<open>int(n).bit_length() - 1\<close>. The code applies it to sizes of a validated geometry only, which
  are positive, so the subtraction does not go below 0.\<close>

fun bit_length :: "nat \<Rightarrow> nat" where
  "bit_length n = (if n = 0 then 0 else Suc (bit_length (n div 2)))"

declare bit_length.simps [simp del]

definition bits_of :: "int \<Rightarrow> nat" where
  "bits_of n = bit_length (nat \<bar>n\<bar>) - 1"

definition SCHEMES :: "string list" where
  "SCHEMES = [''host-centric'', ''host-cacheline'', ''pim-friendly'']"

definition scheme_fields :: "dram_geometry \<Rightarrow> string \<Rightarrow> py_error + (dram_field \<times> nat) list" where
  "scheme_fields g scheme =
     (let ch = bits_of (channels g); bg = bits_of (bank_groups g); ba = bits_of (banks_per_group g);
          ro = bits_of (rows_per_bank g); co = bits_of (cols_per_row g)
      in if scheme = ''host-centric''
         then Inr [(Fco, co), (Fch, ch), (Fba, ba), (Fbg, bg), (Fro, ro)]
         else if scheme = ''host-cacheline''
         then (let co_lo = min (bits_of (cacheline_bytes g div burst_bytes g)) co
               in Inr [(Fco, co_lo), (Fch, ch), (Fba, ba), (Fbg, bg), (Fco, co - co_lo), (Fro, ro)])
         else if scheme = ''pim-friendly''
         then Inr [(Fba, ba), (Fbg, bg), (Fco, co), (Fro, ro), (Fch, ch)]
         else Inl KeyError)"

record addr_map =
  am_geom :: dram_geometry
  am_scheme :: string
  am_fields :: "(dram_field \<times> nat) list"
  am_total_bits :: nat

definition AddrMap :: "dram_geometry \<Rightarrow> string \<Rightarrow> py_error + addr_map" where
  "AddrMap g scheme =
     (case scheme_fields g scheme of
        Inl e \<Rightarrow> Inl e
      | Inr fs \<Rightarrow>
          let total_bits = sum_list (map snd fs)
          in if push_bit total_bits 1 = total_bursts g
             then Inr \<lparr>am_geom = g, am_scheme = scheme, am_fields = fs, am_total_bits = total_bits\<rparr>
             else Inl AssertionError)"

section \<open>Slicing and gathering\<close>

type_synonym coords = "dram_field \<Rightarrow> int"

fun map_loop :: "int \<Rightarrow> (dram_field \<times> nat) list \<Rightarrow> nat \<Rightarrow> coords \<Rightarrow> (dram_field \<Rightarrow> nat) \<Rightarrow> coords" where
  "map_loop lin [] shift out in_field_shift = out"
| "map_loop lin ((f, nb) # fs) shift out in_field_shift =
     (if nb \<noteq> 0 then
        let chunk = drop_bit shift lin AND (push_bit nb 1 - 1)
        in map_loop lin fs (shift + nb)
             (out(f := out f OR push_bit (in_field_shift f) chunk))
             (in_field_shift(f := in_field_shift f + nb))
      else map_loop lin fs shift out in_field_shift)"

definition map_burst :: "addr_map \<Rightarrow> int \<Rightarrow> coords" where
  "map_burst am lin = map_loop lin (am_fields am) 0 (\<lambda>_. 0) (\<lambda>_. 0)"

definition map_addrs :: "addr_map \<Rightarrow> int list \<Rightarrow> py_error + coords list" where
  "map_addrs am lin =
     (if lin \<noteq> [] \<and> (Min (set lin) < 0 \<or> Max (set lin) \<ge> total_bursts (am_geom am))
      then Inl ValueError else Inr (map (map_burst am) lin))"

definition flat_bank :: "addr_map \<Rightarrow> coords \<Rightarrow> int" where
  "flat_bank am c = c Fbg * banks_per_group (am_geom am) + c Fba"

fun inverse_loop :: "coords \<Rightarrow> (dram_field \<times> nat) list \<Rightarrow> nat \<Rightarrow> int \<Rightarrow> (dram_field \<Rightarrow> nat) \<Rightarrow> int" where
  "inverse_loop vals [] shift lin in_field_shift = lin"
| "inverse_loop vals ((f, nb) # fs) shift lin in_field_shift =
     (if nb \<noteq> 0 then
        let chunk = drop_bit (in_field_shift f) (vals f) AND (push_bit nb 1 - 1)
        in inverse_loop vals fs (shift + nb) (lin OR push_bit shift chunk)
             (in_field_shift(f := in_field_shift f + nb))
      else inverse_loop vals fs shift lin in_field_shift)"

definition inverse_burst :: "addr_map \<Rightarrow> coords \<Rightarrow> int" where
  "inverse_burst am c = inverse_loop c (am_fields am) 0 0 (\<lambda>_. 0)"

definition inverse_addrs :: "addr_map \<Rightarrow> coords list \<Rightarrow> int list" where
  "inverse_addrs am cs = map (inverse_burst am) cs"

section \<open>Slicing lemmas\<close>

text \<open>The mask of the code is \<open>take_bit\<close>, and a field of width 0 contributes nothing, so both loops
  have one unconditional step.\<close>

lemma and_mask: "(x AND (push_bit nb 1 - 1)) = take_bit nb (x :: int)"
  by (simp add: take_bit_eq_mask mask_eq_exp_minus_1 push_bit_eq_mult)

lemma map_loop_step:
  "map_loop lin ((f, nb) # fs) s out ifs =
     map_loop lin fs (s + nb) (out(f := out f OR push_bit (ifs f) (take_bit nb (drop_bit s lin))))
       (ifs(f := ifs f + nb))"
proof (cases "nb = 0")
  case False
  then show ?thesis
    by (simp only: map_loop.simps Let_def and_mask not_False_eq_True if_True)
qed simp

lemma inverse_loop_step:
  "inverse_loop v ((f, nb) # fs) s lin ifs =
     inverse_loop v fs (s + nb) (lin OR push_bit s (take_bit nb (drop_bit (ifs f) (v f))))
       (ifs(f := ifs f + nb))"
proof (cases "nb = 0")
  case False
  then show ?thesis
    by (simp only: inverse_loop.simps Let_def and_mask not_False_eq_True if_True)
qed simp

declare map_loop.simps(2) [simp del] inverse_loop.simps(2) [simp del]

text \<open>Total width that a layout gives to a field.\<close>

definition width :: "dram_field \<Rightarrow> (dram_field \<times> nat) list \<Rightarrow> nat" where
  "width f fs = sum_list (map snd (filter (\<lambda>p. fst p = f) fs))"

lemma width_Nil [simp]: "width f [] = 0"
  by (simp add: width_def)

lemma width_Cons [simp]: "width f ((f', nb) # fs) = (if f' = f then nb else 0) + width f fs"
  by (simp add: width_def)

lemma bit_int_lt: "0 \<le> x \<Longrightarrow> x < 2 ^ n \<Longrightarrow> bit x m \<Longrightarrow> m < n" for x :: int
  by (metis bit_take_bit_iff take_bit_int_eq_self)

lemma take_push_same [simp]: "take_bit n (push_bit n y) = (0 :: int)"
  by (rule bit_eqI) (auto simp: bit_take_bit_iff bit_push_bit_iff)

lemma drop_push_same [simp]: "drop_bit n (push_bit n y) = (y :: int)"
  by (rule bit_eqI) (auto simp: bit_drop_bit_eq bit_push_bit_iff)

lemma drop_small: "0 \<le> x \<Longrightarrow> x < 2 ^ n \<Longrightarrow> drop_bit n x = 0" for x :: int
  by (simp add: drop_bit_eq_div div_pos_pos_trivial)

lemma or_push_lt:
  fixes x y :: int
  assumes "0 \<le> x" "x < 2 ^ n"
  shows "0 \<le> x OR push_bit n (take_bit m y)" and "x OR push_bit n (take_bit m y) < 2 ^ (n + m)"
proof -
  have "take_bit (n + m) (x OR push_bit n (take_bit m y)) = x OR push_bit n (take_bit m y)"
  proof (rule bit_eqI)
    fix k
    show "bit (take_bit (n + m) (x OR push_bit n (take_bit m y))) k
        = bit (x OR push_bit n (take_bit m y)) k"
      using bit_int_lt [OF assms, of k]
      by (auto simp: bit_take_bit_iff bit_or_iff bit_push_bit_iff)
  qed
  then show "0 \<le> x OR push_bit n (take_bit m y)" and "x OR push_bit n (take_bit m y) < 2 ^ (n + m)"
    by (metis take_bit_nonnegative, metis take_bit_int_less_exp)
qed

lemma or_push_split:
  fixes x :: int
  shows "acc OR push_bit s (take_bit (m + k) x)
     = (acc OR push_bit s (take_bit m x)) OR push_bit (s + m) (take_bit k (drop_bit m x))"
proof (rule bit_eqI)
  fix n
  have "s + m \<le> n \<Longrightarrow> m + (n - (s + m)) = n - s" by simp
  then show "bit (acc OR push_bit s (take_bit (m + k) x)) n =
      bit ((acc OR push_bit s (take_bit m x)) OR push_bit (s + m) (take_bit k (drop_bit m x))) n"
    by (cases "s + m \<le> n") (auto simp: bit_take_bit_iff bit_or_iff bit_push_bit_iff bit_drop_bit_eq)
qed

lemma take_bit_low: "take_bit m x = y \<Longrightarrow> n \<le> m \<Longrightarrow> take_bit n x = take_bit n y" for x :: int
  by (auto simp: min_def)

lemma take_drop_low: "take_bit (n + m) x = y \<Longrightarrow> take_bit m (drop_bit n x) = drop_bit n y" for x :: int
  by (auto simp: drop_bit_take_bit)

text \<open>The invariant of both loops: a field holds exactly the bits written to it so far.\<close>

definition in_range :: "coords \<Rightarrow> (dram_field \<Rightarrow> nat) \<Rightarrow> bool" where
  "in_range out ifs \<longleftrightarrow> (\<forall>f. 0 \<le> out f \<and> out f < 2 ^ ifs f)"

lemma in_range_step:
  "in_range out ifs \<Longrightarrow>
     in_range (out(f := out f OR push_bit (ifs f) (take_bit nb x))) (ifs(f := ifs f + nb))"
  using or_push_lt [of "out f" "ifs f"] by (auto simp: in_range_def)

lemma in_rangeD: "in_range out ifs \<Longrightarrow> 0 \<le> out f" "in_range out ifs \<Longrightarrow> out f < 2 ^ ifs f"
  by (simp_all add: in_range_def)

lemma in_range_0 [simp]: "in_range (\<lambda>_. 0) (\<lambda>_. 0)"
  by (simp add: in_range_def)

text \<open>Every later step of the slicing loop leaves the bits already written to a field alone.\<close>

lemma map_loop_low:
  "in_range out ifs \<Longrightarrow> take_bit (ifs f) (map_loop lin fs s out ifs f) = out f"
proof (induction fs arbitrary: s out ifs)
  case Nil
  then show ?case by (simp add: in_rangeD take_bit_int_eq_self)
next
  case (Cons p fs)
  obtain f' nb where p: "p = (f', nb)" by (cases p)
  let ?out = "out(f' := out f' OR push_bit (ifs f') (take_bit nb (drop_bit s lin)))"
  let ?ifs = "ifs(f' := ifs f' + nb)"
  have inv: "in_range ?out ?ifs"
    using Cons.prems by (rule in_range_step)
  have "take_bit (?ifs f) (map_loop lin fs (s + nb) ?out ?ifs f) = ?out f"
    by (rule Cons.IH [OF inv])
  then have "take_bit (ifs f) (map_loop lin fs (s + nb) ?out ?ifs f) = take_bit (ifs f) (?out f)"
    by (rule take_bit_low) simp
  also have "\<dots> = out f"
    using Cons.prems by (auto simp: in_rangeD take_bit_int_eq_self)
  finally show ?case by (simp add: p map_loop_step)
qed

lemma map_loop_bounds:
  "in_range out ifs \<Longrightarrow>
     0 \<le> map_loop lin fs s out ifs f \<and> map_loop lin fs s out ifs f < 2 ^ (ifs f + width f fs)"
proof (induction fs arbitrary: s out ifs)
  case Nil
  then show ?case by (simp add: in_rangeD)
next
  case (Cons p fs)
  obtain f' nb where p: "p = (f', nb)" by (cases p)
  let ?out = "out(f' := out f' OR push_bit (ifs f') (take_bit nb (drop_bit s lin)))"
  let ?ifs = "ifs(f' := ifs f' + nb)"
  have inv: "in_range ?out ?ifs"
    using Cons.prems by (rule in_range_step)
  have "?ifs f + width f fs = ifs f + width f (p # fs)" by (simp add: p)
  with Cons.IH [OF inv, of "s + nb"] show ?case by (simp only: p map_loop_step)
qed

lemma inverse_loop_low:
  "0 \<le> lin \<Longrightarrow> lin < 2 ^ s \<Longrightarrow> take_bit s (inverse_loop v fs s lin ifs) = lin"
proof (induction fs arbitrary: s lin ifs)
  case Nil
  then show ?case by (simp add: take_bit_int_eq_self)
next
  case (Cons p fs)
  obtain f nb where p: "p = (f, nb)" by (cases p)
  let ?lin = "lin OR push_bit s (take_bit nb (drop_bit (ifs f) (v f)))"
  let ?ifs = "ifs(f := ifs f + nb)"
  have "take_bit (s + nb) (inverse_loop v fs (s + nb) ?lin ?ifs) = ?lin"
    using or_push_lt [OF Cons.prems] by (intro Cons.IH)
  then have "take_bit s (inverse_loop v fs (s + nb) ?lin ?ifs) = take_bit s ?lin"
    by (rule take_bit_low) simp
  with Cons.prems show ?case
    by (simp add: p inverse_loop_step take_bit_int_eq_self)
qed

lemma inverse_loop_bounds:
  "0 \<le> lin \<Longrightarrow> lin < 2 ^ s \<Longrightarrow>
     0 \<le> inverse_loop v fs s lin ifs \<and> inverse_loop v fs s lin ifs < 2 ^ (s + sum_list (map snd fs))"
proof (induction fs arbitrary: s lin ifs)
  case Nil
  then show ?case by simp
next
  case (Cons p fs)
  obtain f nb where p: "p = (f, nb)" by (cases p)
  from Cons.IH [OF or_push_lt [OF Cons.prems]] show ?case
    by (simp add: p inverse_loop_step add.assoc)
qed

text \<open>Gathering undoes slicing, and slicing undoes gathering; the accumulators are general.\<close>

lemma inverse_map_loop:
  "in_range out ifs \<Longrightarrow>
     inverse_loop (map_loop lin fs s out ifs) fs s acc ifs
       = acc OR push_bit s (take_bit (sum_list (map snd fs)) (drop_bit s lin))"
proof (induction fs arbitrary: s out ifs acc)
  case Nil
  then show ?case by simp
next
  case (Cons p fs)
  obtain f nb where p: "p = (f, nb)" by (cases p)
  let ?chunk = "take_bit nb (drop_bit s lin)"
  let ?out = "out(f := out f OR push_bit (ifs f) ?chunk)"
  let ?ifs = "ifs(f := ifs f + nb)"
  let ?res = "map_loop lin fs (s + nb) ?out ?ifs"
  have inv: "in_range ?out ?ifs"
    using Cons.prems by (rule in_range_step)
  have "take_bit (ifs f + nb) (?res f) = out f OR push_bit (ifs f) ?chunk"
    using map_loop_low [OF inv, of f lin fs "s + nb"] by simp
  then have "take_bit nb (drop_bit (ifs f) (?res f)) = drop_bit (ifs f) (out f OR push_bit (ifs f) ?chunk)"
    by (rule take_drop_low)
  also have "\<dots> = ?chunk"
    using Cons.prems by (simp add: in_rangeD drop_small)
  finally have chunk: "take_bit nb (drop_bit (ifs f) (?res f)) = ?chunk" .
  have "inverse_loop ?res fs (s + nb) (acc OR push_bit s ?chunk) ?ifs
      = (acc OR push_bit s ?chunk)
          OR push_bit (s + nb) (take_bit (sum_list (map snd fs)) (drop_bit (s + nb) lin))"
    by (rule Cons.IH [OF inv])
  moreover have "drop_bit (s + nb) lin = drop_bit nb (drop_bit s lin)"
    by (simp add: add.commute)
  ultimately show ?case
    by (simp only: p map_loop_step inverse_loop_step chunk or_push_split list.map sum_list.Cons snd_conv)
qed

lemma map_inverse_loop:
  "0 \<le> acc \<Longrightarrow> acc < 2 ^ s \<Longrightarrow>
     map_loop (inverse_loop v fs s acc ifs) fs s out ifs f
       = out f OR push_bit (ifs f) (take_bit (width f fs) (drop_bit (ifs f) (v f)))"
proof (induction fs arbitrary: s acc ifs out)
  case Nil
  then show ?case by simp
next
  case (Cons p fs)
  obtain f' nb where p: "p = (f', nb)" by (cases p)
  let ?chunk = "take_bit nb (drop_bit (ifs f') (v f'))"
  let ?acc = "acc OR push_bit s ?chunk"
  let ?ifs = "ifs(f' := ifs f' + nb)"
  let ?res = "inverse_loop v fs (s + nb) ?acc ?ifs"
  note acc = or_push_lt [OF Cons.prems, of nb "drop_bit (ifs f') (v f')"]
  have "take_bit (s + nb) ?res = ?acc"
    using acc by (intro inverse_loop_low)
  then have "take_bit nb (drop_bit s ?res) = drop_bit s ?acc"
    by (rule take_drop_low)
  also have "\<dots> = ?chunk"
    using Cons.prems by (simp add: drop_small)
  finally have chunk: "take_bit nb (drop_bit s ?res) = ?chunk" .
  let ?out = "out(f' := out f' OR push_bit (ifs f') ?chunk)"
  have IH: "map_loop ?res fs (s + nb) ?out ?ifs f
      = ?out f OR push_bit (?ifs f) (take_bit (width f fs) (drop_bit (?ifs f) (v f)))"
    by (rule Cons.IH [OF acc])
  have "drop_bit (ifs f' + nb) (v f') = drop_bit nb (drop_bit (ifs f') (v f'))"
    by (simp add: add.commute)
  then show ?case
    unfolding p map_loop_step inverse_loop_step chunk IH
    by (cases "f = f'") (simp_all add: or_push_split del: drop_bit_drop_bit)
qed

section \<open>Layouts of a valid geometry\<close>

lemma bit_length_pow2: "bit_length (2 ^ n) = Suc n"
  by (induction n) (subst bit_length.simps; simp)+

lemma bits_of_pow2 [simp]: "bits_of (2 ^ n) = n"
  by (simp add: bits_of_def bit_length_pow2 nat_power_eq)

text \<open>The sizes that a coordinate of each field ranges over.\<close>

fun field_size :: "dram_geometry \<Rightarrow> dram_field \<Rightarrow> int" where
  "field_size g Fch = channels g"
| "field_size g Fbg = bank_groups g"
| "field_size g Fba = banks_per_group g"
| "field_size g Fro = rows_per_bank g"
| "field_size g Fco = cols_per_row g"

definition coord_ok :: "dram_geometry \<Rightarrow> coords \<Rightarrow> bool" where
  "coord_ok g c \<longleftrightarrow> (\<forall>f. 0 \<le> c f \<and> c f < field_size g f)"

definition frame_bursts :: "dram_geometry \<Rightarrow> int" where
  "frame_bursts g = channels g * banks_per_channel g * cols_per_row g"

lemma frame_bursts_bytes: "valid_geometry g \<Longrightarrow> frame_bursts g * burst_bytes g = frame_bytes g"
  using valid_geometry_cols(1) [of g]
  by (simp add: frame_bursts_def frame_bytes_def rowgroup_bytes_def)

lemma all_dram_field: "P Fch \<Longrightarrow> P Fbg \<Longrightarrow> P Fba \<Longrightarrow> P Fro \<Longrightarrow> P Fco \<Longrightarrow> \<forall>f. P f"
  by (metis dram_field.exhaust)

lemma scheme_fields_ok:
  assumes "valid_geometry g" and "scheme \<in> set SCHEMES"
  obtains fs where "scheme_fields g scheme = Inr fs"
    and "\<And>f. 2 ^ width f fs = field_size g f"
    and "2 ^ sum_list (map snd fs) = total_bursts g"
proof -
  from assms(1) obtain c bg ba ro bu co cl where e:
    "channels g = 2 ^ c" "bank_groups g = 2 ^ bg" "banks_per_group g = 2 ^ ba"
    "rows_per_bank g = 2 ^ ro" "burst_bytes g = 2 ^ bu" "row_bytes g = 2 ^ (bu + co)"
    "cacheline_bytes g = 2 ^ (bu + cl)"
    by (rule valid_geometryE)
  have cols: "cols_per_row g = 2 ^ co" and lines: "cacheline_bytes g div burst_bytes g = 2 ^ cl"
    by (simp_all add: cols_per_row_def e power_add)
  have tot: "total_bursts g = 2 ^ (c + bg + ba + ro + co)"
    by (simp add: valid_geometry_total [OF assms(1)] banks_per_channel_def cols e power_add)
  have hc: "scheme_fields g ''host-centric'' = Inr [(Fco, co), (Fch, c), (Fba, ba), (Fbg, bg), (Fro, ro)]"
    and hl: "scheme_fields g ''host-cacheline'' = Inr [(Fco, min cl co), (Fch, c), (Fba, ba),
        (Fbg, bg), (Fco, co - min cl co), (Fro, ro)]"
    and pf: "scheme_fields g ''pim-friendly'' = Inr [(Fba, ba), (Fbg, bg), (Fco, co), (Fro, ro), (Fch, c)]"
    unfolding scheme_fields_def cols lines by (simp_all add: e Let_def)
  have w: "(\<forall>f. 2 ^ width f fs = field_size g f) \<and> sum_list (map snd fs) = c + bg + ba + ro + co"
    if "fs \<in> {[(Fco, co), (Fch, c), (Fba, ba), (Fbg, bg), (Fro, ro)],
         [(Fco, min cl co), (Fch, c), (Fba, ba), (Fbg, bg), (Fco, co - min cl co), (Fro, ro)],
         [(Fba, ba), (Fbg, bg), (Fco, co), (Fro, ro), (Fch, c)]}" for fs
    using that by (intro conjI all_dram_field) (auto simp: cols e)
  have "\<exists>fs. scheme_fields g scheme = Inr fs \<and> (\<forall>f. 2 ^ width f fs = field_size g f)
      \<and> sum_list (map snd fs) = c + bg + ba + ro + co"
    using assms(2) hc hl pf w unfolding SCHEMES_def by (metis empty_iff insert_iff list.set)
  then show ?thesis using tot by (auto intro: that)
qed

lemma AddrMap_ok:
  assumes "valid_geometry g" and "scheme \<in> set SCHEMES"
  obtains am where "AddrMap g scheme = Inr am"
proof -
  from assms obtain fs where "scheme_fields g scheme = Inr fs"
    and "2 ^ sum_list (map snd fs) = total_bursts g"
    by (rule scheme_fields_ok)
  then show ?thesis by (intro that) (simp add: AddrMap_def Let_def push_bit_eq_mult)
qed

text \<open>What a successfully built map guarantees, whatever the scheme.\<close>

lemma AddrMap_InrD:
  assumes "valid_geometry g" and "AddrMap g scheme = Inr am"
  shows "scheme \<in> set SCHEMES" and "am_geom am = g"
    and "scheme_fields g scheme = Inr (am_fields am)"
    and "2 ^ width f (am_fields am) = field_size g f"
    and "2 ^ sum_list (map snd (am_fields am)) = total_bursts g"
proof -
  from assms(2) show fs: "scheme_fields g scheme = Inr (am_fields am)" and "am_geom am = g"
    by (auto simp: AddrMap_def Let_def split: sum.splits if_splits)
  from fs show *: "scheme \<in> set SCHEMES"
    by (auto simp: scheme_fields_def SCHEMES_def Let_def split: if_splits)
  from scheme_fields_ok [OF assms(1) *] fs
  show "2 ^ width f (am_fields am) = field_size g f"
    and "2 ^ sum_list (map snd (am_fields am)) = total_bursts g"
    by (metis sum.inject(2))+
qed

lemma map_addrs_Inr:
  "map_addrs am lin = Inr cs \<longleftrightarrow>
     cs = map (map_burst am) lin \<and> (\<forall>l \<in> set lin. 0 \<le> l \<and> l < total_bursts (am_geom am))"
  by (cases "lin = []") (auto simp: map_addrs_def not_less not_le)

lemma map_burst_ok:
  assumes "valid_geometry g" and "AddrMap g scheme = Inr am"
  shows "coord_ok g (map_burst am l)"
  using map_loop_bounds [OF in_range_0, of l "am_fields am" 0] AddrMap_InrD [OF assms]
  by (simp add: coord_ok_def map_burst_def)

lemma inverse_map_burst:
  assumes "valid_geometry g" and "AddrMap g scheme = Inr am"
    and "0 \<le> l" and "l < total_bursts g"
  shows "inverse_burst am (map_burst am l) = l"
  using inverse_map_loop [OF in_range_0, of l "am_fields am" 0 0] AddrMap_InrD(5) [OF assms(1,2)] assms(3,4)
  by (simp add: map_burst_def inverse_burst_def take_bit_int_eq_self)

lemma map_inverse_burst:
  assumes "valid_geometry g" and "AddrMap g scheme = Inr am" and "coord_ok g c"
  shows "map_burst am (inverse_burst am c) = c"
    and "0 \<le> inverse_burst am c" and "inverse_burst am c < total_bursts g"
proof -
  show "map_burst am (inverse_burst am c) = c"
  proof
    fix f
    have "0 \<le> c f" "c f < 2 ^ width f (am_fields am)"
      using assms(3) AddrMap_InrD(4) [OF assms(1,2)] by (simp_all add: coord_ok_def)
    then show "map_burst am (inverse_burst am c) f = c f"
      using map_inverse_loop [of 0 0 c "am_fields am" "\<lambda>_. 0" "\<lambda>_. 0" f]
      by (simp add: map_burst_def inverse_burst_def take_bit_int_eq_self)
  qed
  show "0 \<le> inverse_burst am c" and "inverse_burst am c < total_bursts g"
    using inverse_loop_bounds [of 0 0 c "am_fields am" "\<lambda>_. 0"] AddrMap_InrD(5) [OF assms(1,2)]
    by (simp_all add: inverse_burst_def)
qed

lemma flat_bank_range:
  assumes "valid_geometry g" and "AddrMap g scheme = Inr am" and "coord_ok g c"
  shows "0 \<le> flat_bank am c \<and> flat_bank am c < banks_per_channel g"
proof -
  have c: "0 \<le> c Fbg" "c Fbg + 1 \<le> bank_groups g" "0 \<le> c Fba" "c Fba < banks_per_group g"
    using assms(3) by (auto simp: coord_ok_def dest: spec [of _ Fbg] spec [of _ Fba])
  have "(c Fbg + 1) * banks_per_group g \<le> bank_groups g * banks_per_group g"
    using c by (intro mult_right_mono) auto
  then show ?thesis
    using c AddrMap_InrD(2) [OF assms(1,2)] by (simp add: flat_bank_def banks_per_channel_def distrib_right)
qed

section \<open>Properties of the map\<close>

text \<open>The concrete geometry that the address-map tests use.\<close>

definition TINY :: dram_geometry where
  "TINY = \<lparr>geom_name = ''tiny'', channels = 2, bank_groups = 2, banks_per_group = 2,
     row_bytes = 256, burst_bytes = 32, rows_per_bank = 16, cacheline_bytes = 64\<rparr>"

lemma TINY_valid: "valid_geometry TINY"
  by code_simp

definition TINY_map :: addr_map where
  "TINY_map = \<lparr>am_geom = TINY, am_scheme = ''host-cacheline'',
     am_fields = [(Fco, 1), (Fch, 1), (Fba, 1), (Fbg, 1), (Fco, 2), (Fro, 4)], am_total_bits = 10\<rparr>"

lemma TINY_map: "AddrMap TINY ''host-cacheline'' = Inr TINY_map"
  by code_simp

text \<open>Building the map never trips the assertion \<open>1 << total_bits == geom.total_bursts\<close>: on a
  validated geometry the constructor succeeds for exactly the three schemes of \<open>SCHEMES\<close>, with field
  widths that add up to the whole address, and raises \<open>KeyError\<close> for every other name.\<close>

theorem AddrMap_total:
  assumes "valid_geometry g"
  shows "case AddrMap g scheme of
           Inl e \<Rightarrow> e = KeyError \<and> scheme \<notin> set SCHEMES
         | Inr am \<Rightarrow> scheme \<in> set SCHEMES \<and> 2 ^ am_total_bits am = total_bursts g"
proof (cases "scheme \<in> set SCHEMES")
  case True
  then obtain am where am: "AddrMap g scheme = Inr am" by (rule AddrMap_ok [OF assms])
  then have "2 ^ am_total_bits am = total_bursts g"
    by (auto simp: AddrMap_def Let_def push_bit_eq_mult split: sum.splits if_splits)
  with am True show ?thesis by simp
next
  case False
  then have "scheme_fields g scheme = Inl KeyError"
    by (auto simp: scheme_fields_def SCHEMES_def Let_def)
  with False show ?thesis by (simp add: AddrMap_def)
qed

theorem AddrMap_total_witness: "2 ^ am_total_bits TINY_map = total_bursts TINY"
  using AddrMap_total [OF TINY_valid, of "''host-cacheline''"] by (simp add: TINY_map)

text \<open>C34: The map is exactly invertible on addresses: whenever \<open>map\<close> accepts an array of linear burst
  indices, \<open>inverse\<close> of the coordinates it returns is that array.\<close>

theorem inverse_of_map:
  assumes "valid_geometry g" and "AddrMap g scheme = Inr am" and "map_addrs am lin = Inr cs"
  shows "inverse_addrs am cs = lin"
  using assms(3) inverse_map_burst [OF assms(1,2)] AddrMap_InrD(2) [OF assms(1,2)]
  by (auto simp: map_addrs_Inr inverse_addrs_def intro!: map_idI)

theorem inverse_of_map_witness:
  "\<exists>cs. map_addrs TINY_map [0, 16, 64, 1023] = Inr cs \<and> inverse_addrs TINY_map cs = [0, 16, 64, 1023]"
proof -
  have "map_addrs TINY_map [0, 16, 64, 1023] = Inr (map (map_burst TINY_map) [0, 16, 64, 1023])"
    by (simp add: map_addrs_Inr) code_simp
  with inverse_of_map [OF TINY_valid TINY_map this] show ?thesis by blast
qed

text \<open>It is exactly invertible on coordinates too: every array of coordinates within the geometry
  comes from addresses that \<open>map\<close> accepts, and \<open>map\<close> returns those coordinates. With the previous
  property the map is a bijection between the burst indices and the coordinates of the geometry.\<close>

theorem map_of_inverse:
  assumes "valid_geometry g" and "AddrMap g scheme = Inr am" and "list_all (coord_ok g) cs"
  shows "map_addrs am (inverse_addrs am cs) = Inr cs"
proof -
  have "map_burst am (inverse_burst am c) = c \<and> 0 \<le> inverse_burst am c
      \<and> inverse_burst am c < total_bursts g" if "c \<in> set cs" for c
    using that assms(3) map_inverse_burst [OF assms(1,2), of c] by (auto simp: list_all_iff)
  then show ?thesis
    using AddrMap_InrD(2) [OF assms(1,2)]
    by (auto simp: map_addrs_Inr inverse_addrs_def comp_def intro!: map_idI [symmetric])
qed

definition example_coords :: coords where
  "example_coords = (\<lambda>_. 0)(Fch := 1, Fba := 1, Fro := 9, Fco := 5)"

theorem map_of_inverse_witness:
  "map_addrs TINY_map (inverse_addrs TINY_map [example_coords]) = Inr [example_coords]"
proof -
  have "coord_ok TINY example_coords"
    unfolding coord_ok_def by (rule all_dram_field) (simp_all add: example_coords_def TINY_def cols_per_row_def)
  then show ?thesis by (intro map_of_inverse [OF TINY_valid TINY_map]) simp
qed

text \<open>Bounds and rejection: \<open>map\<close> raises \<open>ValueError\<close> exactly when some index is outside
  \<open>[0, total_bursts)\<close>; otherwise every coordinate it returns lies within the geometry and the flat
  bank index is below \<open>banks_per_channel\<close>.\<close>

theorem map_addrs_bounds:
  assumes "valid_geometry g" and "AddrMap g scheme = Inr am"
  shows "case map_addrs am lin of
           Inl e \<Rightarrow> e = ValueError \<and> (\<exists>l \<in> set lin. l < 0 \<or> total_bursts g \<le> l)
         | Inr cs \<Rightarrow> (\<forall>l \<in> set lin. 0 \<le> l \<and> l < total_bursts g) \<and> length cs = length lin
             \<and> (\<forall>c \<in> set cs. coord_ok g c \<and> 0 \<le> flat_bank am c \<and> flat_bank am c < banks_per_channel g)"
proof (cases "map_addrs am lin")
  case (Inl e)
  then have "e = ValueError" by (auto simp: map_addrs_def split: if_splits)
  moreover have "\<exists>l \<in> set lin. l < 0 \<or> total_bursts g \<le> l"
    using Inl map_addrs_Inr [of am lin] AddrMap_InrD(2) [OF assms] by (force simp: not_less not_le)
  ultimately show ?thesis using Inl by simp
next
  case (Inr cs)
  have bank: "0 \<le> flat_bank am c \<and> flat_bank am c < banks_per_channel g" if "coord_ok g c" for c
    using flat_bank_range [OF assms that] .
  from Inr have cs: "cs = map (map_burst am) lin" and "\<forall>l \<in> set lin. 0 \<le> l \<and> l < total_bursts g"
    by (auto simp: map_addrs_Inr AddrMap_InrD(2) [OF assms])
  moreover have "\<forall>c \<in> set cs. coord_ok g c" using map_burst_ok [OF assms] cs by auto
  ultimately show ?thesis using Inr bank by simp
qed

theorem map_addrs_bounds_witness:
  "map_addrs TINY_map [1024] = Inl ValueError
   \<and> (\<exists>c. map_addrs TINY_map [1023] = Inr [c] \<and> coord_ok TINY c \<and> flat_bank TINY_map c < 4)"
proof -
  have i: "total_bursts TINY = 1024" "banks_per_channel TINY = 4" by code_simp+
  have "map_addrs TINY_map [1024] = Inl ValueError"
    using map_addrs_bounds [OF TINY_valid TINY_map, of "[1024]"] i
    by (auto split: sum.splits)
  moreover have "map_addrs TINY_map [1023] = Inr [map_burst TINY_map 1023]"
    by (simp add: map_addrs_Inr) code_simp
  ultimately show ?thesis
    using map_addrs_bounds [OF TINY_valid TINY_map, of "[1023]"] i by simp
qed

section \<open>Alignment frames\<close>

lemma host_row:
  assumes "valid_geometry g" and "scheme \<in> {''host-centric'', ''host-cacheline''}"
    and "AddrMap g scheme = Inr am" and "0 \<le> l" and "l < total_bursts g"
  shows "map_burst am l Fro = l div frame_bursts g"
proof -
  note am = AddrMap_InrD [OF assms(1,3)]
  define fs where "fs = butlast (am_fields am)"
  have "Inr (am_fields am) = scheme_fields g scheme" using am(3) by simp
  with assms(2) have fs: "am_fields am = fs @ [(Fro, bits_of (rows_per_bank g))]"
    and noro: "width Fro fs = 0"
    by (auto simp: scheme_fields_def Let_def fs_def)
  have split: "map_loop l (fs @ [(Fro, r)]) s out ifs Fro
      = out Fro OR push_bit (ifs Fro) (take_bit r (drop_bit (s + sum_list (map snd fs)) l))"
    if "width Fro fs = 0" for r s out ifs and fs :: "(dram_field \<times> nat) list"
    using that
  proof (induction fs arbitrary: s out ifs)
    case Nil
    then show ?case by (simp add: map_loop_step)
  next
    case (Cons p fs)
    obtain f nb where p: "p = (f, nb)" by (cases p)
    show ?case
    proof (cases "f = Fro")
      case True
      with Cons p have "nb = 0" and "width Fro fs = 0" by simp_all
      then show ?thesis using Cons.IH p True by (simp add: map_loop_step)
    next
      case False
      with Cons p show ?thesis by (simp add: map_loop_step add.assoc)
    qed
  qed
  let ?r = "bits_of (rows_per_bank g)" and ?w = "sum_list (map snd fs)"
  have r: "rows_per_bank g = 2 ^ ?r"
    using assms(1) by (auto elim!: valid_geometryE)
  have tot: "2 ^ ?w * rows_per_bank g = frame_bursts g * rows_per_bank g"
    using am(5) by (simp add: fs r [symmetric] power_add frame_bursts_def
        valid_geometry_total [OF assms(1)] banks_per_channel_def mult.assoc)
  then have w: "2 ^ ?w = frame_bursts g"
    using valid_geometry_pos(4) [OF assms(1)] by simp
  have "l div 2 ^ ?w < 2 ^ ?r"
    using assms(4,5) am(5) by (intro int_div_less) (simp_all add: fs power_add mult.commute)
  moreover have "0 \<le> l div 2 ^ ?w" using assms(4) by (simp add: pos_imp_zdiv_nonneg_iff)
  ultimately show ?thesis
    using split [OF noro, of ?r 0 "\<lambda>_. 0" "\<lambda>_. 0"] w
    by (simp add: map_burst_def fs drop_bit_eq_div take_bit_int_eq_self)
qed

text \<open>The alignment frame of the pim-aware allocator is one row index across every bank of every
  channel, for both host schemes: the bursts of the \<open>k\<close>-th aligned run of \<open>frame_bursts\<close> consecutive
  bursts (\<open>rowgroup_bytes * channels\<close> bytes) are exactly the bursts of row \<open>k\<close>, each bank, channel
  and column once. Choosing a block number therefore chooses a DRAM row.\<close>

theorem host_frame_is_one_row:
  assumes "valid_geometry g" and "scheme \<in> {''host-centric'', ''host-cacheline''}"
    and "AddrMap g scheme = Inr am" and "0 \<le> k" and "k < rows_per_bank g"
  shows "bij_betw (map_burst am) {k * frame_bursts g ..< (k + 1) * frame_bursts g}
           {c. coord_ok g c \<and> c Fro = k}
    \<and> frame_bursts g * burst_bytes g = frame_bytes g"
proof -
  let ?F = "frame_bursts g"
  have F: "0 < ?F"
    using valid_geometry_pos [OF assms(1)] valid_geometry_cols(2) [OF assms(1)]
    by (simp add: frame_bursts_def banks_per_channel_def)
  have tot: "total_bursts g = rows_per_bank g * ?F"
    by (simp add: valid_geometry_total [OF assms(1)] frame_bursts_def)
  have le: "(k + 1) * ?F \<le> total_bursts g"
    unfolding tot using assms(5) F by (intro mult_right_mono) auto
  have in_tot: "0 \<le> l \<and> l < total_bursts g \<and> l div ?F = k"
    if "l \<in> {k * ?F ..< (k + 1) * ?F}" for l
  proof -
    have "0 \<le> k * ?F" using assms(4) F by simp
    moreover have "l div ?F = k"
      using that by (intro int_div_pos_eq [of l ?F k "l - k * ?F"]) (auto simp: algebra_simps)
    ultimately show ?thesis using that le by auto
  qed
  have "bij_betw (map_burst am) {k * ?F ..< (k + 1) * ?F} {c. coord_ok g c \<and> c Fro = k}"
  proof (rule bij_betw_byWitness [where f' = "inverse_burst am"])
    show "\<forall>l \<in> {k * ?F ..< (k + 1) * ?F}. inverse_burst am (map_burst am l) = l"
      using in_tot inverse_map_burst [OF assms(1,3)] by blast
    show "\<forall>c \<in> {c. coord_ok g c \<and> c Fro = k}. map_burst am (inverse_burst am c) = c"
      using map_inverse_burst(1) [OF assms(1,3)] by blast
    show "map_burst am ` {k * ?F ..< (k + 1) * ?F} \<subseteq> {c. coord_ok g c \<and> c Fro = k}"
      using in_tot host_row [OF assms(1-3)] map_burst_ok [OF assms(1,3)] by auto
    show "inverse_burst am ` {c. coord_ok g c \<and> c Fro = k} \<subseteq> {k * ?F ..< (k + 1) * ?F}"
    proof clarify
      fix c assume c: "coord_ok g c" and k: "k = c Fro"
      let ?l = "inverse_burst am c"
      note l = map_inverse_burst [OF assms(1,3) c]
      from host_row [OF assms(1-3) l(2,3)] l(1) have "?l div ?F = c Fro" by simp
      then show "?l \<in> {c Fro * ?F ..< (c Fro + 1) * ?F}"
        using int_div_bounds [OF F, of ?l "c Fro"] by simp
    qed
  qed
  with frame_bursts_bytes [OF assms(1)] show ?thesis by simp
qed

theorem host_frame_is_one_row_witness:
  "bij_betw (map_burst TINY_map) {3 * 64 ..< 4 * 64} {c. coord_ok TINY c \<and> c Fro = 3}"
proof -
  have i: "frame_bursts TINY = 64" "(3 :: int) < rows_per_bank TINY" by code_simp+
  show ?thesis
    using host_frame_is_one_row [OF TINY_valid _ TINY_map _ i(2)] i(1) by simp
qed

lemma pim_friendly_fields:
  assumes "valid_geometry g" and "AddrMap g ''pim-friendly'' = Inr am"
  obtains ba bg co ro ch where "banks_per_group g = 2 ^ ba" and "bank_groups g = 2 ^ bg"
    and "cols_per_row g = 2 ^ co" and "rows_per_bank g = 2 ^ ro" and "channels g = 2 ^ ch"
    and "\<And>l. map_burst am l Fba = take_bit ba l"
    and "\<And>l. map_burst am l Fbg = take_bit bg (drop_bit ba l)"
    and "\<And>l. map_burst am l Fco = take_bit co (drop_bit (ba + bg) l)"
    and "\<And>l. map_burst am l Fro = take_bit ro (drop_bit (ba + bg + co) l)"
    and "\<And>l. map_burst am l Fch = take_bit ch (drop_bit (ba + bg + co + ro) l)"
proof -
  note am = AddrMap_InrD [OF assms]
  have "Inr (am_fields am) = scheme_fields g ''pim-friendly''" using am(3) by simp
  then obtain ba bg co ro ch
    where fs: "am_fields am = [(Fba, ba), (Fbg, bg), (Fco, co), (Fro, ro), (Fch, ch)]"
    by (auto simp: scheme_fields_def Let_def)
  show ?thesis
    using am(4) [of Fba] am(4) [of Fbg] am(4) [of Fco] am(4) [of Fro] am(4) [of Fch]
    by (intro that [of ba bg co ro ch])
      (simp_all add: fs map_burst_def map_loop_step del: drop_bit_drop_bit)
qed

text \<open>Under the pim-friendly map an aligned run of \<open>banks_per_channel\<close> consecutive bursts is exactly
  one full all-bank command: all of them have the same channel, row and column, and the flat bank of
  the \<open>j\<close>-th one is \<open>j\<close>, so every bank of the channel takes part exactly once.\<close>

theorem pim_friendly_stripe:
  assumes "valid_geometry g" and "AddrMap g ''pim-friendly'' = Inr am"
    and "0 \<le> q" and "0 \<le> j" and "j < banks_per_channel g"
  shows "flat_bank am (map_burst am (q * banks_per_channel g + j)) = j
    \<and> map_burst am (q * banks_per_channel g + j) Fch = map_burst am (q * banks_per_channel g) Fch
    \<and> map_burst am (q * banks_per_channel g + j) Fro = map_burst am (q * banks_per_channel g) Fro
    \<and> map_burst am (q * banks_per_channel g + j) Fco = map_burst am (q * banks_per_channel g) Fco"
proof -
  from pim_friendly_fields [OF assms(1,2)] obtain ba bg co ro ch where
    e: "banks_per_group g = 2 ^ ba" "bank_groups g = 2 ^ bg"
    and m: "\<And>l. map_burst am l Fba = take_bit ba l"
      "\<And>l. map_burst am l Fbg = take_bit bg (drop_bit ba l)"
      "\<And>l. map_burst am l Fco = take_bit co (drop_bit (ba + bg) l)"
      "\<And>l. map_burst am l Fro = take_bit ro (drop_bit (ba + bg + co) l)"
      "\<And>l. map_burst am l Fch = take_bit ch (drop_bit (ba + bg + co + ro) l)"
    by metis
  have B: "banks_per_channel g = 2 ^ (ba + bg)"
    by (simp add: banks_per_channel_def e power_add mult.commute)
  have j: "0 \<le> j" "j < 2 ^ (ba + bg)" using assms(4,5) B by simp_all
  let ?l = "q * 2 ^ (ba + bg) + j" and ?base = "q * 2 ^ (ba + bg)"
  have "?l div 2 ^ (ba + bg) = q" using int_div_pos_eq [of ?l "2 ^ (ba + bg)" q j] j by (simp add: mult.commute)
  then have high: "drop_bit (ba + bg + k) ?l = drop_bit (ba + bg + k) ?base" for k
    by (simp add: drop_bit_eq_div power_add [of 2 "ba + bg"] zdiv_zmult2_eq)
  have "?l = 2 ^ (ba + bg) * q + j" by (simp add: mult.commute)
  then have low: "take_bit (ba + bg) ?l = j"
    unfolding take_bit_eq_mod using j by (rule int_mod_pos_eq)
  then have "take_bit ba ?l = take_bit ba j"
    by (rule take_bit_low) simp
  moreover have "take_bit bg (drop_bit ba ?l) = drop_bit ba j"
    using low by (rule take_drop_low)
  moreover have "drop_bit ba j * 2 ^ ba + take_bit ba j = j"
    by (simp only: drop_bit_eq_div take_bit_eq_mod div_mult_mod_eq)
  ultimately have "flat_bank am (map_burst am ?l) = j"
    by (simp add: flat_bank_def m AddrMap_InrD(2) [OF assms(1,2)] e)
  then show ?thesis
    using high [of 0] high [of co] high [of "co + ro"] by (simp add: m B add.assoc)
qed

definition TINY_pim :: addr_map where
  "TINY_pim = \<lparr>am_geom = TINY, am_scheme = ''pim-friendly'',
     am_fields = [(Fba, 1), (Fbg, 1), (Fco, 3), (Fro, 4), (Fch, 1)], am_total_bits = 10\<rparr>"

lemma TINY_pim: "AddrMap TINY ''pim-friendly'' = Inr TINY_pim"
  by code_simp

theorem pim_friendly_stripe_witness:
  "flat_bank TINY_pim (map_burst TINY_pim (33 * 4 + 3)) = 3"
proof -
  have "banks_per_channel TINY = 4" by code_simp
  then show ?thesis using pim_friendly_stripe [OF TINY_valid TINY_pim, of 33 3] by simp
qed

text \<open>The frame of the pim-aware allocator is \<^emph>\<open>not\<close> one row index across every bank of every channel
  under the pim-friendly map: there the \<open>k\<close>-th aligned run of \<open>frame_bursts\<close> bursts stays inside one
  channel and sweeps \<open>channels\<close> consecutive rows of it (for geometries with at least as many rows
  as channels), so the row of a block is not its number divided by the blocks per frame.\<close>

theorem pim_friendly_frame_is_not_one_row:
  assumes "valid_geometry g" and "AddrMap g ''pim-friendly'' = Inr am"
    and "channels g \<le> rows_per_bank g" and "0 \<le> k" and "k < rows_per_bank g"
    and "l \<in> {k * frame_bursts g ..< (k + 1) * frame_bursts g}"
  shows "map_burst am l Fch = k * channels g div rows_per_bank g
    \<and> map_burst am l Fro = (l div (banks_per_channel g * cols_per_row g)) mod rows_per_bank g
    \<and> map_burst am l Fro div channels g = k mod (rows_per_bank g div channels g)"
proof -
  from pim_friendly_fields [OF assms(1,2)] obtain ba bg co ro ch where
    e: "banks_per_group g = 2 ^ ba" "bank_groups g = 2 ^ bg" "cols_per_row g = 2 ^ co"
      "rows_per_bank g = 2 ^ ro" "channels g = 2 ^ ch"
    and m: "\<And>l. map_burst am l Fro = take_bit ro (drop_bit (ba + bg + co) l)"
      "\<And>l. map_burst am l Fch = take_bit ch (drop_bit (ba + bg + co + ro) l)"
    by metis
  define R where "R = l div 2 ^ (ba + bg + co)"
  have F: "frame_bursts g = 2 ^ ch * 2 ^ (ba + bg + co)"
    by (simp add: frame_bursts_def banks_per_channel_def e power_add ac_simps)
  have chro: "ch \<le> ro" using assms(3) e by simp
  then obtain d where ro: "ro = ch + d" using le_Suc_ex by blast
  have "l div frame_bursts g = k"
    using assms(6) by (intro int_div_pos_eq [of l _ k "l - k * frame_bursts g"]) (auto simp: algebra_simps)
  then have Rk: "R div 2 ^ ch = k"
    by (simp add: F R_def mult.commute [of "2 ^ ch"] div_mult2_eq [symmetric] zdiv_zmult2_eq)
  have k: "0 \<le> k" "k < 2 ^ ch * 2 ^ d" using assms(4,5) e ro by (simp_all add: power_add)
  have ch_eq: "map_burst am l Fch = k div 2 ^ d"
  proof -
    have "drop_bit (ba + bg + co + ro) l = R div 2 ^ ro"
      by (simp add: R_def drop_bit_eq_div power_add [of _ "ba + bg + co"] zdiv_zmult2_eq)
    also have "\<dots> = k div 2 ^ d" by (simp add: ro power_add zdiv_zmult2_eq Rk)
    finally have "drop_bit (ba + bg + co + ro) l = k div 2 ^ d" .
    moreover have "0 \<le> k div 2 ^ d" and "k div 2 ^ d < 2 ^ ch"
      using k by (simp_all add: pos_imp_zdiv_nonneg_iff int_div_less)
    ultimately show ?thesis by (simp add: m take_bit_int_eq_self)
  qed
  have row: "map_burst am l Fro = R mod 2 ^ ro"
    by (simp add: m R_def drop_bit_eq_div take_bit_eq_mod)
  have "R mod 2 ^ ro div 2 ^ ch = k mod 2 ^ d"
    using mod_mult2_eq' [of R "2 ^ ch" "2 ^ d"] Rk by (simp add: ro power_add zmod_zmult2_eq)
  then show ?thesis
    using ch_eq row by (simp add: e ro power_add R_def banks_per_channel_def zdiv_zmult2_eq ac_simps)
qed

theorem pim_friendly_frame_is_not_one_row_witness:
  "map_burst TINY_pim 64 Fro = 2 \<and> map_burst TINY_pim 96 Fro = 3 \<and> map_burst TINY_pim 127 Fch = 0"
proof -
  have i: "frame_bursts TINY = 64" "channels TINY = 2" "rows_per_bank TINY = 16"
      "banks_per_channel TINY * cols_per_row TINY = 32" by code_simp+
  note row = pim_friendly_frame_is_not_one_row [OF TINY_valid TINY_pim, of 1]
  show ?thesis using row [of 64] row [of 96] row [of 127] i by simp
qed

end
