(* ===== verification/Kv_Base.thy ===== *)
theory Kv_Base
  imports Prelude
begin

text \<open>
  The bookkeeping base class of the allocators (\<open>KVAllocator\<close> in \<open>pimkv/allocator.py\<close>): block tables,
  reference counts and the conservation counters. A placement policy is the table of its overridden
  hooks (\<open>_alloc_one\<close>, \<open>_free_one\<close>, \<open>num_free\<close>) over its own state, so the inherited methods are
  functions of that table, as the class's methods are of \<open>self\<close>. Methods are programs over the object:
  a raised exception keeps the mutations made before it.
\<close>

section \<open>State and hooks\<close>

text \<open>Who an allocation is for: a sequence, or the shared scratch domain of \<open>PimAware\<close>.\<close>

datatype akey = Seq int | Scratch

record 'p policy_ops =
  alloc_one :: "akey \<Rightarrow> ('p, nat) prog"
  free_one :: "nat \<Rightarrow> ('p, unit) prog"
  policy_free :: "'p \<Rightarrow> int"

record 'p kv =
  num_blocks :: nat
  tables :: "(int, nat list) dict"
  refcount :: "(nat, int) dict"
  allocated_total :: int
  freed_total :: int
  cow_copies :: int
  policy :: 'p

definition kv_init :: "nat \<Rightarrow> 'p \<Rightarrow> 'p kv" where
  "kv_init n p = \<lparr>num_blocks = n, tables = [], refcount = [], allocated_total = 0, freed_total = 0,
     cow_copies = 0, policy = p\<rparr>"

definition num_free :: "'p policy_ops \<Rightarrow> 'p kv \<Rightarrow> int" where
  "num_free P s = policy_free P (policy s)"

definition num_live :: "'p kv \<Rightarrow> int" where
  "num_live s = int (length (refcount s))"

definition on_policy :: "('p, 'a) prog \<Rightarrow> ('p kv, 'a) prog" where
  [prog_simps]: "on_policy m = (\<lambda>s. let (r, p) = m (policy s) in (r, s\<lparr>policy := p\<rparr>))"

section \<open>Reference-counted primitives\<close>

definition alloc :: "'p policy_ops \<Rightarrow> akey \<Rightarrow> ('p kv, nat) prog" where
  "alloc P k =
     bindS (on_policy (alloc_one P k)) (\<lambda>b.
     thenS (modifyS (\<lambda>s. s\<lparr>refcount := AList.update b 1 (refcount s),
                          allocated_total := allocated_total s + 1\<rparr>))
     (ret b))"

definition unref :: "'p policy_ops \<Rightarrow> nat \<Rightarrow> ('p kv, unit) prog" where
  "unref P block =
     bindS (dget block refcount) (\<lambda>rc0.
       let rc = rc0 - 1 in
       if rc = 0 then
         thenS (modifyS (\<lambda>s. s\<lparr>refcount := AList.delete block (refcount s)\<rparr>))
         (thenS (on_policy (free_one P block))
         (modifyS (\<lambda>s. s\<lparr>freed_total := freed_total s + 1\<rparr>)))
       else modifyS (\<lambda>s. s\<lparr>refcount := AList.update block rc (refcount s)\<rparr>))"

text \<open>\<open>self.refcount[b] += 1\<close>.\<close>

definition incref :: "nat \<Rightarrow> ('p kv, unit) prog" where
  "incref b = bindS (dget b refcount) (\<lambda>rc.
     modifyS (\<lambda>s. s\<lparr>refcount := AList.update b (rc + 1) (refcount s)\<rparr>))"

definition set_table :: "int \<Rightarrow> nat list \<Rightarrow> ('p kv, unit) prog" where
  [prog_simps]: "set_table sid bs = modifyS (\<lambda>s. s\<lparr>tables := AList.update sid bs (tables s)\<rparr>)"

section \<open>Sequence-level interface\<close>

definition admit :: "'p policy_ops \<Rightarrow> int \<Rightarrow> int \<Rightarrow> int \<Rightarrow> ('p kv, nat list) prog" where
  "admit P sid n_prompt_blocks n_total_blocks =
     thenS (assertS (\<lambda>s. map_of (tables s) sid = None) ValueError)
     (thenS (assertS (\<lambda>s. \<not> num_free P s < n_prompt_blocks) AdmissionFailure)
     (bindS (repeatS n_prompt_blocks (alloc P (Seq sid))) (\<lambda>blocks.
     (thenS (set_table sid blocks) (ret blocks)))))"

definition admit_shared ::
  "'p policy_ops \<Rightarrow> int \<Rightarrow> nat list \<Rightarrow> int \<Rightarrow> int \<Rightarrow> ('p kv, nat list) prog" where
  "admit_shared P sid shared n_new n_total_blocks =
     thenS (assertS (\<lambda>s. map_of (tables s) sid = None) ValueError)
     (thenS (assertS (\<lambda>s. \<not> num_free P s < n_new) AdmissionFailure)
     (thenS (eachS incref shared)
     (bindS (repeatS n_new (alloc P (Seq sid))) (\<lambda>new.
     (thenS (set_table sid (shared @ new)) (ret (shared @ new)))))))"

definition append_block :: "'p policy_ops \<Rightarrow> int \<Rightarrow> ('p kv, nat) prog" where
  "append_block P sid =
     thenS (assertS (\<lambda>s. \<not> num_free P s < 1) AdmissionFailure)
     (bindS (alloc P (Seq sid)) (\<lambda>b.
     bindS (dget sid tables) (\<lambda>t.
     thenS (set_table sid (t @ [b])) (ret b))))"

definition fork :: "int \<Rightarrow> int \<Rightarrow> ('p kv, unit) prog" where
  "fork parent_id child_id =
     bindS (dget parent_id tables) (\<lambda>table.
     thenS (eachS incref table) (set_table child_id table))"

text \<open>The body of \<open>alloc_scratch\<close>, for the sequence itself or for \<open>PimAware.SCRATCH_KEY\<close>.\<close>

definition alloc_scratch_as :: "'p policy_ops \<Rightarrow> akey \<Rightarrow> int \<Rightarrow> ('p kv, nat list) prog" where
  "alloc_scratch_as P k n =
     thenS (assertS (\<lambda>s. \<not> num_free P s < n) AdmissionFailure)
     (repeatS n (alloc P k))"

definition alloc_scratch :: "'p policy_ops \<Rightarrow> int \<Rightarrow> int \<Rightarrow> ('p kv, nat list) prog" where
  "alloc_scratch P sid n = alloc_scratch_as P (Seq sid) n"

definition unref_blocks :: "'p policy_ops \<Rightarrow> nat list \<Rightarrow> ('p kv, unit) prog" where
  "unref_blocks P blocks = eachS (unref P) blocks"

text \<open>
  \<open>chosen\<close> is one of the \<open>branches\<close> objects, compared by identity (\<open>br is not chosen\<close>): it is given by
  its position. The table is popped before the popped block is unreferenced.
\<close>

definition spec_round_adopt_with ::
  "(nat list \<Rightarrow> ('p kv, unit) prog) \<Rightarrow> 'p policy_ops \<Rightarrow> int \<Rightarrow> bool \<Rightarrow> nat \<Rightarrow> int \<Rightarrow> nat list list
     \<Rightarrow> ('p kv, unit) prog" where
  "spec_round_adopt_with unref_all P sid replace_tail w keep branches =
     (if length branches \<le> w then raise IndexError else
      let chosen = branches ! w in
      bindS (dget sid tables) (\<lambda>t.
      thenS (if replace_tail then
               (if t = [] then raise IndexError else
                thenS (set_table sid (butlast t))
                (thenS (unref P (last t))
                (modifyS (\<lambda>s. s\<lparr>cow_copies := cow_copies s + 1\<rparr>))))
             else ret ())
      (thenS (set_table sid ((if replace_tail then butlast t else t) @ slice_to keep chosen))
      (thenS (unref_all (slice_from keep chosen))
      (eachS unref_all (others w branches))))))"

definition spec_round_adopt ::
  "'p policy_ops \<Rightarrow> int \<Rightarrow> bool \<Rightarrow> nat \<Rightarrow> int \<Rightarrow> nat list list \<Rightarrow> ('p kv, unit) prog" where
  "spec_round_adopt P = spec_round_adopt_with (unref_blocks P) P"

definition release :: "'p policy_ops \<Rightarrow> int \<Rightarrow> ('p kv, unit) prog" where
  "release P sid =
     bindS (dget sid tables) (\<lambda>t.
     thenS (modifyS (\<lambda>s. s\<lparr>tables := AList.delete sid (tables s)\<rparr>))
     (eachS (unref P) t))"

definition get_table :: "int \<Rightarrow> ('p kv, nat list) prog" where
  "get_table sid = dget sid tables"

definition assert_conservation :: "'p policy_ops \<Rightarrow> ('p kv, unit) prog" where
  "assert_conservation P =
     thenS (assertS (\<lambda>s. allocated_total s - freed_total s = num_live s) AssertionError)
     (assertS (\<lambda>s. num_live s + num_free P s = int (num_blocks s)) AssertionError)"

lemmas kv_defs = num_free_def num_live_def alloc_def unref_def incref_def admit_def admit_shared_def
  append_block_def fork_def alloc_scratch_def alloc_scratch_as_def unref_blocks_def spec_round_adopt_def
  spec_round_adopt_with_def release_def get_table_def assert_conservation_def kv_init_def

section \<open>Well-formed allocator states\<close>

text \<open>
  \<open>R\<close> is the multiset of all references to blocks: the occurrences in block tables and the references
  that callers hold outside any table (\<open>H\<close> in \<open>kv_inv\<close>, the speculative branch tails). Reference counts
  are exact, the policy's free blocks \<open>F\<close> are exactly the unreferenced ones, and the counters differ by
  the number of live blocks. \<open>I\<close> is the policy's own invariant.
\<close>

definition rc_inv :: "('p \<Rightarrow> nat set) \<Rightarrow> (nat \<Rightarrow> 'p \<Rightarrow> bool) \<Rightarrow> nat multiset \<Rightarrow> 'p kv \<Rightarrow> bool" where
  "rc_inv F I R s \<longleftrightarrow>
     I (num_blocks s) (policy s)
     \<and> dict_ok (refcount s)
     \<and> (\<forall>b. map_of (refcount s) b = (if b \<in># R then Some (int (count R b)) else None))
     \<and> set_mset R \<subseteq> {..<num_blocks s}
     \<and> F (policy s) = {..<num_blocks s} - set_mset R
     \<and> allocated_total s - freed_total s = int (length (refcount s))"

definition table_refs :: "'p kv \<Rightarrow> nat multiset" where
  "table_refs s = dsum mset (tables s)"

definition kv_inv :: "('p \<Rightarrow> nat set) \<Rightarrow> (nat \<Rightarrow> 'p \<Rightarrow> bool) \<Rightarrow> nat multiset \<Rightarrow> 'p kv \<Rightarrow> bool" where
  "kv_inv F I H s \<longleftrightarrow> dict_ok (tables s) \<and> rc_inv F I (table_refs s + H) s"

definition same_tables :: "'p kv \<Rightarrow> 'p kv \<Rightarrow> bool" where
  "same_tables s s' \<longleftrightarrow> tables s' = tables s \<and> num_blocks s' = num_blocks s"

lemma same_tables_refl [simp]: "same_tables s s"
  by (simp add: same_tables_def)

lemma same_tables_trans: "same_tables s s' \<Longrightarrow> same_tables s' s'' \<Longrightarrow> same_tables s s''"
  by (simp add: same_tables_def)

lemma rc_invD:
  assumes "rc_inv F I R s"
  shows "I (num_blocks s) (policy s)" "dict_ok (refcount s)"
    "b \<in># R \<Longrightarrow> map_of (refcount s) b = Some (int (count R b))"
    "b \<notin># R \<Longrightarrow> map_of (refcount s) b = None"
    "set_mset R \<subseteq> {..<num_blocks s}" "F (policy s) = {..<num_blocks s} - set_mset R"
    "allocated_total s - freed_total s = int (length (refcount s))"
  using assms by (auto simp: rc_inv_def)

lemma rc_invI:
  assumes "I (num_blocks s) (policy s)" and "dict_ok (refcount s)"
    and "\<And>b. map_of (refcount s) b = (if b \<in># R then Some (int (count R b)) else None)"
    and "set_mset R \<subseteq> {..<num_blocks s}" and "F (policy s) = {..<num_blocks s} - set_mset R"
    and "allocated_total s - freed_total s = int (length (refcount s))"
  shows "rc_inv F I R s"
  using assms by (simp add: rc_inv_def)

lemma rc_inv_tables [simp]: "rc_inv F I R (s\<lparr>tables := t\<rparr>) = rc_inv F I R s"
  by (simp add: rc_inv_def)

lemma rc_inv_cow [simp]: "rc_inv F I R (s\<lparr>cow_copies := c\<rparr>) = rc_inv F I R s"
  by (simp add: rc_inv_def)

lemma table_refs_new:
  "map_of (tables s) sid = None \<Longrightarrow>
     table_refs (s\<lparr>tables := AList.update sid bs (tables s)\<rparr>) = table_refs s + mset bs"
  by (simp add: table_refs_def dsum_update_new)

lemma table_refs_old:
  "dict_ok (tables s) \<Longrightarrow> map_of (tables s) sid = Some t \<Longrightarrow>
     table_refs (s\<lparr>tables := AList.update sid bs (tables s)\<rparr>) + mset t = table_refs s + mset bs"
  by (simp add: table_refs_def dsum_update_old)

lemma table_refs_delete:
  "dict_ok (tables s) \<Longrightarrow> map_of (tables s) sid = Some t \<Longrightarrow>
     table_refs s = table_refs (s\<lparr>tables := AList.delete sid (tables s)\<rparr>) + mset t"
  by (simp add: table_refs_def dsum_delete)

lemma table_refs_same: "same_tables s s' \<Longrightarrow> table_refs s' = table_refs s"
  by (simp add: same_tables_def table_refs_def)

lemma rc_inv_live:
  assumes "rc_inv F I R s"
  shows "length (refcount s) = card (set_mset R)"
proof -
  have "fst ` set (refcount s) = {b. map_of (refcount s) b \<noteq> None}"
    by (auto simp: map_of_eq_None_iff)
  also have "\<dots> = set_mset R"
    using rc_invD(3,4) [OF assms] by (metis (mono_tags, lifting) Collect_cong mem_Collect_eq
        option.distinct(1) set_eqI)
  finally have "card (set_mset R) = card (set (map fst (refcount s)))" by simp
  also have "\<dots> = length (refcount s)"
    using distinct_card [OF rc_invD(2) [OF assms]] by simp
  finally show ?thesis by simp
qed

end
