(* ===== verification/Kv_Policy.thy ===== *)
theory Kv_Policy
  imports Kv_Base
begin

text \<open>
  The interface between the base class and a placement policy, as a locale: what \<open>KVAllocator\<close> needs of
  \<open>_alloc_one\<close>, \<open>_free_one\<close> and \<open>num_free\<close>. Inside it every inherited method is specified once, on each
  branch: its result, the references it adds or drops, and the state it leaves when it raises.
\<close>

section \<open>The policy contract\<close>

locale block_policy =
  fixes P :: "'p policy_ops"
    and F :: "'p \<Rightarrow> nat set"
    and I :: "nat \<Rightarrow> 'p \<Rightarrow> bool"
  assumes policy_free_card: "I n p \<Longrightarrow> policy_free P p = int (card (F p))"
    and alloc_one_law: "I n p \<Longrightarrow> F p \<noteq> {} \<Longrightarrow>
      \<exists>b p'. alloc_one P k p = (Inr b, p') \<and> b \<in> F p \<and> F p' = F p - {b} \<and> I n p'"
    and free_one_law: "I n p \<Longrightarrow> b < n \<Longrightarrow> b \<notin> F p \<Longrightarrow>
      \<exists>p'. free_one P b p = (Inr (), p') \<and> F p' = insert b (F p) \<and> I n p'"
begin

lemma num_free_eq:
  assumes "rc_inv F I R s"
  shows "num_free P s = int (num_blocks s) - int (card (set_mset R))"
proof -
  note d = rc_invD [OF assms]
  have "card ({..<num_blocks s} - set_mset R) = num_blocks s - card (set_mset R)"
    using d(5) by (subst card_Diff_subset) auto
  moreover have "card (set_mset R) \<le> num_blocks s"
    using card_mono [OF _ d(5)] by simp
  ultimately show ?thesis
    using policy_free_card [OF d(1)] d(6) by (simp add: num_free_def)
qed

lemma num_free_nonneg: "rc_inv F I R s \<Longrightarrow> 0 \<le> num_free P s"
  using policy_free_card rc_invD(1) by (fastforce simp: num_free_def)

lemma free_nonempty: "rc_inv F I R s \<Longrightarrow> 0 < num_free P s \<Longrightarrow> F (policy s) \<noteq> {}"
  using policy_free_card rc_invD(1) by (fastforce simp: num_free_def)

lemma alloc_ok:
  assumes "rc_inv F I R s" and "0 < num_free P s"
  obtains b s' where "alloc P k s = (Inr b, s')" and "b \<notin># R" and "b < num_blocks s"
    and "rc_inv F I (add_mset b R) s'" and "same_tables s s'" and "cow_copies s' = cow_copies s"
proof -
  note d = rc_invD [OF assms(1)]
  obtain b p' where b: "alloc_one P k (policy s) = (Inr b, p')" "b \<in> F (policy s)"
      "F p' = F (policy s) - {b}" "I (num_blocks s) p'"
    using alloc_one_law [OF d(1) free_nonempty [OF assms], of k] by blast
  let ?s' = "s\<lparr>policy := p', refcount := AList.update b 1 (refcount s),
    allocated_total := allocated_total s + 1\<rparr>"
  have run: "alloc P k s = (Inr b, ?s')"
    using b(1) by (simp add: alloc_def prog_simps)
  have fresh: "b \<notin># R" "b < num_blocks s" using b(2) d(6) by auto
  have none: "map_of (refcount s) b = None" using d(4) fresh by simp
  have "rc_inv F I (add_mset b R) ?s'"
  proof (rule rc_invI)
    fix c show "map_of (refcount ?s') c
        = (if c \<in># add_mset b R then Some (int (count (add_mset b R) c)) else None)"
      using d(3,4) [of c] fresh by (auto simp: not_in_iff)
  qed (use b d fresh none in \<open>auto simp: length_update_new\<close>)
  then show ?thesis
    using run fresh by (intro that [of b ?s']) (simp_all add: same_tables_def)
qed

text \<open>Running \<open>_alloc\<close> \<open>n\<close> times hands out \<open>n\<close> different blocks, none of them referenced before.\<close>

lemma repeat_alloc_ok:
  assumes "rc_inv F I R s" and "int n \<le> num_free P s"
  obtains bs s' where "repeatN n (alloc P k) s = (Inr bs, s')" and "length bs = n" and "distinct bs"
    and "set bs \<inter> set_mset R = {}" and "set bs \<subseteq> {..<num_blocks s}"
    and "rc_inv F I (R + mset bs) s'" and "same_tables s s'" and "cow_copies s' = cow_copies s"
proof -
  have "\<exists>bs s'. repeatN n (alloc P k) s = (Inr bs, s') \<and> length bs = n \<and> distinct bs
      \<and> set bs \<inter> set_mset R = {} \<and> set bs \<subseteq> {..<num_blocks s}
      \<and> rc_inv F I (R + mset bs) s' \<and> same_tables s s' \<and> cow_copies s' = cow_copies s"
    using assms
  proof (induction n arbitrary: R s)
    case 0
    then show ?case by (simp add: prog_simps)
  next
    case (Suc n)
    then have "0 < num_free P s" by simp
    with Suc.prems(1) obtain b s1 where s1: "alloc P k s = (Inr b, s1)" "b \<notin># R" "b < num_blocks s"
        "rc_inv F I (add_mset b R) s1" "same_tables s s1" "cow_copies s1 = cow_copies s"
      by (rule alloc_ok)
    have "num_free P s1 = num_free P s - 1"
      using num_free_eq [OF s1(4)] num_free_eq [OF Suc.prems(1)] s1(2,5)
      by (simp add: same_tables_def)
    with Suc.prems have "int n \<le> num_free P s1" by simp
    from Suc.IH [OF s1(4) this] obtain bs s' where
      s': "repeatN n (alloc P k) s1 = (Inr bs, s')" "length bs = n" "distinct bs"
        "set bs \<inter> set_mset (add_mset b R) = {}" "set bs \<subseteq> {..<num_blocks s1}"
        "rc_inv F I (add_mset b R + mset bs) s'" "same_tables s1 s'" "cow_copies s' = cow_copies s1"
      by blast
    have "repeatN (Suc n) (alloc P k) s = (Inr (b # bs), s')"
      using s1(1) s'(1) by (simp add: prog_simps)
    moreover have "R + mset (b # bs) = add_mset b R + mset bs" by simp
    ultimately show ?case
      using s1 s' by (intro exI [of _ "b # bs"] exI [of _ s'])
        (auto simp: same_tables_def simp del: mset.simps)
  qed
  then show ?thesis using that by blast
qed

lemma unref_ok:
  assumes "rc_inv F I R s" and "b \<in># R"
  obtains s' where "unref P b s = (Inr (), s')" and "rc_inv F I (R - {#b#}) s'"
    and "same_tables s s'" and "cow_copies s' = cow_copies s"
proof (cases "count R b = 1")
  case True
  note d = rc_invD [OF assms(1)]
  have some: "map_of (refcount s) b = Some 1" using d(3) [OF assms(2)] True by simp
  have "b < num_blocks s" "b \<notin> F (policy s)" using d(5,6) assms(2) by auto
  then obtain p' where p': "free_one P b (policy s) = (Inr (), p')"
      "F p' = insert b (F (policy s))" "I (num_blocks s) p'"
    using free_one_law [OF d(1)] by blast
  let ?s' = "s\<lparr>refcount := AList.delete b (refcount s), policy := p', freed_total := freed_total s + 1\<rparr>"
  have run: "unref P b s = (Inr (), ?s')"
    using some p'(1) by (simp add: unref_def prog_simps)
  have gone: "c \<in># R - {#b#} \<longleftrightarrow> c \<in># R \<and> c \<noteq> b" for c
    using True by (cases "c = b") (simp_all add: in_diff_count not_in_iff)
  have len: "Suc (length (AList.delete b (refcount s))) = length (refcount s)"
    using d(2) some by (rule length_delete)
  have "rc_inv F I (R - {#b#}) ?s'"
  proof (rule rc_invI)
    fix c show "map_of (refcount ?s') c = (if c \<in># R - {#b#} then Some (int (count (R - {#b#}) c)) else None)"
      using d(3,4) [of c] gone [of c] by (cases "c = b") auto
    show "set_mset (R - {#b#}) \<subseteq> {..<num_blocks ?s'}" using d(5) gone by auto
    show "F (policy ?s') = {..<num_blocks ?s'} - set_mset (R - {#b#})"
      using p'(2) d(6) gone \<open>b < num_blocks s\<close> by auto
  qed (use d p' len in auto)
  then show ?thesis
    using run by (intro that [of ?s']) (simp_all add: same_tables_def)
next
  case False
  note d = rc_invD [OF assms(1)]
  from assms(2) have "0 < count R b" by simp
  with False have c: "2 \<le> count R b" by linarith
  have some: "map_of (refcount s) b = Some (int (count R b))" using d(3) [OF assms(2)] .
  let ?s' = "s\<lparr>refcount := AList.update b (int (count R b) - 1) (refcount s)\<rparr>"
  have run: "unref P b s = (Inr (), ?s')"
    using some c by (simp add: unref_def prog_simps)
  have same: "c \<in># R - {#b#} \<longleftrightarrow> c \<in># R" for c
    using c assms(2) by (cases "c = b") (simp_all add: in_diff_count in_diff_count)
  have "rc_inv F I (R - {#b#}) ?s'"
  proof (rule rc_invI)
    fix x show "map_of (refcount ?s') x = (if x \<in># R - {#b#} then Some (int (count (R - {#b#}) x)) else None)"
      using d(3,4) [of x] same [of x] c assms(2) by (cases "x = b") auto
  qed (use d same length_update_old [OF some] in auto)
  then show ?thesis
    using run by (intro that [of ?s']) (simp_all add: same_tables_def)
qed

lemma unref_blocks_ok:
  assumes "rc_inv F I R s" and "mset bs \<subseteq># R"
  obtains s' where "unref_blocks P bs s = (Inr (), s')" and "rc_inv F I (R - mset bs) s'"
    and "same_tables s s'" and "cow_copies s' = cow_copies s"
proof -
  have "\<exists>s'. unref_blocks P bs s = (Inr (), s') \<and> rc_inv F I (R - mset bs) s'
      \<and> same_tables s s' \<and> cow_copies s' = cow_copies s"
    using assms
  proof (induction bs arbitrary: R s)
    case Nil
    then show ?case by (simp add: unref_blocks_def prog_simps)
  next
    case (Cons b bs)
    have "b \<in># R" using Cons.prems(2) by (simp add: insert_subset_eq_iff)
    with Cons.prems(1) obtain s1 where s1: "unref P b s = (Inr (), s1)" "rc_inv F I (R - {#b#}) s1"
        "same_tables s s1" "cow_copies s1 = cow_copies s"
      by (rule unref_ok)
    have "mset bs \<subseteq># R - {#b#}"
      using Cons.prems(2) by (simp add: insert_subset_eq_iff)
    from Cons.IH [OF s1(2) this] s1 show ?case
      by (auto simp: unref_blocks_def prog_simps same_tables_def)
  qed
  then show ?thesis using that by blast
qed

lemma incref_ok:
  assumes "rc_inv F I R s" and "b \<in># R"
  shows "incref b s = (Inr (), s\<lparr>refcount := AList.update b (int (count R b) + 1) (refcount s)\<rparr>)"
    and "rc_inv F I (add_mset b R) (s\<lparr>refcount := AList.update b (int (count R b) + 1) (refcount s)\<rparr>)"
proof -
  note d = rc_invD [OF assms(1)]
  have some: "map_of (refcount s) b = Some (int (count R b))" using d(3) [OF assms(2)] .
  then show "incref b s = (Inr (), s\<lparr>refcount := AList.update b (int (count R b) + 1) (refcount s)\<rparr>)"
    by (simp add: incref_def prog_simps)
  show "rc_inv F I (add_mset b R) (s\<lparr>refcount := AList.update b (int (count R b) + 1) (refcount s)\<rparr>)"
  proof (rule rc_invI)
    let ?s' = "s\<lparr>refcount := AList.update b (int (count R b) + 1) (refcount s)\<rparr>"
    fix x show "map_of (refcount ?s') x = (if x \<in># add_mset b R then Some (int (count (add_mset b R) x)) else None)"
      using d(3,4) [of x] assms(2) by auto
  qed (use d assms(2) length_update_old [OF some] in auto)
qed

lemma each_incref_ok:
  assumes "rc_inv F I R s" and "set bs \<subseteq> set_mset R"
  obtains s' where "eachS incref bs s = (Inr (), s')" and "rc_inv F I (R + mset bs) s'"
    and "same_tables s s'" and "cow_copies s' = cow_copies s" and "policy s' = policy s"
proof -
  have "\<exists>s'. eachS incref bs s = (Inr (), s') \<and> rc_inv F I (R + mset bs) s'
      \<and> same_tables s s' \<and> cow_copies s' = cow_copies s \<and> policy s' = policy s"
    using assms
  proof (induction bs arbitrary: R s)
    case Nil
    then show ?case by (simp add: prog_simps)
  next
    case (Cons b bs)
    let ?s1 = "s\<lparr>refcount := AList.update b (int (count R b) + 1) (refcount s)\<rparr>"
    have b: "b \<in># R" using Cons.prems by simp
    note i = incref_ok [OF Cons.prems(1) b]
    have "set bs \<subseteq> set_mset (add_mset b R)" using Cons.prems by auto
    from Cons.IH [OF i(2) this] obtain s' where
      "eachS incref bs ?s1 = (Inr (), s')" "rc_inv F I (add_mset b R + mset bs) s'"
      "same_tables ?s1 s'" "cow_copies s' = cow_copies ?s1" "policy s' = policy ?s1"
      by blast
    with i(1) show ?case by (simp add: prog_simps same_tables_def)
  qed
  then show ?thesis using that by blast
qed

text \<open>The same facts over states with their tables, for the sequence-level methods.\<close>

lemma kv_invD: "kv_inv F I H s \<Longrightarrow> dict_ok (tables s)" "kv_inv F I H s \<Longrightarrow> rc_inv F I (table_refs s + H) s"
  by (simp_all add: kv_inv_def)

lemma kv_num_free:
  "kv_inv F I H s \<Longrightarrow> num_free P s = int (num_blocks s) - int (card (set_mset (table_refs s + H)))"
  by (rule num_free_eq [OF kv_invD(2)])

lemma kv_inv_add_table:
  assumes "rc_inv F I (table_refs s + H + mset bs) s'" and "same_tables s s'" and "dict_ok (tables s)"
    and "map_of (tables s) sid = None"
  shows "kv_inv F I H (s'\<lparr>tables := AList.update sid bs (tables s')\<rparr>)"
proof -
  have "map_of (tables s') sid = None" using assms(2,4) by (simp add: same_tables_def)
  then have "table_refs (s'\<lparr>tables := AList.update sid bs (tables s')\<rparr>) + H = table_refs s + H + mset bs"
    using assms(2) by (simp add: table_refs_new table_refs_same [OF assms(2)] ac_simps)
  then show ?thesis
    using assms(1,2,3) unfolding kv_inv_def by (simp only: same_tables_def) simp
qed

lemma admit_spec:
  assumes "kv_inv F I H s"
  shows "case admit P sid n t s of
      (Inl e, s') \<Rightarrow> s' = s \<and> (if map_of (tables s) sid \<noteq> None then e = ValueError
                             else e = AdmissionFailure \<and> num_free P s < n)
    | (Inr bs, s') \<Rightarrow> map_of (tables s) sid = None \<and> n \<le> num_free P s \<and> length bs = nat n \<and> distinct bs
        \<and> set bs \<inter> set_mset (table_refs s + H) = {} \<and> tables s' = AList.update sid bs (tables s)
        \<and> num_blocks s' = num_blocks s \<and> kv_inv F I H s'"
proof (cases "map_of (tables s) sid = None \<and> n \<le> num_free P s")
  case False
  then show ?thesis by (auto simp: admit_def prog_simps)
next
  case True
  note d = kv_invD [OF assms]
  from True num_free_nonneg [OF d(2)] have "int (nat n) \<le> num_free P s" by linarith
  with d(2) obtain bs s1 where s1: "repeatN (nat n) (alloc P (Seq sid)) s = (Inr bs, s1)"
      "length bs = nat n" "distinct bs" "set bs \<inter> set_mset (table_refs s + H) = {}"
      "set bs \<subseteq> {..<num_blocks s}" "rc_inv F I (table_refs s + H + mset bs) s1" "same_tables s s1"
      "cow_copies s1 = cow_copies s"
    by (rule repeat_alloc_ok)
  let ?s' = "s1\<lparr>tables := AList.update sid bs (tables s1)\<rparr>"
  have "admit P sid n t s = (Inr bs, ?s')"
    using True s1(1) by (simp add: admit_def prog_simps not_less)
  moreover have "kv_inv F I H ?s'"
    using s1(6,7) d(1) True by (intro kv_inv_add_table) auto
  ultimately show ?thesis
    using True s1 by (simp add: same_tables_def)
qed

lemma admit_shared_spec:
  assumes "kv_inv F I H s" and "set shared \<subseteq> set_mset (table_refs s + H)"
  shows "case admit_shared P sid shared n t s of
      (Inl e, s') \<Rightarrow> s' = s \<and> (if map_of (tables s) sid \<noteq> None then e = ValueError
                             else e = AdmissionFailure \<and> num_free P s < n)
    | (Inr bs, s') \<Rightarrow> map_of (tables s) sid = None \<and> n \<le> num_free P s
        \<and> (\<exists>new. bs = shared @ new \<and> length new = nat n \<and> distinct new
               \<and> set new \<inter> set_mset (table_refs s + H) = {})
        \<and> tables s' = AList.update sid bs (tables s)
        \<and> num_blocks s' = num_blocks s \<and> kv_inv F I H s'"
proof (cases "map_of (tables s) sid = None \<and> n \<le> num_free P s")
  case False
  then show ?thesis by (auto simp: admit_shared_def prog_simps)
next
  case True
  note d = kv_invD [OF assms(1)]
  let ?R = "table_refs s + H"
  from d(2) assms(2) obtain s1 where s1: "eachS incref shared s = (Inr (), s1)"
      "rc_inv F I (?R + mset shared) s1" "same_tables s s1" "policy s1 = policy s"
    by (rule each_incref_ok)
  from True num_free_nonneg [OF d(2)] have "int (nat n) \<le> num_free P s1"
    using s1(4) by (simp add: num_free_def)
  with s1(2) obtain new s2 where s2: "repeatN (nat n) (alloc P (Seq sid)) s1 = (Inr new, s2)"
      "length new = nat n" "distinct new" "set new \<inter> set_mset (?R + mset shared) = {}"
      "set new \<subseteq> {..<num_blocks s1}" "rc_inv F I (?R + mset shared + mset new) s2"
      "same_tables s1 s2" "cow_copies s2 = cow_copies s1"
    by (rule repeat_alloc_ok)
  let ?s' = "s2\<lparr>tables := AList.update sid (shared @ new) (tables s2)\<rparr>"
  have "admit_shared P sid shared n t s = (Inr (shared @ new), ?s')"
    using True s1(1) s2(1) by (simp add: admit_shared_def prog_simps not_less)
  moreover have "kv_inv F I H ?s'"
    using s2(6) same_tables_trans [OF s1(3) s2(7)] d(1) True
    by (intro kv_inv_add_table [of s]) (auto simp: add.assoc)
  ultimately show ?thesis
    using True s1 s2 by (auto simp: same_tables_def)
qed

lemma append_block_spec:
  assumes "kv_inv F I H s" and "map_of (tables s) sid = Some tab"
  shows "case append_block P sid s of
      (Inl e, s') \<Rightarrow> s' = s \<and> e = AdmissionFailure \<and> num_free P s = 0
    | (Inr b, s') \<Rightarrow> 0 < num_free P s \<and> b \<notin># table_refs s + H
        \<and> tables s' = AList.update sid (tab @ [b]) (tables s)
        \<and> num_blocks s' = num_blocks s \<and> kv_inv F I H s'"
proof (cases "0 < num_free P s")
  case False
  then show ?thesis
    using num_free_nonneg [OF kv_invD(2) [OF assms(1)]] by (simp add: append_block_def prog_simps)
next
  case True
  note d = kv_invD [OF assms(1)]
  from d(2) True obtain b s1 where s1: "alloc P (Seq sid) s = (Inr b, s1)" "b \<notin># table_refs s + H"
      "b < num_blocks s" "rc_inv F I (add_mset b (table_refs s + H)) s1" "same_tables s s1"
      "cow_copies s1 = cow_copies s"
    by (rule alloc_ok)
  let ?s' = "s1\<lparr>tables := AList.update sid (tab @ [b]) (tables s1)\<rparr>"
  have tab: "map_of (tables s1) sid = Some tab" and ok: "dict_ok (tables s1)"
    using s1(5) assms(2) d(1) by (simp_all add: same_tables_def)
  have "append_block P sid s = (Inr b, ?s')"
    using True s1(1) tab by (simp add: append_block_def prog_simps)
  moreover have "table_refs ?s' = add_mset b (table_refs s)"
    using table_refs_old [OF ok tab, of "tab @ [b]"] table_refs_same [OF s1(5)] by simp
  then have "kv_inv F I H ?s'"
    using s1(4) ok by (simp add: kv_inv_def)
  ultimately show ?thesis
    using True s1 by (simp add: same_tables_def)
qed

lemma fork_spec:
  assumes "kv_inv F I H s" and "map_of (tables s) child = None"
  shows "case fork parent child s of
      (Inl e, s') \<Rightarrow> s' = s \<and> e = KeyError \<and> map_of (tables s) parent = None
    | (Inr _, s') \<Rightarrow> (\<exists>tab. map_of (tables s) parent = Some tab
        \<and> tables s' = AList.update child tab (tables s)) \<and> policy s' = policy s
        \<and> num_blocks s' = num_blocks s \<and> kv_inv F I H s'"
proof (cases "map_of (tables s) parent")
  case None
  then show ?thesis by (simp add: fork_def prog_simps)
next
  case (Some tab)
  note d = kv_invD [OF assms(1)]
  have "mset tab \<subseteq># table_refs s"
    using table_refs_delete [OF d(1) Some] by simp
  then have "set tab \<subseteq> set_mset (table_refs s + H)"
    by (auto dest: mset_subset_eqD)
  with d(2) obtain s1 where s1: "eachS incref tab s = (Inr (), s1)"
      "rc_inv F I (table_refs s + H + mset tab) s1" "same_tables s s1" "policy s1 = policy s"
    by (rule each_incref_ok)
  let ?s' = "s1\<lparr>tables := AList.update child tab (tables s1)\<rparr>"
  have "fork parent child s = (Inr (), ?s')"
    using Some s1(1) by (simp add: fork_def prog_simps)
  moreover have "kv_inv F I H ?s'"
    using s1(2,3) d(1) assms(2) by (rule kv_inv_add_table)
  ultimately show ?thesis
    using Some s1 by (simp add: same_tables_def)
qed

lemma alloc_scratch_as_spec:
  assumes "kv_inv F I H s"
  shows "case alloc_scratch_as P k n s of
      (Inl e, s') \<Rightarrow> s' = s \<and> e = AdmissionFailure \<and> num_free P s < n
    | (Inr bs, s') \<Rightarrow> n \<le> num_free P s \<and> length bs = nat n \<and> distinct bs
        \<and> set bs \<inter> set_mset (table_refs s + H) = {} \<and> same_tables s s' \<and> kv_inv F I (H + mset bs) s'"
proof (cases "n \<le> num_free P s")
  case False
  then show ?thesis by (auto simp: alloc_scratch_as_def prog_simps)
next
  case True
  note d = kv_invD [OF assms]
  from True num_free_nonneg [OF d(2)] have "int (nat n) \<le> num_free P s" by linarith
  with d(2) obtain bs s1 where s1: "repeatN (nat n) (alloc P k) s = (Inr bs, s1)"
      "length bs = nat n" "distinct bs" "set bs \<inter> set_mset (table_refs s + H) = {}"
      "set bs \<subseteq> {..<num_blocks s}" "rc_inv F I (table_refs s + H + mset bs) s1" "same_tables s s1"
      "cow_copies s1 = cow_copies s"
    by (rule repeat_alloc_ok)
  have "alloc_scratch_as P k n s = (Inr bs, s1)"
    using True s1(1) by (simp add: alloc_scratch_as_def prog_simps not_less)
  moreover have "kv_inv F I (H + mset bs) s1"
    using s1(6,7) d(1) table_refs_same [OF s1(7)]
    by (simp add: kv_inv_def same_tables_def add.assoc)
  ultimately show ?thesis using True s1 by simp
qed

lemma unref_held_spec:
  assumes "kv_inv F I H s" and "mset bs \<subseteq># H"
  obtains s' where "unref_blocks P bs s = (Inr (), s')" and "same_tables s s'"
    and "kv_inv F I (H - mset bs) s'" and "cow_copies s' = cow_copies s"
proof -
  note d = kv_invD [OF assms(1)]
  have "mset bs \<subseteq># table_refs s + H"
    using assms(2) by (simp add: subset_mset.add_increasing)
  with d(2) obtain s' where s': "unref_blocks P bs s = (Inr (), s')"
      "rc_inv F I (table_refs s + H - mset bs) s'" "same_tables s s'" "cow_copies s' = cow_copies s"
    by (rule unref_blocks_ok)
  moreover have "kv_inv F I (H - mset bs) s'"
    using s' d(1) table_refs_same [OF s'(3)] assms(2)
    by (simp add: kv_inv_def same_tables_def)
  ultimately show ?thesis by (intro that)
qed

lemma release_spec:
  assumes "kv_inv F I H s"
  shows "case release P sid s of
      (Inl e, s') \<Rightarrow> s' = s \<and> e = KeyError \<and> map_of (tables s) sid = None
    | (Inr _, s') \<Rightarrow> map_of (tables s) sid \<noteq> None \<and> tables s' = AList.delete sid (tables s)
        \<and> num_blocks s' = num_blocks s \<and> kv_inv F I H s'"
proof (cases "map_of (tables s) sid")
  case None
  then show ?thesis by (simp add: release_def prog_simps)
next
  case (Some tab)
  note d = kv_invD [OF assms]
  let ?s1 = "s\<lparr>tables := AList.delete sid (tables s)\<rparr>"
  note refs = table_refs_delete [OF d(1) Some]
  have "rc_inv F I (table_refs s + H) ?s1" using d(2) by simp
  moreover have "mset tab \<subseteq># table_refs s + H" unfolding refs by simp
  ultimately obtain s' where s': "unref_blocks P tab ?s1 = (Inr (), s')"
      "rc_inv F I (table_refs s + H - mset tab) s'" "same_tables ?s1 s'" "cow_copies s' = cow_copies ?s1"
    by (rule unref_blocks_ok)
  have "release P sid s = (Inr (), s')"
    using Some s'(1) by (simp add: release_def prog_simps unref_blocks_def)
  moreover have "table_refs s + H - mset tab = table_refs s' + H"
    using refs table_refs_same [OF s'(3)] by simp
  then have "kv_inv F I H s'"
    using s' d(1) by (simp add: kv_inv_def same_tables_def)
  ultimately show ?thesis
    using Some s'(3) by (simp add: same_tables_def)
qed

text \<open>Committing one speculative branch: the kept prefix of the chosen branch moves into the table, every
  other held block of the branches loses its reference.\<close>

lemma spec_round_adopt_spec:
  assumes inv: "kv_inv F I H s" and tab: "map_of (tables s) sid = Some tab"
    and w: "w < length branches" and held: "mset (concat branches) \<subseteq># H"
    and tail: "replace_tail \<Longrightarrow> tab \<noteq> []"
  obtains s' where "spec_round_adopt P sid replace_tail w keep branches s = (Inr (), s')"
    and "tables s' = AList.update sid
           ((if replace_tail then butlast tab else tab) @ slice_to keep (branches ! w)) (tables s)"
    and "num_blocks s' = num_blocks s"
    and "kv_inv F I (H - mset (concat branches)) s'"
    and "cow_copies s' = cow_copies s + (if replace_tail then 1 else 0)"
proof -
  note d = kv_invD [OF inv]
  let ?R = "table_refs s + H"
  define base where "base = (if replace_tail then butlast tab else tab)"
  define D where "D = (if replace_tail then {#last tab#} else {#})"
  have D: "mset tab = mset base + D"
    using tail unfolding base_def D_def
    by (cases tab rule: rev_cases) auto
  define prep where "prep = (if replace_tail then
               (if tab = [] then raise IndexError else
                thenS (set_table sid (butlast tab))
                (thenS (unref P (last tab))
                (modifyS (\<lambda>s. s\<lparr>cow_copies := cow_copies s + 1\<rparr>))))
             else ret ())"
  have tab_refs: "table_refs s = table_refs (s\<lparr>tables := AList.delete sid (tables s)\<rparr>) + mset base + D"
    using table_refs_delete [OF d(1) tab] D by (simp add: add.assoc)
  obtain s1 where s1: "prep s = (Inr (), s1)" "rc_inv F I (?R - D) s1"
      "tables s1 = AList.update sid base (tables s) \<or> tables s1 = tables s"
      "num_blocks s1 = num_blocks s"
      "cow_copies s1 = cow_copies s + (if replace_tail then 1 else 0)"
  proof (cases replace_tail)
    case True
    let ?s1 = "s\<lparr>tables := AList.update sid (butlast tab) (tables s)\<rparr>"
    have "rc_inv F I ?R ?s1" using d(2) by simp
    moreover have "last tab \<in># ?R"
      using tab_refs True by (simp add: D_def)
    ultimately obtain s2 where s2: "unref P (last tab) ?s1 = (Inr (), s2)"
        "rc_inv F I (?R - {#last tab#}) s2" "same_tables ?s1 s2" "cow_copies s2 = cow_copies ?s1"
      by (rule unref_ok)
    with True tail show ?thesis
      by (intro that [of "s2\<lparr>cow_copies := cow_copies s2 + 1\<rparr>"])
        (simp_all add: prep_def prog_simps D_def base_def same_tables_def)
  next
    case False
    then show ?thesis
      using d(2) by (intro that [of s]) (simp_all add: prep_def prog_simps D_def)
  qed
  define tab' where "tab' = base @ slice_to keep (branches ! w)"
  define rest where "rest = slice_from keep (branches ! w) @ concat (others w branches)"
  have parts: "mset (concat branches) = mset (slice_to keep (branches ! w)) + mset rest"
    unfolding rest_def mset_concat_others [OF w] by (simp add: add.assoc [symmetric])
  let ?s2 = "s1\<lparr>tables := AList.update sid tab' (tables s1)\<rparr>"
  have "rc_inv F I (?R - D) ?s2" using s1(2) by simp
  moreover have rest: "mset rest \<subseteq># ?R - D"
  proof -
    have "mset rest \<subseteq># H" using held parts by (simp add: subset_mset.add_decreasing) 
        (metis mset_subset_eq_add_right subset_mset.order_trans)
    then show ?thesis
      unfolding tab_refs by (simp add: subset_mset.add_increasing)
  qed
  ultimately obtain s3 where s3: "unref_blocks P rest ?s2 = (Inr (), s3)"
      "rc_inv F I (?R - D - mset rest) s3" "same_tables ?s2 s3" "cow_copies s3 = cow_copies ?s2"
    by (rule unref_blocks_ok)
  have t3: "tables s3 = AList.update sid tab' (tables s)"
    using s3(3) s1(3) by (auto simp: same_tables_def)
  have "spec_round_adopt P sid replace_tail w keep branches s = (Inr (), s3)"
  proof -
    have "thenS (unref_blocks P (slice_from keep (branches ! w)))
        (eachS (unref_blocks P) (others w branches)) ?s2 = (Inr (), s3)"
      using s3(1) by (simp add: unref_blocks_def [abs_def] eachS_concat rest_def eachS_append)
    then show ?thesis
      using w tab s1(1)
      by (simp add: spec_round_adopt_def spec_round_adopt_with_def bindS_def thenS_def dget_def Let_def
          prep_def set_table_def modifyS_def tab'_def base_def)
  qed
  moreover have "kv_inv F I (H - mset (concat branches)) s3"
  proof -
    have "map_of (tables s) sid = Some tab" by (fact tab)
    then have "table_refs s3 + mset tab = table_refs s + mset tab'"
      using table_refs_old [OF d(1) tab, of tab'] t3 by (simp add: table_refs_def)
    then have "table_refs s3 + D = table_refs s + mset (slice_to keep (branches ! w))"
      using D by (simp add: tab'_def)
    moreover obtain H' where H': "H = mset (concat branches) + H'"
      using held by (auto simp: subset_mset.le_iff_add)
    ultimately have "?R = (table_refs s3 + H') + D + mset rest"
      unfolding H' parts by (simp add: ac_simps)
    then have "?R - D - mset rest = table_refs s3 + (H - mset (concat branches))"
      unfolding H' by (simp only: add_diff_cancel_right' add_diff_cancel_left' diff_diff_add [symmetric])
        (simp add: add.commute [of D] add.assoc [symmetric])
    then show ?thesis
      using s3(2) d(1) t3 by (simp add: kv_inv_def)
  qed
  ultimately show ?thesis
    using t3 s1(4,5) s3(3,4)
    by (intro that [of s3]) (simp_all add: tab'_def base_def same_tables_def)
qed

lemma num_free_drop:
  assumes "kv_inv F I H s" and "kv_inv F I H' s'" and "num_blocks s' = num_blocks s"
    and "table_refs s' + H' = table_refs s + H + mset bs"
    and "distinct bs" and "set bs \<inter> set_mset (table_refs s + H) = {}"
  shows "num_free P s' = num_free P s - int (length bs)"
proof -
  have "set_mset (table_refs s' + H') = set_mset (table_refs s + H) \<union> set bs"
    unfolding assms(4) by simp
  then have "card (set_mset (table_refs s' + H')) = card (set_mset (table_refs s + H)) + length bs"
    using assms(5,6) by (simp add: card_Un_disjoint distinct_card Int_commute)
  then show ?thesis
    using kv_num_free [OF assms(1)] kv_num_free [OF assms(2)] assms(3) by simp
qed

lemma num_free_rise:
  assumes "kv_inv F I H s" and "kv_inv F I H' s'" and "num_blocks s' = num_blocks s"
    and "set_mset (table_refs s' + H') \<subseteq> set_mset (table_refs s + H)"
  shows "num_free P s \<le> num_free P s'"
  using kv_num_free [OF assms(1)] kv_num_free [OF assms(2)] assms(3) card_mono [OF _ assms(4)]
  by simp

lemma assert_conservation_ok:
  assumes "kv_inv F I H s"
  shows "assert_conservation P s = (Inr (), s)"
proof -
  note d = kv_invD [OF assms]
  have "num_live s + num_free P s = int (num_blocks s)"
    using kv_num_free [OF assms] rc_inv_live [OF d(2)] by (simp add: num_live_def)
  then show ?thesis
    using rc_invD(7) [OF d(2)] by (simp add: assert_conservation_def prog_simps num_live_def)
qed

end

end
