(* ===== verification/Kv_Interface.thy ===== *)
theory Kv_Interface
  imports Kv_Policy
begin

text \<open>
  The interface between the allocators and the simulator: the method table of an allocator object, the
  contract its methods keep whatever order they are called in, and the relation of all calls a client
  may make. The base class with any lawful placement policy meets the contract.
\<close>

section \<open>Method tables\<close>

text \<open>
  An allocator object's class attributes and methods, as the simulator sees them. Calling a method a
  class does not define is an \<open>AttributeError\<close> (only \<open>ContiguousOracle\<close> has \<open>take_scratch\<close>).
\<close>

record 'p allocator =
  supports_sharing :: bool
  persistent_scratch :: bool
  m_free :: "'p kv \<Rightarrow> int"
  m_admit :: "int \<Rightarrow> int \<Rightarrow> int \<Rightarrow> ('p kv, nat list) prog"
  m_admit_shared :: "int \<Rightarrow> nat list \<Rightarrow> int \<Rightarrow> int \<Rightarrow> ('p kv, nat list) prog"
  m_append :: "int \<Rightarrow> ('p kv, nat) prog"
  m_fork :: "int \<Rightarrow> int \<Rightarrow> ('p kv, unit) prog"
  m_scratch :: "int \<Rightarrow> int \<Rightarrow> ('p kv, nat list) prog"
  m_take :: "int \<Rightarrow> int \<Rightarrow> ('p kv, nat list) prog"
  m_unref :: "nat list \<Rightarrow> ('p kv, unit) prog"
  m_adopt :: "int \<Rightarrow> bool \<Rightarrow> nat \<Rightarrow> int \<Rightarrow> nat list list \<Rightarrow> ('p kv, unit) prog"
  m_release :: "int \<Rightarrow> ('p kv, unit) prog"
  m_check :: "('p kv, unit) prog"

definition base_allocator :: "'p policy_ops \<Rightarrow> 'p allocator" where
  "base_allocator P = \<lparr>supports_sharing = True, persistent_scratch = False, m_free = num_free P,
     m_admit = admit P, m_admit_shared = admit_shared P, m_append = append_block P, m_fork = fork,
     m_scratch = alloc_scratch P, m_take = (\<lambda>_ _. raise AttributeError), m_unref = unref_blocks P,
     m_adopt = spec_round_adopt P, m_release = release P, m_check = assert_conservation P\<rparr>"

section \<open>References held by the client\<close>

text \<open>
  A client holds references outside the block tables: the tails of speculative branches. Each is tagged
  with the sequence it was allocated for.
\<close>

type_synonym holdings = "(int \<times> nat) multiset"

definition tag :: "int \<Rightarrow> nat list \<Rightarrow> holdings" where
  "tag sid bs = image_mset (Pair sid) (mset bs)"

abbreviation held :: "holdings \<Rightarrow> nat multiset" where
  "held H \<equiv> image_mset snd H"

definition refs :: "holdings \<Rightarrow> 'p kv \<Rightarrow> nat multiset" where
  "refs H s = table_refs s + held H"

text \<open>Blocks handed out by one call: pairwise different, inside the pool and referenced by nobody.\<close>

definition fresh :: "nat list \<Rightarrow> holdings \<Rightarrow> 'p kv \<Rightarrow> bool" where
  "fresh bs H s \<longleftrightarrow> distinct bs \<and> (\<forall>b \<in> set bs. b < num_blocks s \<and> b \<notin># refs H s)"

text \<open>Two table dictionaries with the same keys in the same order and tables of the same lengths; a
  compaction renames blocks but keeps this shape.\<close>

definition same_shape :: "(int, nat list) dict \<Rightarrow> (int, nat list) dict \<Rightarrow> bool" where
  "same_shape d d' \<longleftrightarrow> map (\<lambda>(k, t). (k, length t)) d' = map (\<lambda>(k, t). (k, length t)) d"

lemma held_tag [simp]: "held (tag sid bs) = mset bs"
  by (simp add: tag_def image_mset.compositionality comp_def)

lemma tag_Nil [simp]: "tag sid [] = {#}"
  by (simp add: tag_def)

lemma held_diff_tag: "tag sid bs \<subseteq># H \<Longrightarrow> held (H - tag sid bs) = held H - mset bs"
  by (simp add: image_mset_Diff)

lemma held_tag_subset: "tag sid bs \<subseteq># H \<Longrightarrow> mset bs \<subseteq># held H"
  using image_mset_subseteq_mono [of "tag sid bs" H snd] by simp

lemma same_shape_refl [simp]: "same_shape d d"
  by (simp add: same_shape_def)

section \<open>The contract\<close>

locale kv_contract =
  fixes A :: "'p allocator"
    and Inv :: "holdings \<Rightarrow> 'p kv \<Rightarrow> bool"
  assumes check_law: "Inv H s \<Longrightarrow> m_check A s = (Inr (), s)"
    and free_law: "Inv H s \<Longrightarrow> 0 \<le> m_free A s \<and> m_free A s \<le> int (num_blocks s) \<and> dict_ok (tables s)"
    and idle_law: "Inv {#} s \<Longrightarrow> tables s = [] \<Longrightarrow> m_free A s = int (num_blocks s)"
    and admit_law: "Inv H s \<Longrightarrow> 0 \<le> n \<Longrightarrow> n \<le> t \<Longrightarrow> 0 < t \<Longrightarrow> (case m_admit A sid n t s of
        (Inl e, s') \<Rightarrow> e = (if map_of (tables s) sid = None then AdmissionFailure else ValueError)
          \<and> (e = AdmissionFailure \<and> \<not> persistent_scratch A \<longrightarrow> m_free A s < n)
          \<and> same_tables s s' \<and> m_free A s' = m_free A s \<and> Inv H s'
      | (Inr bs, s') \<Rightarrow> map_of (tables s) sid = None \<and> length bs = nat n \<and> fresh bs H s
          \<and> tables s' = AList.update sid bs (tables s) \<and> num_blocks s' = num_blocks s
          \<and> m_free A s' = m_free A s - n \<and> Inv H s')"
    and admit_shared_law: "supports_sharing A \<Longrightarrow> Inv H s \<Longrightarrow> 0 \<le> n \<Longrightarrow>
        set shared \<subseteq> set_mset (table_refs s) \<Longrightarrow> (case m_admit_shared A sid shared n t s of
        (Inl e, s') \<Rightarrow> e = (if map_of (tables s) sid = None then AdmissionFailure else ValueError)
          \<and> (e = AdmissionFailure \<longrightarrow> m_free A s < n)
          \<and> same_tables s s' \<and> m_free A s' = m_free A s \<and> Inv H s'
      | (Inr bs, s') \<Rightarrow> map_of (tables s) sid = None
          \<and> (\<exists>new. bs = shared @ new \<and> length new = nat n \<and> fresh new H s)
          \<and> tables s' = AList.update sid bs (tables s) \<and> num_blocks s' = num_blocks s
          \<and> m_free A s' = m_free A s - n \<and> Inv H s')"
    and append_law: "Inv H s \<Longrightarrow> map_of (tables s) sid = Some tab \<Longrightarrow> (case m_append A sid s of
        (Inl e, s') \<Rightarrow> e = AdmissionFailure \<and> s' = s \<and> (\<not> persistent_scratch A \<longrightarrow> m_free A s = 0)
      | (Inr b, s') \<Rightarrow> fresh [b] H s \<and> tables s' = AList.update sid (tab @ [b]) (tables s)
          \<and> num_blocks s' = num_blocks s \<and> m_free A s' = m_free A s - 1 \<and> Inv H s')"
    and fork_law: "\<not> persistent_scratch A \<Longrightarrow> Inv H s \<Longrightarrow> map_of (tables s) child = None \<Longrightarrow>
        (case m_fork A parent child s of
        (Inl e, s') \<Rightarrow> e = KeyError \<and> s' = s \<and> map_of (tables s) parent = None
      | (Inr _, s') \<Rightarrow> (\<exists>tab. map_of (tables s) parent = Some tab
            \<and> tables s' = AList.update child tab (tables s))
          \<and> num_blocks s' = num_blocks s \<and> m_free A s' = m_free A s \<and> Inv H s')"
    and scratch_law: "\<not> persistent_scratch A \<Longrightarrow> Inv H s \<Longrightarrow> 0 \<le> n \<Longrightarrow> (case m_scratch A sid n s of
        (Inl e, s') \<Rightarrow> e = AdmissionFailure \<and> s' = s \<and> m_free A s < n
      | (Inr bs, s') \<Rightarrow> length bs = nat n \<and> fresh bs H s \<and> same_tables s s'
          \<and> m_free A s' = m_free A s - n \<and> Inv (H + tag sid bs) s')"
    and take_law: "persistent_scratch A \<Longrightarrow> Inv H s \<Longrightarrow> map_of (tables s) sid \<noteq> None \<Longrightarrow> 0 \<le> n \<Longrightarrow>
        (case m_take A sid n s of
        (Inl e, s') \<Rightarrow> e = AdmissionFailure \<and> s' = s
      | (Inr bs, s') \<Rightarrow> length bs = nat n \<and> fresh bs H s \<and> same_tables s s'
          \<and> m_free A s' = m_free A s - n \<and> Inv (H + tag sid bs) s')"
    and unref_law: "\<not> persistent_scratch A \<Longrightarrow> Inv H s \<Longrightarrow> tag sid bs \<subseteq># H \<Longrightarrow>
        \<exists>s'. m_unref A bs s = (Inr (), s') \<and> same_tables s s' \<and> m_free A s \<le> m_free A s'
          \<and> Inv (H - tag sid bs) s'"
    and adopt_law: "\<not> persistent_scratch A \<Longrightarrow> Inv H s \<Longrightarrow> map_of (tables s) sid = Some tab \<Longrightarrow>
        w < length branches \<Longrightarrow> tag sid (concat branches) \<subseteq># H \<Longrightarrow> (replace_tail \<longrightarrow> tab \<noteq> []) \<Longrightarrow>
        \<exists>s'. m_adopt A sid replace_tail w keep branches s = (Inr (), s')
          \<and> tables s' = AList.update sid ((if replace_tail then butlast tab else tab)
                           @ slice_to keep (branches ! w)) (tables s)
          \<and> num_blocks s' = num_blocks s \<and> m_free A s \<le> m_free A s'
          \<and> Inv (H - tag sid (concat branches)) s'"
    and retire_law: "Inv H s \<Longrightarrow> map_of (tables s) sid = Some tab \<Longrightarrow>
        {#x \<in># H. fst x = sid#} = tag sid bs \<Longrightarrow>
        \<exists>s'. thenS (m_unref A bs) (m_release A sid) s = (Inr (), s')
          \<and> same_shape (AList.delete sid (tables s)) (tables s') \<and> num_blocks s' = num_blocks s
          \<and> m_free A s \<le> m_free A s' \<and> Inv (H - tag sid bs) s'"
    and release_law: "\<not> persistent_scratch A \<Longrightarrow> Inv H s \<Longrightarrow> (case m_release A sid s of
        (Inl e, s') \<Rightarrow> e = KeyError \<and> s' = s \<and> map_of (tables s) sid = None
      | (Inr _, s') \<Rightarrow> same_shape (AList.delete sid (tables s)) (tables s')
          \<and> num_blocks s' = num_blocks s \<and> m_free A s \<le> m_free A s' \<and> Inv H s')"
    and range_law: "Inv H s \<Longrightarrow> b \<in># refs H s \<Longrightarrow> b < num_blocks s"

section \<open>All the calls a client may make\<close>

text \<open>
  One method call, successful or raising, on an allocator of method table \<open>A\<close>. The guards are the
  obligations of the caller: an admitted sequence has at least one block in total, prefix blocks to share are in some table, a block to unreference is held,
  the branches of a commit are held, a fork has a new id. Allocators with persistent scratch get the
  calls the simulator makes on them.
\<close>

inductive kv_step :: "'p allocator \<Rightarrow> holdings \<times> 'p kv \<Rightarrow> holdings \<times> 'p kv \<Rightarrow> bool"
  for A :: "'p allocator" where
  admit: "0 \<le> n \<Longrightarrow> n \<le> t \<Longrightarrow> 0 < t \<Longrightarrow> m_admit A sid n t s = (r, s') \<Longrightarrow> kv_step A (H, s) (H, s')"
| admit_shared: "supports_sharing A \<Longrightarrow> 0 \<le> n \<Longrightarrow> set shared \<subseteq> set_mset (table_refs s) \<Longrightarrow>
    m_admit_shared A sid shared n t s = (r, s') \<Longrightarrow> kv_step A (H, s) (H, s')"
| append: "map_of (tables s) sid \<noteq> None \<Longrightarrow> m_append A sid s = (r, s') \<Longrightarrow> kv_step A (H, s) (H, s')"
| fork: "\<not> persistent_scratch A \<Longrightarrow> map_of (tables s) child = None \<Longrightarrow>
    m_fork A parent child s = (r, s') \<Longrightarrow> kv_step A (H, s) (H, s')"
| scratch: "\<not> persistent_scratch A \<Longrightarrow> 0 \<le> n \<Longrightarrow> m_scratch A sid n s = (Inr bs, s') \<Longrightarrow>
    kv_step A (H, s) (H + tag sid bs, s')"
| scratch_fails: "\<not> persistent_scratch A \<Longrightarrow> 0 \<le> n \<Longrightarrow> m_scratch A sid n s = (Inl e, s') \<Longrightarrow>
    kv_step A (H, s) (H, s')"
| take: "persistent_scratch A \<Longrightarrow> map_of (tables s) sid \<noteq> None \<Longrightarrow> 0 \<le> n \<Longrightarrow>
    m_take A sid n s = (Inr bs, s') \<Longrightarrow> kv_step A (H, s) (H + tag sid bs, s')"
| take_fails: "persistent_scratch A \<Longrightarrow> map_of (tables s) sid \<noteq> None \<Longrightarrow> 0 \<le> n \<Longrightarrow>
    m_take A sid n s = (Inl e, s') \<Longrightarrow> kv_step A (H, s) (H, s')"
| unref: "\<not> persistent_scratch A \<Longrightarrow> tag sid bs \<subseteq># H \<Longrightarrow> m_unref A bs s = (r, s') \<Longrightarrow>
    kv_step A (H, s) (H - tag sid bs, s')"
| adopt: "\<not> persistent_scratch A \<Longrightarrow> map_of (tables s) sid = Some tab \<Longrightarrow> w < length branches \<Longrightarrow>
    tag sid (concat branches) \<subseteq># H \<Longrightarrow> (replace_tail \<longrightarrow> tab \<noteq> []) \<Longrightarrow>
    m_adopt A sid replace_tail w keep branches s = (r, s') \<Longrightarrow>
    kv_step A (H, s) (H - tag sid (concat branches), s')"
| retire: "map_of (tables s) sid \<noteq> None \<Longrightarrow> {#x \<in># H. fst x = sid#} = tag sid bs \<Longrightarrow>
    thenS (m_unref A bs) (m_release A sid) s = (r, s') \<Longrightarrow> kv_step A (H, s) (H - tag sid bs, s')"
| release: "\<not> persistent_scratch A \<Longrightarrow> m_release A sid s = (r, s') \<Longrightarrow> kv_step A (H, s) (H, s')"

inductive_cases kv_stepE: "kv_step A (H, s) (H', s')"

abbreviation kv_reach :: "'p allocator \<Rightarrow> 'p kv \<Rightarrow> holdings \<Rightarrow> 'p kv \<Rightarrow> bool" where
  "kv_reach A s0 H s \<equiv> (kv_step A)\<^sup>*\<^sup>* ({#}, s0) (H, s)"

context kv_contract
begin

lemma step_inv: "kv_step A x y \<Longrightarrow> Inv (fst x) (snd x) \<Longrightarrow> Inv (fst y) (snd y)"
proof (induction rule: kv_step.induct)
  case (admit n t sid s r s' H)
  then show ?case using admit_law [of H s n t sid] by (auto split: sum.splits)
next
  case (admit_shared n shared s sid t r s' H)
  then show ?case using admit_shared_law [of H s n shared sid t] by (auto split: sum.splits)
next
  case (append s sid r s' H)
  then show ?case using append_law [of H s sid] by (auto split: sum.splits)
next
  case (fork s child parent r s' H)
  then show ?case using fork_law [of H s child parent] by (auto split: sum.splits)
next
  case (scratch n sid s bs s' H)
  then show ?case using scratch_law [of H s n sid] by simp
next
  case (scratch_fails n sid s e s' H)
  then show ?case using scratch_law [of H s n sid] by simp
next
  case (take s sid n bs s' H)
  then show ?case using take_law [of H s sid n] by simp
next
  case (take_fails s sid n e s' H)
  then show ?case using take_law [of H s sid n] by simp
next
  case (unref sid bs H s r s')
  then show ?case using unref_law [of H s sid bs] by auto
next
  case (adopt s sid tab w branches H replace_tail keep r s')
  then show ?case using adopt_law [of H s sid tab w branches replace_tail keep] by auto
next
  case (retire s sid H bs r s')
  then show ?case using retire_law [of H s sid _ bs] by auto
next
  case (release sid s r s' H)
  then show ?case using release_law [of H s sid] by (auto split: sum.splits)
qed

lemma steps_inv: "(kv_step A)\<^sup>*\<^sup>* x y \<Longrightarrow> Inv (fst x) (snd x) \<Longrightarrow> Inv (fst y) (snd y)"
  by (induction rule: rtranclp.induct) (auto intro: step_inv)

text \<open>No call changes the size of the pool.\<close>

lemma step_pool: "kv_step A x y \<Longrightarrow> Inv (fst x) (snd x) \<Longrightarrow> num_blocks (snd y) = num_blocks (snd x)"
proof (induction rule: kv_step.induct)
  case (admit n t sid s r s' H)
  then show ?case using admit_law [of H s n t sid] by (auto simp: same_tables_def split: sum.splits)
next
  case (admit_shared n shared s sid t r s' H)
  then show ?case using admit_shared_law [of H s n shared sid t] by (auto simp: same_tables_def split: sum.splits)
next
  case (append s sid r s' H)
  then show ?case using append_law [of H s sid] by (auto split: sum.splits)
next
  case (fork s child parent r s' H)
  then show ?case using fork_law [of H s child parent] by (auto split: sum.splits)
next
  case (scratch n sid s bs s' H)
  then show ?case using scratch_law [of H s n sid] by (simp add: same_tables_def)
next
  case (scratch_fails n sid s e s' H)
  then show ?case using scratch_law [of H s n sid] by simp
next
  case (take s sid n bs s' H)
  then show ?case using take_law [of H s sid n] by (simp add: same_tables_def)
next
  case (take_fails s sid n e s' H)
  then show ?case using take_law [of H s sid n] by simp
next
  case (unref sid bs H s r s')
  then show ?case using unref_law [of H s sid bs] by (auto simp: same_tables_def)
next
  case (adopt s sid tab w branches H replace_tail keep r s')
  then show ?case using adopt_law [of H s sid tab w branches replace_tail keep] by auto
next
  case (retire s sid H bs r s')
  then show ?case using retire_law [of H s sid _ bs] by auto
next
  case (release sid s r s' H)
  then show ?case using release_law [of H s sid] by (auto split: sum.splits)
qed

lemma steps_pool:
  "(kv_step A)\<^sup>*\<^sup>* x y \<Longrightarrow> Inv (fst x) (snd x) \<Longrightarrow> num_blocks (snd y) = num_blocks (snd x)"
  by (induction rule: rtranclp.induct) (use step_pool steps_inv in \<open>auto simp del: split_paired_All\<close>)

lemma reach_pool: "kv_reach A s0 H s \<Longrightarrow> Inv {#} s0 \<Longrightarrow> num_blocks s = num_blocks s0"
  using steps_pool by fastforce

lemma reach_inv: "kv_reach A s0 H s \<Longrightarrow> Inv {#} s0 \<Longrightarrow> Inv H s"
  using steps_inv by fastforce

lemma reach_check: "kv_reach A s0 H s \<Longrightarrow> Inv {#} s0 \<Longrightarrow> m_check A s = (Inr (), s)"
  by (rule check_law [OF reach_inv])

lemma table_range: "Inv H s \<Longrightarrow> map_of (tables s) k = Some t \<Longrightarrow> \<forall>b \<in> set t. b < num_blocks s"
proof
  fix b assume inv: "Inv H s" and t: "map_of (tables s) k = Some t" and "b \<in> set t"
  moreover have "dict_ok (tables s)" using free_law [OF inv] by blast
  ultimately have "b \<in># table_refs s" using dsum_delete [of "tables s" k t mset] by (simp add: table_refs_def)
  then show "b < num_blocks s" using range_law [OF inv] by (simp add: refs_def)
qed

text \<open>The contract may also fix the size of the pool in its invariant.\<close>

lemma fixed_pool: "kv_contract A (\<lambda>H s. Inv H s \<and> num_blocks s = N)"
proof (unfold_locales, goal_cases)
  case (1 H s)
  then show ?case using check_law by blast
next
  case (2 H s)
  then show ?case using free_law by blast
next
  case (3 s)
  then show ?case using idle_law by blast
next
  case (4 H s n t sid)
  then show ?case using admit_law [of H s n t sid] by (auto simp: same_tables_def split: prod.splits sum.splits)
next
  case (5 H s n shared sid t)
  then show ?case using admit_shared_law [of H s n shared sid t] by (auto simp: same_tables_def split: prod.splits sum.splits)
next
  case (6 H s sid tab)
  then show ?case using append_law [of H s sid tab] by (auto split: prod.splits sum.splits)
next
  case (7 H s child parent)
  then show ?case using fork_law [of H s child parent] by (auto split: prod.splits sum.splits)
next
  case (8 H s n sid)
  then show ?case using scratch_law [of H s n sid] by (auto simp: same_tables_def split: prod.splits sum.splits)
next
  case (9 H s sid n)
  then show ?case using take_law [of H s sid n] by (auto simp: same_tables_def split: prod.splits sum.splits)
next
  case (10 H s sid bs)
  then show ?case using unref_law [of H s sid bs] by (auto simp: same_tables_def)
next
  case (11 H s sid tab w branches replace_tail keep)
  then show ?case using adopt_law [of H s sid tab w branches replace_tail keep] by auto
next
  case (12 H s sid tab bs)
  then show ?case using retire_law [of H s sid tab bs] by auto
next
  case (13 H s sid)
  then show ?case using release_law [of H s sid] by (auto split: prod.splits sum.splits)
next
  case (14 H s b)
  then show ?case using range_law by blast
qed

end

text \<open>Extending a client's run by one call.\<close>

lemma kv_reach_refl: "kv_reach A s {#} s"
  by simp

lemma kv_reach_admit:
  "kv_reach A s0 H s \<Longrightarrow> 0 \<le> n \<Longrightarrow> n \<le> t \<Longrightarrow> 0 < t \<Longrightarrow> kv_reach A s0 H (final (m_admit A sid n t) s)"
  by (erule rtranclp.rtrancl_into_rtrancl) (auto intro: kv_step.admit simp: prod_eq_iff)

section \<open>The base class meets the contract\<close>

context block_policy
begin

abbreviation base_inv :: "holdings \<Rightarrow> 'p kv \<Rightarrow> bool" where
  "base_inv H s \<equiv> kv_inv F I (held H) s"

lemma base_admit:
  assumes inv: "base_inv H s" and n: "0 \<le> n"
  shows "case admit P sid n t s of
      (Inl e, s') \<Rightarrow> e = (if map_of (tables s) sid = None then AdmissionFailure else ValueError)
          \<and> (e = AdmissionFailure \<longrightarrow> num_free P s < n) \<and> s' = s
    | (Inr bs, s') \<Rightarrow> map_of (tables s) sid = None \<and> length bs = nat n \<and> fresh bs H s
          \<and> tables s' = AList.update sid bs (tables s) \<and> num_blocks s' = num_blocks s
          \<and> num_free P s' = num_free P s - n \<and> base_inv H s'"
proof (cases "admit P sid n t s")
  case (Pair r s')
  show ?thesis
  proof (cases r)
    case (Inl e)
    with Pair admit_spec [OF inv, of sid n t] show ?thesis by (auto split: if_splits)
  next
    case (Inr bs)
    with Pair have a: "admit P sid n t s = (Inr bs, s')" by simp
    note sp = admit_spec [OF inv, of sid n t, unfolded a, simplified]
    have upd: "table_refs s' = table_refs s + mset bs"
      using sp by (simp add: table_refs_def dsum_update_new)
    then have "set bs \<subseteq> {..<num_blocks s}"
      using rc_invD(5) [OF kv_invD(2) [of "held H" s']] sp by auto
    then show ?thesis
      using Pair Inr sp n upd num_free_drop [OF inv, of "held H" s' bs]
      by (auto simp: fresh_def refs_def ac_simps)
  qed
qed

lemma base_admit_shared:
  assumes inv: "base_inv H s" and n: "0 \<le> n" and sh: "set shared \<subseteq> set_mset (table_refs s)"
  shows "case admit_shared P sid shared n t s of
      (Inl e, s') \<Rightarrow> e = (if map_of (tables s) sid = None then AdmissionFailure else ValueError)
          \<and> (e = AdmissionFailure \<longrightarrow> num_free P s < n) \<and> s' = s
    | (Inr bs, s') \<Rightarrow> map_of (tables s) sid = None
          \<and> (\<exists>new. bs = shared @ new \<and> length new = nat n \<and> fresh new H s)
          \<and> tables s' = AList.update sid bs (tables s) \<and> num_blocks s' = num_blocks s
          \<and> num_free P s' = num_free P s - n \<and> base_inv H s'"
proof (cases "admit_shared P sid shared n t s")
  case (Pair r s')
  have sh': "set shared \<subseteq> set_mset (table_refs s + held H)" using sh by auto
  show ?thesis
  proof (cases r)
    case (Inl e)
    with Pair admit_shared_spec [OF inv sh', of sid n t] show ?thesis by (auto split: if_splits)
  next
    case (Inr bs)
    with Pair have a: "admit_shared P sid shared n t s = (Inr bs, s')" by simp
    from admit_shared_spec [OF inv sh', of sid n t, unfolded a]
    obtain new where sp: "map_of (tables s) sid = None" "n \<le> num_free P s" "bs = shared @ new"
        "length new = nat n" "distinct new" "set new \<inter> set_mset (table_refs s + held H) = {}"
        "tables s' = AList.update sid bs (tables s)" "num_blocks s' = num_blocks s" "base_inv H s'"
      by auto
    have upd: "table_refs s' = table_refs s + mset bs"
      using sp by (simp add: table_refs_def dsum_update_new)
    then have lt: "set bs \<subseteq> {..<num_blocks s}"
      using rc_invD(5) [OF kv_invD(2) [OF sp(9)]] sp(8) by auto
    have "card (set_mset (table_refs s' + held H)) = card (set_mset (table_refs s + held H)) + nat n"
    proof -
      have "set_mset (table_refs s' + held H) = set_mset (table_refs s + held H) \<union> set new"
        using upd sp(3) sh by auto
      then show ?thesis
        using sp(4,5,6) by (simp add: card_Un_disjoint distinct_card Int_commute)
    qed
    then have "num_free P s' = num_free P s - n"
      using kv_num_free [OF inv] kv_num_free [OF sp(9)] sp(8) n by simp
    then show ?thesis
      using Pair Inr sp lt by (auto simp: fresh_def refs_def)
  qed
qed

lemma base_append:
  assumes inv: "base_inv H s" and tab: "map_of (tables s) sid = Some tab"
  shows "case append_block P sid s of
      (Inl e, s') \<Rightarrow> e = AdmissionFailure \<and> s' = s \<and> num_free P s = 0
    | (Inr b, s') \<Rightarrow> fresh [b] H s \<and> tables s' = AList.update sid (tab @ [b]) (tables s)
          \<and> num_blocks s' = num_blocks s \<and> num_free P s' = num_free P s - 1 \<and> base_inv H s'"
proof (cases "append_block P sid s")
  case (Pair r s')
  show ?thesis
  proof (cases r)
    case (Inl e)
    with Pair append_block_spec [OF inv tab] show ?thesis by auto
  next
    case (Inr b)
    with Pair append_block_spec [OF inv tab] have sp: "0 < num_free P s" "b \<notin># table_refs s + held H"
        "tables s' = AList.update sid (tab @ [b]) (tables s)" "num_blocks s' = num_blocks s"
        "base_inv H s'"
      by auto
    have "table_refs s' + mset tab = table_refs s + mset (tab @ [b])"
      using table_refs_old [OF kv_invD(1) [OF inv] tab, of "tab @ [b]"] sp(3) by (simp add: table_refs_def)
    then have upd: "table_refs s' = add_mset b (table_refs s)" by simp
    then have "b < num_blocks s"
      using rc_invD(5) [OF kv_invD(2) [OF sp(5)]] sp(4) by auto
    then show ?thesis
      using Pair Inr sp upd num_free_drop [OF inv sp(5), of "[b]"] by (auto simp: fresh_def refs_def)
  qed
qed

lemma base_scratch:
  assumes inv: "base_inv H s" and n: "0 \<le> n"
  shows "case alloc_scratch_as P k n s of
      (Inl e, s') \<Rightarrow> e = AdmissionFailure \<and> s' = s \<and> num_free P s < n
    | (Inr bs, s') \<Rightarrow> length bs = nat n \<and> fresh bs H s \<and> same_tables s s'
          \<and> num_free P s' = num_free P s - n \<and> base_inv (H + tag sid bs) s'"
proof (cases "alloc_scratch_as P k n s")
  case (Pair r s')
  show ?thesis
  proof (cases r)
    case (Inl e)
    with Pair alloc_scratch_as_spec [OF inv, where k = k and n = n] show ?thesis by auto
  next
    case (Inr bs)
    with Pair alloc_scratch_as_spec [OF inv, where k = k and n = n] have sp: "length bs = nat n" "distinct bs"
        "set bs \<inter> set_mset (table_refs s + held H) = {}" "same_tables s s'"
        "kv_inv F I (held H + mset bs) s'"
      by auto
    have "set bs \<subseteq> {..<num_blocks s}"
      using rc_invD(5) [OF kv_invD(2) [OF sp(5)]] sp(4) by (auto simp: same_tables_def)
    then show ?thesis
      using Pair Inr sp n table_refs_same [OF sp(4)] num_free_drop [OF inv sp(5), of bs]
      by (auto simp: fresh_def refs_def same_tables_def ac_simps)
  qed
qed

lemma base_unref:
  assumes inv: "base_inv H s" and H: "tag sid bs \<subseteq># H"
  shows "\<exists>s'. unref_blocks P bs s = (Inr (), s') \<and> same_tables s s' \<and> num_free P s \<le> num_free P s'
    \<and> base_inv (H - tag sid bs) s'"
proof -
  obtain s' where s': "unref_blocks P bs s = (Inr (), s')" "same_tables s s'"
      "kv_inv F I (held H - mset bs) s'" "cow_copies s' = cow_copies s"
    by (rule unref_held_spec [OF inv held_tag_subset [OF H]])
  then have "num_free P s \<le> num_free P s'"
    using table_refs_same [OF s'(2)]
    by (intro num_free_rise [OF inv s'(3)]) (auto simp: same_tables_def dest: in_diffD)
  with s' show ?thesis by (auto simp: held_diff_tag [OF H])
qed

lemma base_release:
  assumes inv: "base_inv H s"
  shows "case release P sid s of
      (Inl e, s') \<Rightarrow> e = KeyError \<and> s' = s \<and> map_of (tables s) sid = None
    | (Inr _, s') \<Rightarrow> map_of (tables s) sid \<noteq> None \<and> tables s' = AList.delete sid (tables s)
          \<and> num_blocks s' = num_blocks s \<and> num_free P s \<le> num_free P s' \<and> base_inv H s'"
proof (cases "release P sid s")
  case (Pair r s')
  show ?thesis
  proof (cases r)
    case (Inl e)
    with Pair release_spec [OF inv, of sid] show ?thesis by auto
  next
    case (Inr u)
    with Pair release_spec [OF inv, of sid] obtain tab where
      sp: "map_of (tables s) sid = Some tab" "tables s' = AList.delete sid (tables s)"
        "num_blocks s' = num_blocks s" "base_inv H s'"
      by auto
    have "table_refs s = table_refs s' + mset tab"
      using table_refs_delete [OF kv_invD(1) [OF inv] sp(1)] sp(2) by (simp add: table_refs_def)
    then have "num_free P s \<le> num_free P s'"
      using sp by (intro num_free_rise [OF inv sp(4)]) auto
    with Pair Inr sp show ?thesis by simp
  qed
qed

lemma base_adopt:
  assumes inv: "base_inv H s" and tab: "map_of (tables s) sid = Some tab"
    and w: "w < length branches" and H: "tag sid (concat branches) \<subseteq># H"
    and tail: "replace_tail \<longrightarrow> tab \<noteq> []"
  shows "\<exists>s'. spec_round_adopt P sid replace_tail w keep branches s = (Inr (), s')
    \<and> tables s' = AList.update sid ((if replace_tail then butlast tab else tab)
         @ slice_to keep (branches ! w)) (tables s)
    \<and> num_blocks s' = num_blocks s \<and> num_free P s \<le> num_free P s'
    \<and> base_inv (H - tag sid (concat branches)) s'"
proof -
  obtain s' where s': "spec_round_adopt P sid replace_tail w keep branches s = (Inr (), s')"
      "tables s' = AList.update sid ((if replace_tail then butlast tab else tab)
         @ slice_to keep (branches ! w)) (tables s)"
      "num_blocks s' = num_blocks s" "kv_inv F I (held H - mset (concat branches)) s'"
      "cow_copies s' = cow_copies s + (if replace_tail then 1 else 0)"
    by (rule spec_round_adopt_spec [OF inv tab w held_tag_subset [OF H], of replace_tail keep])
      (use tail in auto)
  let ?t = "(if replace_tail then butlast tab else tab) @ slice_to keep (branches ! w)"
  have "table_refs s' + mset tab = table_refs s + mset ?t"
    using table_refs_old [OF kv_invD(1) [OF inv] tab, of ?t] s'(2) by (simp add: table_refs_def)
  then have "set_mset (table_refs s') \<subseteq> set_mset (table_refs s) \<union> set ?t"
    by (metis Un_upper1 set_mset_mset set_mset_union)
  moreover have "set (butlast tab) \<subseteq> set tab" by (auto dest: in_set_butlastD)
  moreover have "mset tab \<subseteq># table_refs s"
    using table_refs_delete [OF kv_invD(1) [OF inv] tab] by simp
  then have "set tab \<subseteq> set_mset (table_refs s)" by (auto dest: mset_subset_eqD)
  moreover have "set (slice_to keep (branches ! w)) \<subseteq> set_mset (held H)"
  proof -
    have "set (slice_to keep (branches ! w)) \<subseteq> set (concat branches)"
      using w by (auto simp: slice_to_def dest!: in_set_takeD intro!: bexI [of _ "branches ! w"])
    also have "\<dots> \<subseteq> set_mset (held H)"
      using mset_subset_eqD [OF held_tag_subset [OF H]] by (auto simp del: mset_concat)
    finally show ?thesis .
  qed
  ultimately have "set_mset (table_refs s' + (held H - mset (concat branches)))
      \<subseteq> set_mset (table_refs s + held H)"
    by (auto split: if_splits dest: in_diffD)
  then have "num_free P s \<le> num_free P s'"
    by (rule num_free_rise [OF inv s'(4,3)])
  with s' show ?thesis by (auto simp: held_diff_tag [OF H])
qed

lemma tag_filter_subset: "{#x \<in># H. fst x = sid#} = tag sid bs \<Longrightarrow> tag sid bs \<subseteq># H"
  by (metis multiset_filter_subset)

end

sublocale block_policy \<subseteq> base: kv_contract "base_allocator P" base_inv
proof (unfold_locales, goal_cases)
  case (1 H s)
  then show ?case by (simp add: base_allocator_def assert_conservation_ok)
next
  case (2 H s)
  then show ?case
    using kv_num_free [OF 2] num_free_nonneg [OF kv_invD(2) [OF 2]] kv_invD(1) [OF 2]
    by (simp add: base_allocator_def)
next
  case (3 s)
  then show ?case
    using kv_num_free [of "{#}" s] by (simp add: base_allocator_def table_refs_def)
next
  case (4 H s n t sid)
  then show ?case using base_admit [of H s n sid t]
    by (auto simp: base_allocator_def split: prod.splits sum.splits)
next
  case (5 H s n shared sid t)
  then show ?case using base_admit_shared [of H s n shared sid t]
    by (auto simp: base_allocator_def split: prod.splits sum.splits)
next
  case (6 H s sid tab)
  then show ?case using base_append [of H s sid tab]
    by (auto simp: base_allocator_def split: prod.splits sum.splits)
next
  case (7 H s child parent)
  then show ?case using fork_spec [of "held H" s child parent]
    by (auto simp: base_allocator_def num_free_def split: prod.splits sum.splits)
next
  case (8 H s n sid)
  then show ?case using base_scratch [OF 8(2,3), where k = "Seq sid" and sid = sid]
    by (auto simp: base_allocator_def alloc_scratch_def split: prod.splits sum.splits)
next
  case (9 H s sid n)
  then show ?case by (simp add: base_allocator_def)
next
  case (10 H s sid bs)
  then show ?case using base_unref [of H s sid bs] by (simp add: base_allocator_def)
next
  case (11 H s sid tab w branches replace_tail keep)
  then show ?case using base_adopt [of H s sid tab w branches replace_tail keep]
    by (simp add: base_allocator_def)
next
  case (12 H s sid tab bs)
  then obtain s1 where s1: "unref_blocks P bs s = (Inr (), s1)" "same_tables s s1"
      "num_free P s \<le> num_free P s1" "base_inv (H - tag sid bs) s1"
    using base_unref [OF _ tag_filter_subset, of H s sid bs] by auto
  then show ?case
    using base_release [OF s1(4), of sid] 12(2)
    by (auto simp: base_allocator_def prog_simps same_tables_def split: prod.splits sum.splits)
next
  case (13 H s sid)
  then show ?case using base_release [of H s sid]
    by (auto simp: base_allocator_def split: prod.splits sum.splits)
next
  case (14 H s b)
  then show ?case using rc_invD(5) [OF kv_invD(2) [OF 14(1)]] by (auto simp: refs_def)
qed

context block_policy
begin

lemma base_contract: "kv_contract (base_allocator P) base_inv"
  by unfold_locales

end

end
