(* ===== verification/Kv_Freelist.thy ===== *)
theory Kv_Freelist
  imports Kv_Interface
begin

text \<open>
  The two free-list policies of \<open>pimkv/allocator.py\<close>: \<open>PagedFirstFit\<close>, which pops and appends at the
  tail, and \<open>RandomAlloc\<close>, which swaps a uniformly drawn entry to the tail first. Both meet the policy
  contract, so every inherited method is specified for them.
\<close>

section \<open>PagedFirstFit\<close>

record paged =
  free_blocks :: "nat list"

definition paged_alloc_one :: "akey \<Rightarrow> (paged, nat) prog" where
  "paged_alloc_one k = (\<lambda>p. if free_blocks p = [] then (Inl IndexError, p)
     else (Inr (last (free_blocks p)), p\<lparr>free_blocks := butlast (free_blocks p)\<rparr>))"

definition paged_free_one :: "nat \<Rightarrow> (paged, unit) prog" where
  "paged_free_one block = modifyS (\<lambda>p. p\<lparr>free_blocks := free_blocks p @ [block]\<rparr>)"

definition paged_ops :: "paged policy_ops" where
  "paged_ops = \<lparr>alloc_one = paged_alloc_one, free_one = paged_free_one,
     policy_free = (\<lambda>p. int (length (free_blocks p)))\<rparr>"

definition PagedFirstFit :: "nat \<Rightarrow> paged kv" where
  "PagedFirstFit n = kv_init n \<lparr>free_blocks = [0..<n]\<rparr>"

definition paged_allocator :: "paged allocator" where
  "paged_allocator = base_allocator paged_ops"

definition paged_free_set :: "paged \<Rightarrow> nat set" where
  "paged_free_set p = set (free_blocks p)"

definition paged_ok :: "nat \<Rightarrow> paged \<Rightarrow> bool" where
  "paged_ok n p \<longleftrightarrow> distinct (free_blocks p) \<and> set (free_blocks p) \<subseteq> {..<n}"

lemmas paged_defs = paged_ops_def paged_alloc_one_def paged_free_one_def paged_free_set_def paged_ok_def

lemma kv_inv_init:
  assumes "F p = {..<n}" and "I n p"
  shows "kv_inv F I {#} (kv_init n p)"
  using assms by (simp add: kv_inv_def rc_inv_def table_refs_def kv_init_def)

interpretation paged: block_policy paged_ops paged_free_set paged_ok
proof (unfold_locales, goal_cases)
  case (1 n p)
  then show ?case by (simp add: paged_defs distinct_card)
next
  case (2 n p k)
  then obtain xs x where p: "free_blocks p = xs @ [x]"
    by (metis append_butlast_last_id empty_set paged_free_set_def)
  with 2 show ?case by (auto simp: paged_defs)
next
  case (3 n p b)
  then show ?case by (auto simp: paged_defs prog_simps)
qed

lemma paged_init: "kv_inv paged_free_set paged_ok {#} (PagedFirstFit n)"
  unfolding PagedFirstFit_def
  by (rule kv_inv_init) (auto simp: paged_free_set_def paged_ok_def)

text \<open>The tail of the free list is handed out last first, and returned in table order.\<close>

lemma paged_repeat_alloc:
  "n \<le> length (free_blocks (policy s)) \<Longrightarrow>
    \<exists>s'. repeatN n (alloc paged_ops k) s = (Inr (take n (rev (free_blocks (policy s)))), s')
      \<and> free_blocks (policy s') = take (length (free_blocks (policy s)) - n) (free_blocks (policy s))"
proof (induction n arbitrary: s)
  case 0
  then show ?case by (simp add: prog_simps)
next
  case (Suc n)
  then obtain xs x where fb: "free_blocks (policy s) = xs @ [x]"
    by (metis append_butlast_last_id le_zero_eq list.size(3) nat.distinct(1))
  let ?s1 = "s\<lparr>policy := policy s\<lparr>free_blocks := xs\<rparr>, refcount := AList.update x 1 (refcount s),
     allocated_total := allocated_total s + 1\<rparr>"
  have step: "alloc paged_ops k s = (Inr x, ?s1)"
    using fb by (simp add: alloc_def paged_defs prog_simps)
  from Suc.prems fb have "n \<le> length (free_blocks (policy ?s1))" by simp
  from Suc.IH [OF this] step fb show ?case by (auto simp: prog_simps)
qed

lemma paged_unref_last_ref:
  assumes "map_of (refcount s) b = Some 1"
  shows "unref paged_ops b s = (Inr (), s\<lparr>refcount := AList.delete b (refcount s),
     policy := policy s\<lparr>free_blocks := free_blocks (policy s) @ [b]\<rparr>,
     freed_total := freed_total s + 1\<rparr>)"
  using assms by (simp add: unref_def paged_defs prog_simps)

lemma paged_unref_each:
  "distinct bs \<Longrightarrow> (\<forall>b \<in> set bs. map_of (refcount s) b = Some 1) \<Longrightarrow>
    \<exists>s'. eachS (unref paged_ops) bs s = (Inr (), s')
      \<and> free_blocks (policy s') = free_blocks (policy s) @ bs \<and> tables s' = tables s"
proof (induction bs arbitrary: s)
  case Nil
  then show ?case by (simp add: prog_simps)
next
  case (Cons b bs)
  let ?s1 = "s\<lparr>refcount := AList.delete b (refcount s),
     policy := policy s\<lparr>free_blocks := free_blocks (policy s) @ [b]\<rparr>, freed_total := freed_total s + 1\<rparr>"
  from Cons.prems have "\<forall>c \<in> set bs. map_of (refcount ?s1) c = Some 1" by auto
  from Cons.IH [OF _ this] Cons.prems show ?case
    by (auto simp: prog_simps paged_unref_last_ref)
qed

section \<open>RandomAlloc\<close>

text \<open>
  The generator of numpy is a parameter: \<open>integers g n\<close> is the draw \<open>g.integers(n)\<close> and the generator
  left behind. Its documented range is the hypothesis \<open>integers_ok\<close>; a draw from an empty range raises.
\<close>

record 'r random_alloc =
  rfree :: "nat list"
  rng :: 'r

definition integers_ok :: "('r \<Rightarrow> nat \<Rightarrow> nat \<times> 'r) \<Rightarrow> bool" where
  "integers_ok integers \<longleftrightarrow> (\<forall>g n. 0 < n \<longrightarrow> fst (integers g n) < n)"

definition random_alloc_one ::
  "('r \<Rightarrow> nat \<Rightarrow> nat \<times> 'r) \<Rightarrow> akey \<Rightarrow> ('r random_alloc, nat) prog" where
  "random_alloc_one integers k = (\<lambda>p. let xs = rfree p in
     if xs = [] then (Inl ValueError, p)
     else let (i, g) = integers (rng p) (length xs);
              ys = xs[i := last xs, length xs - 1 := xs ! i]
          in (Inr (last ys), p\<lparr>rfree := butlast ys, rng := g\<rparr>))"

definition random_free_one :: "nat \<Rightarrow> ('r random_alloc, unit) prog" where
  "random_free_one block = modifyS (\<lambda>p. p\<lparr>rfree := rfree p @ [block]\<rparr>)"

definition random_ops :: "('r \<Rightarrow> nat \<Rightarrow> nat \<times> 'r) \<Rightarrow> 'r random_alloc policy_ops" where
  "random_ops integers = \<lparr>alloc_one = random_alloc_one integers, free_one = random_free_one,
     policy_free = (\<lambda>p. int (length (rfree p)))\<rparr>"

definition RandomAlloc :: "nat \<Rightarrow> 'r \<Rightarrow> 'r random_alloc kv" where
  "RandomAlloc n g = kv_init n \<lparr>rfree = [0..<n], rng = g\<rparr>"

definition random_allocator :: "('r \<Rightarrow> nat \<Rightarrow> nat \<times> 'r) \<Rightarrow> 'r random_alloc allocator" where
  "random_allocator integers = base_allocator (random_ops integers)"

definition random_free_set :: "'r random_alloc \<Rightarrow> nat set" where
  "random_free_set p = set (rfree p)"

definition random_ok :: "nat \<Rightarrow> 'r random_alloc \<Rightarrow> bool" where
  "random_ok n p \<longleftrightarrow> distinct (rfree p) \<and> set (rfree p) \<subseteq> {..<n}"

lemmas random_defs = random_ops_def random_alloc_one_def random_free_one_def random_free_set_def
  random_ok_def

lemma swap_pop:
  assumes "i < length xs"
  shows "\<exists>ys. xs[i := last xs, length xs - 1 := xs ! i] = ys @ [xs ! i] \<and> mset xs = add_mset (xs ! i) (mset ys)"
proof -
  let ?ys = "xs[i := last xs, length xs - 1 := xs ! i]"
  have l: "last xs = xs ! (length xs - 1)" using assms by (cases xs rule: rev_cases) auto
  then have "mset ?ys = mset xs"
    using assms by (simp add: mset_swap)
  moreover have "last ?ys = xs ! i"
    using assms by (subst last_list_update) auto
  moreover have "?ys \<noteq> []" using assms by auto
  ultimately have split: "?ys = butlast ?ys @ [xs ! i]"
    by (metis append_butlast_last_id)
  have "mset ?ys = add_mset (xs ! i) (mset (butlast ?ys))"
    by (subst split) simp
  then show ?thesis
    using split \<open>mset ?ys = mset xs\<close> by metis
qed

lemma random_policy: "integers_ok integers \<Longrightarrow> block_policy (random_ops integers) random_free_set random_ok"
proof (unfold_locales, goal_cases)
  case (1 n p)
  then show ?case by (simp add: random_defs distinct_card)
next
  case (2 n p k)
  obtain i g where draw: "integers (rng p) (length (rfree p)) = (i, g)" by fastforce
  have ne: "rfree p \<noteq> []" using 2 by (auto simp: random_free_set_def)
  then have i: "i < length (rfree p)"
    using 2(1) draw unfolding integers_ok_def by (metis fst_conv length_greater_0_conv)
  from swap_pop [OF i] obtain ys where
    ys: "(rfree p)[i := last (rfree p), length (rfree p) - 1 := rfree p ! i] = ys @ [rfree p ! i]"
      "mset (rfree p) = add_mset (rfree p ! i) (mset ys)" by blast
  have mem: "set (rfree p) = insert (rfree p ! i) (set ys)"
    using ys(2) by (metis set_mset_add_mset_insert set_mset_mset)
  have "distinct (rfree p ! i # ys)"
    using 2(2) ys(2) unfolding random_ok_def by (metis mset.simps(2) mset_eq_imp_distinct_iff)
  then show ?case
    using 2 ne draw ys(1) mem by (auto simp: random_defs Let_def)
next
  case (3 n p b)
  then show ?case by (auto simp: random_defs prog_simps)
qed

text \<open>The contract for every lawful generator.\<close>

lemmas random_contract = block_policy.base_contract [OF random_policy]

lemma random_init: "kv_inv random_free_set random_ok {#} (RandomAlloc n g)"
  unfolding RandomAlloc_def
  by (rule kv_inv_init) (auto simp: random_free_set_def random_ok_def)

section \<open>Properties\<close>

text \<open>C13: Whatever calls a client makes on a fresh paged allocator (admissions, shared-prefix admissions,
  appends, forks, speculative scratch, branch commits, releases, in any order and with any failures),
  validation gate 5 never trips: \<open>assert_conservation\<close> returns.\<close>

theorem paged_conservation:
  assumes "kv_reach paged_allocator (PagedFirstFit n) H s"
  shows "m_check paged_allocator s = (Inr (), s)"
  using assms unfolding paged_allocator_def
  by (rule paged.base.reach_check) (simp add: paged_init)

text \<open>A fresh paged pool hands out descending block ids, and rejects a prompt larger than the pool
  without changing anything.\<close>

theorem paged_fresh_pool_descends:
  "fst (admit paged_ops sid n t (PagedFirstFit N))
     = (if n \<le> int N then Inr (take (nat n) (rev [0..<N])) else Inl AdmissionFailure)"
proof (cases "n \<le> int N")
  case False
  then show ?thesis
    by (simp add: admit_def prog_simps PagedFirstFit_def kv_init_def num_free_def paged_ops_def)
next
  case True
  have fb: "free_blocks (policy (PagedFirstFit N)) = [0..<N]"
    by (simp add: PagedFirstFit_def kv_init_def)
  have "nat n \<le> length (free_blocks (policy (PagedFirstFit N)))" using True fb by simp
  from paged_repeat_alloc [OF this, of "Seq sid"] obtain s' where
    "repeatN (nat n) (alloc paged_ops (Seq sid)) (PagedFirstFit N) = (Inr (take (nat n) (rev [0..<N])), s')"
    using fb by auto
  moreover have "tables (PagedFirstFit N) = []" "num_free paged_ops (PagedFirstFit N) = int N"
    by (simp_all add: PagedFirstFit_def kv_init_def num_free_def paged_ops_def)
  ultimately show ?thesis
    using True by (simp add: admit_def prog_simps)
qed

text \<open>The free list is a stack: when a sequence that shares nothing is released and a new sequence
  of the same size is admitted next, it gets exactly the released blocks, in reverse order.\<close>

theorem paged_reuses_released_blocks_reversed:
  assumes inv: "kv_inv paged_free_set paged_ok {#} s"
    and tab: "map_of (tables s) old = Some bs"
    and own: "\<forall>b \<in> set bs. map_of (refcount s) b = Some 1"
    and new: "map_of (tables s) new = None"
  shows "fst (thenS (release paged_ops old) (admit paged_ops new (int (length bs)) t) s) = Inr (rev bs)"
proof -
  have "mset bs \<subseteq># table_refs s"
    using table_refs_delete [OF paged.kv_invD(1) [OF inv] tab] by simp
  moreover have "count (table_refs s) b = 1" if "b \<in> set bs" for b
    using own that rc_invD(3,4) [OF paged.kv_invD(2) [OF inv], of b]
    by (cases "b \<in># table_refs s") (auto split: if_splits)
  ultimately have "\<forall>b. count (mset bs) b \<le> 1"
    by (metis count_mset_0_iff mset_subset_eq_count zero_le)
  then have dist: "distinct bs"
    by (auto simp: distinct_count_atmost_1 le_Suc_eq not_in_iff [symmetric])
  let ?s1 = "s\<lparr>tables := AList.delete old (tables s)\<rparr>"
  from paged_unref_each [OF dist, of ?s1] own obtain s2 where
    s2: "eachS (unref paged_ops) bs ?s1 = (Inr (), s2)"
      "free_blocks (policy s2) = free_blocks (policy s) @ bs" "tables s2 = AList.delete old (tables s)"
    by auto
  then have rel: "release paged_ops old s = (Inr (), s2)"
    using tab by (simp add: release_def prog_simps)
  have "length bs \<le> length (free_blocks (policy s2))" using s2(2) by simp
  from paged_repeat_alloc [OF this, of "Seq new"] obtain s3 where
    s3: "repeatN (length bs) (alloc paged_ops (Seq new)) s2 = (Inr (rev bs), s3)"
    using s2(2) by auto
  have free: "num_free paged_ops s2 = int (length (free_blocks (policy s)) + length bs)"
    using s2(2) by (simp add: num_free_def paged_ops_def)
  show ?thesis
    using rel s3 new s2(3) free by (simp add: thenS_def bindS_def admit_def repeatS_def assertS_def
        set_table_def modifyS_def ret_def)
qed

text \<open>With any generator that draws inside its range, a random-placement allocator driven by any
  client keeps conservation: \<open>assert_conservation\<close> returns in every reachable state.\<close>

theorem random_conservation:
  assumes "integers_ok integers"
    and "kv_reach (random_allocator integers) (RandomAlloc n g) H s"
  shows "m_check (random_allocator integers) s = (Inr (), s)"
  using assms(2) unfolding random_allocator_def
  by (rule kv_contract.reach_check [OF random_contract [OF assms(1)]]) (simp add: random_init)

section \<open>Witnesses\<close>

lemma paged_conservation_witness:
  "\<exists>s. tables s = [(7, [2, 1])] \<and> m_check paged_allocator s = (Inr (), s)"
proof -
  let ?s = "final (m_admit paged_allocator 7 2 2) (PagedFirstFit 3)"
  have "kv_reach paged_allocator (PagedFirstFit 3) {#} ?s"
    by (rule kv_reach_admit [OF kv_reach_refl]) simp_all
  from paged_conservation [OF this] show ?thesis
    by (intro exI [of _ ?s] conjI) code_simp+
qed

lemma paged_reuses_released_blocks_reversed_witness:
  "fst (thenS (release paged_ops 7) (admit paged_ops 8 2 2)
     (final (admit paged_ops 7 2 2) (PagedFirstFit 3))) = Inr [1, 2]"
proof -
  let ?s = "final (admit paged_ops 7 2 2) (PagedFirstFit 3)"
  have "case admit paged_ops 7 2 2 (PagedFirstFit 3) of (Inl e, s') \<Rightarrow> False
      | (Inr bs, s') \<Rightarrow> True"
    by code_simp
  then have "kv_inv paged_free_set paged_ok {#} ?s"
    using paged.admit_spec [OF paged_init [of 3], where sid = 7 and n = 2 and t = 2] by (auto split: prod.splits sum.splits)
  moreover have "map_of (tables ?s) 7 = Some [2, 1]" by code_simp
  moreover have "\<forall>b \<in> set [2, 1]. map_of (refcount ?s) b = Some 1" by code_simp
  moreover have "map_of (tables ?s) 8 = None" by code_simp
  ultimately show ?thesis
    using paged_reuses_released_blocks_reversed [of ?s 7 "[2, 1]" 8 2] by simp
qed

text \<open>A generator that always draws the middle of its range.\<close>

definition mid_draw :: "unit \<Rightarrow> nat \<Rightarrow> nat \<times> unit" where
  "mid_draw g n = (n div 2, g)"

lemma random_conservation_witness:
  "\<exists>s. tables s = [(7, [1, 2])] \<and> m_check (random_allocator mid_draw) s = (Inr (), s)"
proof -
  let ?s = "final (m_admit (random_allocator mid_draw) 7 2 2) (RandomAlloc 3 ())"
  have "integers_ok mid_draw" by (simp add: integers_ok_def mid_draw_def)
  moreover have "kv_reach (random_allocator mid_draw) (RandomAlloc 3 ()) {#} ?s"
    by (rule kv_reach_admit [OF kv_reach_refl]) simp_all
  ultimately have "m_check (random_allocator mid_draw) ?s = (Inr (), ?s)"
    by (rule random_conservation)
  then show ?thesis
    by (intro exI [of _ ?s] conjI) code_simp+
qed

end
