(* ===== verification/Pim_Aware.thy ===== *)
theory Pim_Aware
  imports Complex_Main "HOL-Library.Product_Lexorder" Kv_Freelist
begin

text \<open>
  The alignment-preserving allocator (\<open>PimAware\<close> in \<open>pimkv/allocator.py\<close>): frames, the bestfit admission
  plan, frame affinity, and the choice of a frame for one block. A binary heap is the sorted list of its
  entries: \<open>heappop\<close> removes the head, \<open>heappush\<close> inserts in order, and the code looks at a heap only
  through these two, its length and membership.
\<close>

section \<open>State\<close>

definition heappush :: "nat \<Rightarrow> nat list \<Rightarrow> nat list" where
  "heappush x h = insort x h"

record pim =
  frame_size :: nat
  segregate_scratch :: bool
  plan_mode :: string
  plans :: "(akey, nat list) dict"
  compact_below :: rat
  blocks_copied :: int
  compactions :: int
  n_frames :: nat
  frame_free :: "nat list list"
  empty_frames :: "nat list"
  affinity :: "(akey, nat) dict"
  nfree :: int

definition PimAware :: "nat \<Rightarrow> nat \<Rightarrow> bool \<Rightarrow> string \<Rightarrow> rat \<Rightarrow> py_error + pim kv" where
  "PimAware num blocks_per_frame segregate pl below =
     (if blocks_per_frame = 0 then Inl ZeroDivisionError
      else if num mod blocks_per_frame \<noteq> 0 then Inl ValueError
      else if pl \<noteq> ''bestfit'' \<and> pl \<noteq> ''greedy'' then Inl ValueError
      else let nf = num div blocks_per_frame in
        Inr (kv_init num \<lparr>frame_size = blocks_per_frame, segregate_scratch = segregate, plan_mode = pl,
          plans = [], compact_below = below, blocks_copied = 0, compactions = 0, n_frames = nf,
          frame_free = map (\<lambda>_. [0..<blocks_per_frame]) [0..<nf], empty_frames = [0..<nf],
          affinity = [], nfree = int num\<rparr>))"

text \<open>The heap of free offsets of a frame.\<close>

abbreviation slots :: "pim \<Rightarrow> nat \<Rightarrow> nat list" where
  "slots p f \<equiv> frame_free p ! f"

abbreviation room :: "pim \<Rightarrow> nat \<Rightarrow> nat" where
  "room p f \<equiv> length (frame_free p ! f)"

section \<open>The admission plan\<close>

text \<open>The two accumulation loops of \<open>_plan_frames\<close>: take frames until the capacity suffices.\<close>

fun claim :: "int \<Rightarrow> int \<Rightarrow> (nat \<times> nat) list \<Rightarrow> nat list \<times> int" where
  "claim n cap [] = ([], cap)"
| "claim n cap ((f, k) # rest) =
     (if cap \<ge> n then ([], cap)
      else let (fs, c) = claim n (cap + int k) rest in (f # fs, c))"

definition empties :: "pim \<Rightarrow> nat list" where
  "empties p = filter (\<lambda>f. room p f = frame_size p) [0..<n_frames p]"

text \<open>\<open>partials.sort(reverse=True)\<close> on the tuples \<open>(k, -f, f)\<close>.\<close>

definition partials :: "pim \<Rightarrow> (nat \<times> int \<times> nat) list" where
  "partials p = rev (sort (map (\<lambda>f. (room p f, - int f, f))
     (filter (\<lambda>f. room p f \<noteq> frame_size p \<and> room p f \<noteq> 0) [0..<n_frames p])))"

definition plan_frames :: "akey \<Rightarrow> int \<Rightarrow> pim \<Rightarrow> pim" where
  "plan_frames k n p =
     (if plan_mode p \<noteq> ''bestfit'' \<or> n \<le> 0 then p else
      let (chosen1, cap1) = claim n 0 (map (\<lambda>f. (f, frame_size p)) (empties p));
          (chosen2, cap2) = claim n cap1 (map (\<lambda>(r, _, f). (f, r)) (partials p))
      in if cap2 \<ge> n then p\<lparr>plans := AList.update k (chosen1 @ chosen2) (plans p)\<rparr> else p)"

section \<open>Choosing a frame\<close>

text \<open>\<open>while self.empty_frames: f = heappop(...); if len(frame_free[f]) == G: ...\<close>\<close>

fun pop_empty :: "pim \<Rightarrow> nat list \<Rightarrow> nat option \<times> nat list" where
  "pop_empty p [] = (None, [])"
| "pop_empty p (f # fs) = (if room p f = frame_size p then (Some f, fs) else pop_empty p fs)"

text \<open>The fallback scan: the frame with most free slots, the lowest index on ties.\<close>

definition most_free :: "pim \<Rightarrow> nat option" where
  "most_free p = fst (fold (\<lambda>f (best, best_free).
     if room p f > best_free then (Some f, room p f) else (best, best_free)) [0..<n_frames p] (None, 0))"

definition pick_new :: "akey \<Rightarrow> (pim, nat) prog" where
  "pick_new k p =
     (let (found, rest) = pop_empty p (empty_frames p); p' = p\<lparr>empty_frames := rest\<rparr> in
      case found of
        Some f \<Rightarrow> (Inr f, p'\<lparr>affinity := AList.update k f (affinity p)\<rparr>)
      | None \<Rightarrow> (case most_free p' of
            None \<Rightarrow> (Inl AdmissionFailure, p')
          | Some f \<Rightarrow> (Inr f, p'\<lparr>affinity := AList.update k f (affinity p)\<rparr>)))"

definition pick_unplanned :: "akey \<Rightarrow> (pim, nat) prog" where
  "pick_unplanned k p =
     (case map_of (affinity p) k of
        Some f \<Rightarrow> if slots p f \<noteq> [] then (Inr f, p) else pick_new k p
      | None \<Rightarrow> pick_new k p)"

definition pick_frame :: "akey \<Rightarrow> (pim, nat) prog" where
  "pick_frame k p =
     (case map_of (plans p) k of
        Some planned \<Rightarrow>
          if planned = [] then pick_unplanned k p
          else let planned' = dropWhile (\<lambda>f. slots p f = []) planned in
            if planned' \<noteq> [] then (Inr (hd planned'), p\<lparr>plans := AList.update k planned' (plans p)\<rparr>)
            else pick_unplanned k (p\<lparr>plans := AList.delete k (plans p)\<rparr>)
      | None \<Rightarrow> pick_unplanned k p)"

definition pim_alloc_one :: "akey \<Rightarrow> (pim, nat) prog" where
  "pim_alloc_one k =
     bindS (pick_frame k) (\<lambda>f p.
       if slots p f = [] then (Inl IndexError, p)
       else (Inr (f * frame_size p + hd (slots p f)),
             p\<lparr>frame_free := (frame_free p)[f := tl (slots p f)], nfree := nfree p - 1\<rparr>))"

definition pim_free_one :: "nat \<Rightarrow> (pim, unit) prog" where
  "pim_free_one block = (\<lambda>p.
     let f = block div frame_size p; off = block mod frame_size p in
     if length (frame_free p) \<le> f then (Inl IndexError, p)
     else let p' = p\<lparr>frame_free := (frame_free p)[f := heappush off (slots p f)], nfree := nfree p + 1\<rparr> in
       (Inr (), if room p' f = frame_size p then p'\<lparr>empty_frames := heappush f (empty_frames p')\<rparr> else p'))"

definition pim_ops :: "pim policy_ops" where
  "pim_ops = \<lparr>alloc_one = pim_alloc_one, free_one = pim_free_one, policy_free = nfree\<rparr>"

section \<open>Well-formed frames\<close>

definition frames_ok :: "pim \<Rightarrow> bool" where
  "frames_ok p \<longleftrightarrow> 0 < frame_size p \<and> length (frame_free p) = n_frames p
     \<and> (\<forall>f < n_frames p. sorted (slots p f) \<and> distinct (slots p f) \<and> set (slots p f) \<subseteq> {..<frame_size p})
     \<and> nfree p = int (\<Sum>f<n_frames p. room p f)"

text \<open>The hints: \<open>X\<close> is the set of frames that may be whole and yet missing from \<open>empty_frames\<close> (the frame
  just picked, before its first slot is taken).\<close>

definition hints_ok :: "nat set \<Rightarrow> pim \<Rightarrow> bool" where
  "hints_ok X p \<longleftrightarrow> sorted (empty_frames p) \<and> set (empty_frames p) \<subseteq> {..<n_frames p}
     \<and> (\<forall>f < n_frames p. room p f = frame_size p \<longrightarrow> f \<notin> X \<longrightarrow> f \<in> set (empty_frames p))
     \<and> (\<forall>k f. map_of (affinity p) k = Some f \<longrightarrow> f < n_frames p)
     \<and> (\<forall>k fs. map_of (plans p) k = Some fs \<longrightarrow> set fs \<subseteq> {..<n_frames p})"

definition pim_ok_but :: "nat set \<Rightarrow> nat \<Rightarrow> pim \<Rightarrow> bool" where
  "pim_ok_but X n p \<longleftrightarrow> n = n_frames p * frame_size p \<and> frames_ok p \<and> hints_ok X p"

abbreviation pim_ok :: "nat \<Rightarrow> pim \<Rightarrow> bool" where
  "pim_ok \<equiv> pim_ok_but {}"

definition pim_free_set :: "pim \<Rightarrow> nat set" where
  "pim_free_set p = {b. b < n_frames p * frame_size p \<and> b mod frame_size p \<in> set (slots p (b div frame_size p))}"

lemma pim_okD:
  assumes "pim_ok_but X n p"
  shows "n = n_frames p * frame_size p" "0 < frame_size p" "length (frame_free p) = n_frames p"
    "f < n_frames p \<Longrightarrow> sorted (slots p f)" "f < n_frames p \<Longrightarrow> distinct (slots p f)"
    "f < n_frames p \<Longrightarrow> set (slots p f) \<subseteq> {..<frame_size p}"
    "nfree p = int (\<Sum>f<n_frames p. room p f)" "sorted (empty_frames p)"
    "set (empty_frames p) \<subseteq> {..<n_frames p}"
    "f < n_frames p \<Longrightarrow> room p f = frame_size p \<Longrightarrow> f \<notin> X \<Longrightarrow> f \<in> set (empty_frames p)"
    "map_of (affinity p) k = Some f \<Longrightarrow> f < n_frames p"
    "map_of (plans p) k = Some fs \<Longrightarrow> set fs \<subseteq> {..<n_frames p}"
  using assms by (auto simp: pim_ok_but_def frames_ok_def hints_ok_def)

lemma block_in_frame: "0 < g \<Longrightarrow> off < g \<Longrightarrow> (f * g + off) div g = f \<and> (f * g + off) mod g = off" for g :: nat
  by simp

lemma block_lt: "f < n \<Longrightarrow> off < g \<Longrightarrow> f * g + off < n * g" for g :: nat
proof -
  assume "f < n" "off < g"
  then have "f * g + off < f * g + g" by simp
  also have "\<dots> = Suc f * g" by simp
  also have "\<dots> \<le> n * g" using \<open>f < n\<close> by (intro mult_le_mono1) simp
  finally show ?thesis .
qed

lemma div_frame_lt: "b < n * g \<Longrightarrow> b div g < n" for g :: nat
  by (simp add: less_mult_imp_div_less)

lemma slot_lt: "pim_ok_but X n p \<Longrightarrow> f < n_frames p \<Longrightarrow> off \<in> set (slots p f) \<Longrightarrow> off < frame_size p"
  using pim_okD(6) by blast

lemma pim_free_set_frames:
  assumes "pim_ok_but X n p"
  shows "pim_free_set p = (\<lambda>(f, off). f * frame_size p + off) ` (SIGMA f:{..<n_frames p}. set (slots p f))"
proof (intro equalityI subsetI)
  fix b assume b: "b \<in> pim_free_set p"
  have "b = (b div frame_size p) * frame_size p + b mod frame_size p" by simp
  with b div_frame_lt show "b \<in> (\<lambda>(f, off). f * frame_size p + off) ` (SIGMA f:{..<n_frames p}. set (slots p f))"
    by (intro image_eqI [of _ _ "(b div frame_size p, b mod frame_size p)"]) (auto simp: pim_free_set_def)
next
  fix b assume "b \<in> (\<lambda>(f, off). f * frame_size p + off) ` (SIGMA f:{..<n_frames p}. set (slots p f))"
  then obtain f off where b: "b = f * frame_size p + off" "f < n_frames p" "off \<in> set (slots p f)" by auto
  then have "off < frame_size p" using pim_okD(6) [OF assms] by blast
  with b block_lt block_in_frame pim_okD(2) [OF assms] show "b \<in> pim_free_set p"
    by (simp add: pim_free_set_def)
qed

lemma pim_free_card:
  assumes "pim_ok_but X n p"
  shows "nfree p = int (card (pim_free_set p))"
proof -
  let ?S = "SIGMA f:{..<n_frames p}. set (slots p f)"
  have "inj_on (\<lambda>(f, off). f * frame_size p + off) ?S"
  proof (rule inj_onI)
    fix x y :: "nat \<times> nat"
    assume xy: "x \<in> ?S" "y \<in> ?S"
      and eq: "(\<lambda>(f, off). f * frame_size p + off) x = (\<lambda>(f, off). f * frame_size p + off) y"
    from xy have "snd x < frame_size p" "snd y < frame_size p" using slot_lt [OF assms] by auto
    with eq pim_okD(2) [OF assms] show "x = y"
      by (metis block_in_frame case_prod_unfold prod.expand)
  qed
  then have "card (pim_free_set p) = card ?S"
    unfolding pim_free_set_frames [OF assms] by (rule card_image)
  also have "\<dots> = (\<Sum>f<n_frames p. room p f)"
    using pim_okD(5) [OF assms] by (simp add: card_SigmaI distinct_card)
  finally show ?thesis using pim_okD(7) [OF assms] by simp
qed

section \<open>Taking and returning one slot\<close>

definition take_slot :: "nat \<Rightarrow> pim \<Rightarrow> pim" where
  "take_slot f p = p\<lparr>frame_free := (frame_free p)[f := tl (slots p f)], nfree := nfree p - 1\<rparr>"

lemma sum_room_update:
  "f < n \<Longrightarrow> length ff = n \<Longrightarrow>
     (\<Sum>g<n. length (ff[f := h] ! g)) + length (ff ! f) = (\<Sum>g<n. length (ff ! g)) + length h"
  by (subst (1 2) sum.remove [of _ f]) (auto intro!: sum.cong)

lemma take_slot_ok:
  assumes ok: "pim_ok_but {f} n p" and f: "f < n_frames p" and ne: "slots p f \<noteq> []"
  shows "pim_ok n (take_slot f p)"
    and "f * frame_size p + hd (slots p f) \<in> pim_free_set p"
    and "pim_free_set (take_slot f p) = pim_free_set p - {f * frame_size p + hd (slots p f)}"
proof -
  note d = pim_okD [OF ok]
  obtain off h where h: "slots p f = off # h" using ne by (cases "slots p f") auto
  have len: "length (frame_free p) = n_frames p" by (rule d(3))
  have slots': "slots (take_slot f p) g = (if g = f then h else slots p g)" if "g < n_frames p" for g
    using that f len h by (simp add: take_slot_def nth_list_update)
  have off: "off < frame_size p" using d(6) [OF f] h by simp
  have h': "sorted h" "distinct h" "set h \<subseteq> {..<frame_size p}" "off \<notin> set h"
    using d(4-6) [OF f] h by auto
  have small: "length h < frame_size p"
    using card_mono [OF _ d(6) [OF f]] distinct_card [OF d(5) [OF f]] h by simp
  have sum: "(\<Sum>g<n_frames p. room (take_slot f p) g) + 1 = (\<Sum>g<n_frames p. room p g)"
    using sum_room_update [OF f len, of h] h by (simp add: take_slot_def)
  show "pim_ok n (take_slot f p)"
    unfolding pim_ok_but_def frames_ok_def hints_ok_def
  proof (intro conjI allI impI)
    show "nfree (take_slot f p) = int (\<Sum>g<n_frames (take_slot f p). room (take_slot f p) g)"
      using sum d(7) by (simp add: take_slot_def del: of_nat_sum)
    fix g assume "g < n_frames (take_slot f p)"
    then have g: "g < n_frames p" by (simp add: take_slot_def)
    show "sorted (slots (take_slot f p) g)" "distinct (slots (take_slot f p) g)"
      "set (slots (take_slot f p) g) \<subseteq> {..<frame_size (take_slot f p)}"
      using slots' [OF g] h' d(4-6) [OF g] by (simp_all add: take_slot_def)
    assume "room (take_slot f p) g = frame_size (take_slot f p)"
    then show "g \<in> set (empty_frames (take_slot f p))"
      using slots' [OF g] small d(10) [OF g] by (simp add: take_slot_def split: if_splits)
  qed (use d in \<open>auto simp: take_slot_def\<close>)
  show "f * frame_size p + hd (slots p f) \<in> pim_free_set p"
    using off f h block_lt [OF f off] d(2) by (simp add: pim_free_set_def)
  show "pim_free_set (take_slot f p) = pim_free_set p - {f * frame_size p + hd (slots p f)}"
  proof (intro set_eqI)
    fix b
    let ?g = "b div frame_size p"
    have eq: "b = f * frame_size p + off \<longleftrightarrow> ?g = f \<and> b mod frame_size p = off"
      using off d(2) by (metis block_in_frame div_mult_mod_eq)
    show "b \<in> pim_free_set (take_slot f p) \<longleftrightarrow> b \<in> pim_free_set p - {f * frame_size p + hd (slots p f)}"
    proof (cases "b < n_frames p * frame_size p")
      case False
      then show ?thesis by (simp add: pim_free_set_def take_slot_def)
    next
      case True
      then have "?g < n_frames p" by (rule div_frame_lt)
      from slots' [OF this] show ?thesis
        using h h'(4) eq True by (auto simp: pim_free_set_def take_slot_def)
    qed
  qed
qed

definition put_slot :: "nat \<Rightarrow> nat \<Rightarrow> pim \<Rightarrow> pim" where
  "put_slot f off p = (let p' = p\<lparr>frame_free := (frame_free p)[f := heappush off (slots p f)], nfree := nfree p + 1\<rparr>
     in if room p' f = frame_size p then p'\<lparr>empty_frames := heappush f (empty_frames p')\<rparr> else p')"

lemma pim_free_one_put: "f < length (frame_free p) \<Longrightarrow> off < frame_size p \<Longrightarrow>
    pim_free_one (f * frame_size p + off) p = (Inr (), put_slot f off p)"
  by (simp add: pim_free_one_def put_slot_def Let_def)

lemma put_slot_frames:
  "frame_free (put_slot f off p) = (frame_free p)[f := heappush off (slots p f)]"
  "nfree (put_slot f off p) = nfree p + 1" "frame_size (put_slot f off p) = frame_size p"
  "n_frames (put_slot f off p) = n_frames p" "affinity (put_slot f off p) = affinity p"
  "plans (put_slot f off p) = plans p"
  by (simp_all add: put_slot_def Let_def heappush_def)

lemma put_slot_empty_frames:
  "f < length (frame_free p) \<Longrightarrow> empty_frames (put_slot f off p) = (if Suc (room p f) = frame_size p
     then heappush f (empty_frames p) else empty_frames p)"
  by (simp_all add: put_slot_def Let_def heappush_def)

lemma put_slot_ok:
  assumes ok: "pim_ok n p" and f: "f < n_frames p" and off: "off < frame_size p" "off \<notin> set (slots p f)"
  shows "pim_ok n (put_slot f off p)"
    and "pim_free_set (put_slot f off p) = insert (f * frame_size p + off) (pim_free_set p)"
proof -
  note d = pim_okD [OF ok]
  have len: "f < length (frame_free p)" using d(3) f by simp
  note q = put_slot_frames [of f off p, unfolded heappush_def] put_slot_empty_frames [OF len, of off, unfolded heappush_def]
  have slots': "slots (put_slot f off p) g = (if g = f then insort off (slots p f) else slots p g)" for g
    using len by (simp add: q)
  have sum: "(\<Sum>g<n_frames p. room (put_slot f off p) g) = (\<Sum>g<n_frames p. room p g) + 1"
    using sum_room_update [OF f d(3), of "insort off (slots p f)"] by (simp add: q)
  show "pim_ok n (put_slot f off p)"
    unfolding pim_ok_but_def frames_ok_def hints_ok_def
  proof (intro conjI allI impI)
    show "nfree (put_slot f off p) = int (\<Sum>g<n_frames (put_slot f off p). room (put_slot f off p) g)"
      using sum d(7) by (simp add: q del: of_nat_sum)
    fix g assume "g < n_frames (put_slot f off p)"
    then have g: "g < n_frames p" by (simp add: q)
    show "sorted (slots (put_slot f off p) g)" "distinct (slots (put_slot f off p) g)"
      "set (slots (put_slot f off p) g) \<subseteq> {..<frame_size (put_slot f off p)}"
      using slots' [of g] off d(4-6) [OF g]
      by (cases "g = f"; simp add: put_slot_frames sorted_insort distinct_insort set_insort_key)+
    assume "room (put_slot f off p) g = frame_size (put_slot f off p)"
    then show "g \<in> set (empty_frames (put_slot f off p))"
      using slots' d(10) [OF g] by (auto simp: q set_insort_key split: if_splits)
  qed (use d f in \<open>auto simp: q sorted_insort set_insort_key split: if_splits\<close>)
  show "pim_free_set (put_slot f off p) = insert (f * frame_size p + off) (pim_free_set p)"
  proof (intro set_eqI)
    fix b
    have "b = f * frame_size p + off \<longleftrightarrow> b div frame_size p = f \<and> b mod frame_size p = off"
      using off d(2) by (metis block_in_frame div_mult_mod_eq)
    then show "b \<in> pim_free_set (put_slot f off p) \<longleftrightarrow> b \<in> insert (f * frame_size p + off) (pim_free_set p)"
      using slots' [of "b div frame_size p"] block_lt [OF f off(1)]
      by (auto simp: pim_free_set_def q set_insort_key)
  qed
qed

section \<open>The frame chosen has room\<close>

text \<open>What choosing a frame may change: the three hint structures.\<close>

definition same_frames :: "pim \<Rightarrow> pim \<Rightarrow> bool" where
  "same_frames p p' \<longleftrightarrow> frame_size p' = frame_size p \<and> n_frames p' = n_frames p
     \<and> frame_free p' = frame_free p \<and> nfree p' = nfree p"

lemma same_frames_ok: "same_frames p p' \<Longrightarrow> frames_ok p' = frames_ok p"
  by (simp add: same_frames_def frames_ok_def)

lemma same_frames_set: "same_frames p p' \<Longrightarrow> pim_free_set p' = pim_free_set p"
  by (simp add: same_frames_def pim_free_set_def)

lemma pim_ok_same_frames:
  "pim_ok_but X n p \<Longrightarrow> same_frames p p' \<Longrightarrow> hints_ok Y p' \<Longrightarrow> pim_ok_but Y n p'"
  using same_frames_ok [of p p'] by (simp add: pim_ok_but_def same_frames_def)

lemma pop_empty_found:
  "pop_empty p es = (Some f, rest) \<Longrightarrow> sorted es \<Longrightarrow> room p f = frame_size p \<and> f \<in> set es \<and> sorted rest
     \<and> set rest \<subseteq> set es \<and> (\<forall>g \<in> set es. room p g = frame_size p \<longrightarrow> g \<noteq> f \<longrightarrow> g \<in> set rest)
     \<and> (\<forall>g \<in> set es. room p g = frame_size p \<longrightarrow> f \<le> g)"
  by (induction es) (auto split: if_splits)

lemma pop_empty_none:
  "pop_empty p es = (None, rest) \<Longrightarrow> rest = [] \<and> (\<forall>g \<in> set es. room p g \<noteq> frame_size p)"
  by (induction es) (auto split: if_splits)

lemma most_free_scan:
  "case fold (\<lambda>f (best, best_free). if room p f > best_free then (Some f, room p f) else (best, best_free))
     [0..<n] (None, 0) of
     (None, r) \<Rightarrow> r = 0 \<and> (\<forall>g < n. room p g = 0)
   | (Some f, r) \<Rightarrow> f < n \<and> r = room p f \<and> 0 < r \<and> (\<forall>g < n. room p g \<le> r \<and> (room p g = r \<longrightarrow> f \<le> g))"
proof (induction n)
  case 0
  then show ?case by simp
next
  case (Suc n)
  then show ?case
    by (auto split: prod.splits option.splits if_splits simp: less_Suc_eq simp del: length_greater_0_conv)
qed

lemma most_free_spec:
  "case most_free p of
     None \<Rightarrow> (\<forall>f < n_frames p. room p f = 0)
   | Some f \<Rightarrow> f < n_frames p \<and> 0 < room p f
       \<and> (\<forall>g < n_frames p. room p g \<le> room p f \<and> (room p g = room p f \<longrightarrow> f \<le> g))"
  using most_free_scan [where p = p and n = "n_frames p"]
  by (auto simp: most_free_def split: prod.splits option.splits)

text \<open>A picked frame: it has room, only hints changed, and it alone may be whole but unlisted.\<close>

definition picked :: "nat \<Rightarrow> pim \<Rightarrow> nat \<Rightarrow> pim \<Rightarrow> bool" where
  "picked n p f p' \<longleftrightarrow> same_frames p p' \<and> f < n_frames p \<and> slots p f \<noteq> [] \<and> pim_ok_but {f} n p'"

lemma pick_new_ok:
  assumes ok: "pim_ok n p" and room: "pim_free_set p \<noteq> {}"
  shows "\<exists>f p'. pick_new k p = (Inr f, p') \<and> picked n p f p'"
proof (cases "pop_empty p (empty_frames p)")
  case (Pair found rest)
  note d = pim_okD [OF ok]
  show ?thesis
  proof (cases found)
    case (Some f)
    let ?p' = "p\<lparr>empty_frames := rest, affinity := AList.update k f (affinity p)\<rparr>"
    note e = pop_empty_found [OF Pair [unfolded Some] d(8)]
    have f: "f < n_frames p" "slots p f \<noteq> []" using e d(2,9) by auto
    have "hints_ok {f} ?p'"
      unfolding hints_ok_def
    proof (intro conjI allI impI)
      fix g assume g: "g < n_frames ?p'" "room ?p' g = frame_size ?p'" "g \<notin> {f}"
      then have "g \<in> set (empty_frames p)" using d(10) [of g] by simp
      then show "g \<in> set (empty_frames ?p')" using e g by simp
    qed (use d e f in \<open>auto split: if_splits\<close>)
    then have "pim_ok_but {f} n ?p'"
      by (rule pim_ok_same_frames [OF ok, rotated]) (simp add: same_frames_def)
    with f show ?thesis
      using Pair Some by (intro exI [of _ f] exI [of _ ?p']) (simp add: pick_new_def picked_def same_frames_def)
  next
    case None
    let ?p1 = "p\<lparr>empty_frames := rest\<rparr>"
    have rest: "rest = []" and full: "\<forall>g \<in> set (empty_frames p). room p g \<noteq> frame_size p"
      using pop_empty_none Pair None by blast+
    obtain b where b: "b \<in> pim_free_set p" using room by auto
    then have "b div frame_size p < n_frames p" "slots p (b div frame_size p) \<noteq> []"
      using div_frame_lt by (auto simp: pim_free_set_def)
    then obtain f where f: "most_free ?p1 = Some f" "f < n_frames p" "0 < room p f"
      using most_free_spec [of ?p1] by (cases "most_free ?p1") auto
    let ?p' = "?p1\<lparr>affinity := AList.update k f (affinity p)\<rparr>"
    have "hints_ok {f} ?p'"
      unfolding hints_ok_def
    proof (intro conjI allI impI)
      fix g assume g: "g < n_frames ?p'" "room ?p' g = frame_size ?p'" "g \<notin> {f}"
      then show "g \<in> set (empty_frames ?p')" using d(10) [of g] full by simp
    qed (use d f rest in \<open>auto split: if_splits\<close>)
    then have "pim_ok_but {f} n ?p'"
      by (rule pim_ok_same_frames [OF ok, rotated]) (simp add: same_frames_def)
    with f show ?thesis
      using Pair None by (intro exI [of _ f] exI [of _ ?p']) (simp add: pick_new_def picked_def same_frames_def)
  qed
qed

lemma picked_self:
  "pim_ok n p \<Longrightarrow> f < n_frames p \<Longrightarrow> slots p f \<noteq> [] \<Longrightarrow> picked n p f p"
  by (auto simp: picked_def same_frames_def pim_ok_but_def hints_ok_def)

lemma pick_unplanned_ok:
  assumes ok: "pim_ok n p" and room: "pim_free_set p \<noteq> {}"
  shows "\<exists>f p'. pick_unplanned k p = (Inr f, p') \<and> picked n p f p'"
  using pick_new_ok [OF assms, of k] pim_okD(11) [OF ok, of k] picked_self [OF ok]
  by (auto simp: pick_unplanned_def split: option.splits)

lemma pick_frame_ok:
  assumes ok: "pim_ok n p" and room: "pim_free_set p \<noteq> {}"
  shows "\<exists>f p'. pick_frame k p = (Inr f, p') \<and> picked n p f p'"
proof (cases "map_of (plans p) k")
  case None
  then show ?thesis using pick_unplanned_ok [OF assms] by (simp add: pick_frame_def)
next
  case (Some planned)
  let ?rest = "dropWhile (\<lambda>f. slots p f = []) planned"
  have sub: "set ?rest \<subseteq> {..<n_frames p}"
    using pim_okD(12) [OF ok Some] by (auto dest: set_dropWhileD)
  show ?thesis
  proof (cases "planned = [] \<or> ?rest \<noteq> []")
    case True
    show ?thesis
    proof (cases "planned = []")
      case True
      then show ?thesis using Some pick_unplanned_ok [OF assms] by (simp add: pick_frame_def)
    next
      case False
      with True have ne: "?rest \<noteq> []" by simp
      let ?p' = "p\<lparr>plans := AList.update k ?rest (plans p)\<rparr>"
      have f: "hd ?rest < n_frames p" using sub hd_in_set [OF ne] by blast
      moreover have "slots p (hd ?rest) \<noteq> []" using hd_dropWhile [OF ne] by simp
      moreover have "hints_ok {hd ?rest} ?p'"
        using ok sub by (auto simp: pim_ok_but_def hints_ok_def)
      then have "pim_ok_but {hd ?rest} n ?p'"
        by (rule pim_ok_same_frames [OF ok, rotated]) (simp add: same_frames_def)
      ultimately show ?thesis
        using Some False ne
        by (intro exI [of _ "hd ?rest"] exI [of _ ?p']) (simp add: pick_frame_def picked_def same_frames_def Let_def)
    qed
  next
    case False
    let ?p1 = "p\<lparr>plans := AList.delete k (plans p)\<rparr>"
    have "hints_ok {} ?p1"
      using ok by (auto simp: pim_ok_but_def hints_ok_def)
    then have "pim_ok n ?p1"
      by (rule pim_ok_same_frames [OF ok, rotated]) (simp add: same_frames_def)
    moreover have "pim_free_set ?p1 \<noteq> {}"
      using room by (simp add: pim_free_set_def)
    ultimately obtain f p' where "pick_unplanned k ?p1 = (Inr f, p')" "picked n ?p1 f p'"
      using pick_unplanned_ok by blast
    then show ?thesis
      using Some False by (auto simp: pick_frame_def picked_def same_frames_def)
  qed
qed

lemma alloc_one_picked:
  "pick_frame k p = (Inr f, p') \<Longrightarrow> slots p' f \<noteq> [] \<Longrightarrow>
     pim_alloc_one k p = (Inr (f * frame_size p' + hd (slots p' f)), take_slot f p')"
  by (simp add: pim_alloc_one_def prog_simps take_slot_def)

interpretation pim: block_policy pim_ops pim_free_set pim_ok
proof (unfold_locales, goal_cases)
  case (1 n p)
  then show ?case by (simp add: pim_ops_def pim_free_card)
next
  case (2 n p k)
  then obtain f p' where f: "pick_frame k p = (Inr f, p')" "picked n p f p'"
    using pick_frame_ok by blast
  then have p': "same_frames p p'" "f < n_frames p'" "slots p' f \<noteq> []" "pim_ok_but {f} n p'"
    by (auto simp: picked_def same_frames_def)
  show ?case
    using alloc_one_picked [OF f(1) p'(3)] take_slot_ok [OF p'(4,2,3)] same_frames_set [OF p'(1)]
    by (simp add: pim_ops_def)
next
  case (3 n p b)
  note d = pim_okD [OF 3(1)]
  let ?f = "b div frame_size p" and ?off = "b mod frame_size p"
  have f: "?f < n_frames p" "?off < frame_size p" using 3(2) d(1,2) by (simp_all add: div_frame_lt)
  moreover have "?off \<notin> set (slots p ?f)" using 3(2,3) d(1) by (simp add: pim_free_set_def)
  ultimately show ?case
    using pim_free_one_put [of ?f p ?off] put_slot_ok [OF 3(1), of ?f ?off] d(3)
    by (simp add: pim_ops_def)
qed

end
