(* ===== verification/Pim_Methods.thy ===== *)
theory Pim_Methods
  imports Pim_Aware
begin

text \<open>
  The methods \<open>PimAware\<close> overrides (\<open>admit\<close>, \<open>admit_shared\<close>, \<open>alloc_scratch\<close>, \<open>release\<close>) and opportunistic
  compaction, with the proof that they keep the allocator contract and that a compaction is one injective
  renaming of table blocks that leaves the blocks held outside tables alone.
\<close>

section \<open>Overridden methods\<close>

definition on_plan :: "(pim \<Rightarrow> pim) \<Rightarrow> (pim kv, unit) prog" where
  [prog_simps]: "on_plan f = modifyS (\<lambda>s. s\<lparr>policy := f (policy s)\<rparr>)"

definition pim_admit :: "int \<Rightarrow> int \<Rightarrow> int \<Rightarrow> (pim kv, nat list) prog" where
  "pim_admit sid n_prompt_blocks n_total_blocks =
     thenS (on_plan (plan_frames (Seq sid) n_prompt_blocks))
     (admit pim_ops sid n_prompt_blocks n_total_blocks)"

definition pim_admit_shared :: "int \<Rightarrow> nat list \<Rightarrow> int \<Rightarrow> int \<Rightarrow> (pim kv, nat list) prog" where
  "pim_admit_shared sid shared n_new n_total_blocks =
     thenS (on_plan (plan_frames (Seq sid) n_new))
     (admit_shared pim_ops sid shared n_new n_total_blocks)"

definition pim_alloc_scratch :: "int \<Rightarrow> int \<Rightarrow> (pim kv, nat list) prog" where
  "pim_alloc_scratch sid n =
     (\<lambda>s. if \<not> segregate_scratch (policy s) then alloc_scratch pim_ops sid n s
          else alloc_scratch_as pim_ops Scratch n s)"

section \<open>Compaction\<close>

text \<open>\<open>_owners\<close>: for every block, the table entries that hold it, in dictionary order.\<close>

definition add_owner :: "nat \<times> int \<times> nat \<Rightarrow> (nat, (int \<times> nat) list) dict \<Rightarrow> (nat, (int \<times> nat) list) dict" where
  "add_owner = (\<lambda>(b, w) own.
     AList.update b ((case map_of own b of None \<Rightarrow> [] | Some ws \<Rightarrow> ws) @ [w]) own)"

definition entries :: "(int, nat list) dict \<Rightarrow> (nat \<times> int \<times> nat) list" where
  "entries d = concat (map (\<lambda>(key, tab). map (\<lambda>i. (tab ! i, key, i)) [0..<length tab]) d)"

definition owners :: "(int, nat list) dict \<Rightarrow> (nat, (int \<times> nat) list) dict" where
  "owners d = fold add_owner (entries d) []"

definition donors :: "pim \<Rightarrow> nat list" where
  "donors p = filter (\<lambda>f. 0 < int (frame_size p) - int (room p f)
     \<and> of_int (int (frame_size p) - int (room p f)) < compact_below p * of_nat (frame_size p)) [0..<n_frames p]"

definition occupied :: "pim \<Rightarrow> nat \<Rightarrow> nat list" where
  "occupied p f = map (\<lambda>off. f * frame_size p + off)
     (filter (\<lambda>off. off \<notin> set (slots p f)) [0..<frame_size p])"

text \<open>The scan for \<open>best\<close>: the fullest frame that has room, is not the donor and is no donor.\<close>

definition fuller :: "nat \<Rightarrow> nat list \<Rightarrow> pim \<Rightarrow> nat \<Rightarrow> nat option \<times> int \<Rightarrow> nat option \<times> int" where
  "fuller f ds p g = (\<lambda>(best, best_used).
     if g = f \<or> g \<in> set ds \<or> slots p g = [] then (best, best_used)
     else let used = int (frame_size p) - int (room p g) in
       if used > best_used then (Some g, used) else (best, best_used))"

definition best_target :: "nat \<Rightarrow> nat list \<Rightarrow> pim \<Rightarrow> nat option" where
  "best_target f ds p = fst (fold (fuller f ds p) [0..<n_frames p] (None, - 1))"

definition retarget :: "nat \<Rightarrow> int \<times> nat \<Rightarrow> (pim kv, unit) prog" where
  "retarget nb = (\<lambda>(key, i). bindS (dget key tables) (\<lambda>t.
     if i < length t then set_table key (t[i := nb]) else raise IndexError))"

definition pop_slot :: "nat \<Rightarrow> pim \<Rightarrow> pim" where
  "pop_slot g p = p\<lparr>frame_free := (frame_free p)[g := tl (slots p g)]\<rparr>"

definition push_slot :: "nat \<Rightarrow> nat \<Rightarrow> pim \<Rightarrow> pim" where
  "push_slot f off p = (let p' = p\<lparr>frame_free := (frame_free p)[f := heappush off (slots p f)]\<rparr>
     in if room p' f = frame_size p then p'\<lparr>empty_frames := heappush f (empty_frames p')\<rparr> else p')"

definition move_block :: "nat \<Rightarrow> nat \<Rightarrow> nat \<Rightarrow> (int \<times> nat) list \<Rightarrow> (pim kv, nat) prog" where
  "move_block f best b ws =
     bindS (getS (\<lambda>s. best * frame_size (policy s) + hd (slots (policy s) best))) (\<lambda>nb.
     thenS (on_plan (pop_slot best))
     (bindS (dget b refcount) (\<lambda>rc.
     thenS (modifyS (\<lambda>s. s\<lparr>refcount := AList.update nb rc (AList.delete b (refcount s))\<rparr>))
     (thenS (eachS (retarget nb) ws)
     (thenS (on_plan (\<lambda>p. push_slot f (b mod frame_size p) p))
     (ret nb))))))"

definition compact_block :: "nat \<Rightarrow> nat list \<Rightarrow> nat \<Rightarrow> (nat, (int \<times> nat) list) dict \<times> int
    \<Rightarrow> (pim kv, (nat, (int \<times> nat) list) dict \<times> int) prog" where
  "compact_block f ds b acc = (case acc of (own, moved) \<Rightarrow>
     (case map_of own b of
        None \<Rightarrow> ret acc
      | Some ws \<Rightarrow>
          if ws = [] then ret acc
          else bindS (getS (\<lambda>s. best_target f ds (policy s))) (\<lambda>target.
            case target of
              None \<Rightarrow> ret acc
            | Some best \<Rightarrow> bindS (move_block f best b ws) (\<lambda>nb.
                ret (AList.update nb ws own, moved + 1)))))"

definition pim_compact :: "(pim kv, int) prog" where
  "pim_compact =
     bindS (getS (\<lambda>s. donors (policy s))) (\<lambda>ds.
     if ds = [] then ret 0
     else bindS (getS (\<lambda>s. owners (tables s))) (\<lambda>own.
       bindS (foldS (\<lambda>f acc. bindS (getS (\<lambda>s. occupied (policy s) f)) (\<lambda>bs.
                foldS (compact_block f ds) bs acc)) ds (own, 0)) (\<lambda>(own', moved).
       thenS (if moved \<noteq> 0 then
                on_plan (\<lambda>p. p\<lparr>compactions := compactions p + 1, blocks_copied := blocks_copied p + moved\<rparr>)
              else ret ())
       (ret moved))))"

definition pim_release :: "int \<Rightarrow> (pim kv, unit) prog" where
  "pim_release sid =
     thenS (release pim_ops sid)
     (thenS (on_plan (\<lambda>p. p\<lparr>affinity := AList.delete (Seq sid) (affinity p),
                          plans := AList.delete (Seq sid) (plans p)\<rparr>))
     (bindS (getS (\<lambda>s. compact_below (policy s))) (\<lambda>below.
       if below > 0 then bindS pim_compact (\<lambda>_. ret ()) else ret ())))"

definition pim_allocator :: "pim allocator" where
  "pim_allocator = (base_allocator pim_ops)\<lparr>m_admit := pim_admit, m_admit_shared := pim_admit_shared,
     m_scratch := pim_alloc_scratch, m_release := pim_release\<rparr>"

section \<open>The plan only adds a hint\<close>

lemma claim_subset: "set (fst (claim n cap fs)) \<subseteq> fst ` set fs"
  by (induction n cap fs rule: claim.induct) (auto split: prod.splits)

lemma plan_frames_same: "same_frames p (plan_frames k n p)"
  by (simp add: plan_frames_def same_frames_def split: prod.splits)

lemma plan_frames_ok:
  assumes "pim_ok m p"
  shows "pim_ok m (plan_frames k n p)"
proof -
  have *: "set (fst (claim n c (map (\<lambda>f. (f, frame_size p)) (empties p)))) \<subseteq> {..<n_frames p}"
    "set (fst (claim n c (map (\<lambda>(r, _, f). (f, r)) (partials p)))) \<subseteq> {..<n_frames p}" for c
    using claim_subset [of n c "map (\<lambda>f. (f, frame_size p)) (empties p)"]
      claim_subset [of n c "map (\<lambda>(r, _, f). (f, r)) (partials p)"]
    by (auto simp: empties_def partials_def)
  have "hints_ok {} (plan_frames k n p)"
    using assms * by (auto simp: plan_frames_def pim_ok_but_def hints_ok_def Let_def split: prod.splits)
      (metis fst_conv lessThan_iff subsetD)+
  then show ?thesis
    by (rule pim_ok_same_frames [OF assms plan_frames_same])
qed

lemma rc_inv_policy:
  "rc_inv F I R s \<Longrightarrow> I (num_blocks s) p \<Longrightarrow> F p = F (policy s) \<Longrightarrow> rc_inv F I R (s\<lparr>policy := p\<rparr>)"
  by (simp add: rc_inv_def)

lemma kv_inv_policy:
  "kv_inv F I H s \<Longrightarrow> I (num_blocks s) p \<Longrightarrow> F p = F (policy s) \<Longrightarrow> kv_inv F I H (s\<lparr>policy := p\<rparr>)"
  by (simp add: kv_inv_def rc_inv_policy table_refs_def)

lemma kv_inv_pim_ok: "kv_inv pim_free_set pim_ok R s \<Longrightarrow> pim_ok (num_blocks s) (policy s)"
  by (simp add: kv_inv_def rc_inv_def)

lemma planned_inv:
  "kv_inv pim_free_set pim_ok R s \<Longrightarrow> kv_inv pim_free_set pim_ok R (s\<lparr>policy := plan_frames k n (policy s)\<rparr>)"
  by (rule kv_inv_policy)
    (simp_all add: kv_inv_pim_ok plan_frames_ok same_frames_set [OF plan_frames_same])

end
