(* ===== verification/Pim_Contract.thy ===== *)
theory Pim_Contract
  imports Pim_Methods
begin

text \<open>
  \<open>PimAware\<close> keeps the allocator contract, compaction included: owners are the exact table positions of a
  block, moving a block renames it in every table that shares it, and a whole compaction is one injective
  renaming that fixes the blocks held outside tables.
\<close>

section \<open>Owners and renaming\<close>

definition positions :: "(int, nat list) dict \<Rightarrow> nat \<Rightarrow> (int \<times> nat) list" where
  "positions d b = map snd (filter (\<lambda>x. fst x = b) (entries d))"

definition rename :: "(nat \<Rightarrow> nat) \<Rightarrow> (int, nat list) dict \<Rightarrow> (int, nat list) dict" where
  "rename r d = map (\<lambda>(k, t). (k, map r t)) d"

definition swap_in :: "nat \<Rightarrow> nat \<Rightarrow> nat \<Rightarrow> nat" where
  "swap_in b nb x = (if x = b then nb else x)"

lemma fold_add_owner:
  "map_of (fold add_owner xs own) c =
     (let new = map snd (filter (\<lambda>x. fst x = c) xs) in
      if new = [] then map_of own c
      else Some ((case map_of own c of None \<Rightarrow> [] | Some ws \<Rightarrow> ws) @ new))"
  by (induction xs arbitrary: own) (auto simp: add_owner_def Let_def split: option.splits)

lemma owners_positions: "map_of (owners d) c = (if positions d c = [] then None else Some (positions d c))"
  by (simp add: owners_def fold_add_owner positions_def Let_def)

lemma in_positions: "(k, i) \<in> set (positions d b) \<longleftrightarrow> (\<exists>t. (k, t) \<in> set d \<and> i < length t \<and> t ! i = b)"
  by (force simp: positions_def entries_def)

lemma in_table_refs: "b \<in># dsum mset d \<longleftrightarrow> (\<exists>k t. (k, t) \<in> set d \<and> b \<in> set t)"
proof -
  have "b \<in># dsum mset d \<longleftrightarrow> (\<exists>x \<in> set d. b \<in> set (snd x))"
    by (induction d) auto
  then show ?thesis by force
qed

lemma positions_nonempty: "positions d b \<noteq> [] \<longleftrightarrow> b \<in># dsum mset d"
proof -
  have "positions d b \<noteq> [] \<longleftrightarrow> (\<exists>k i. (k, i) \<in> set (positions d b))"
    by (cases "positions d b") auto
  also have "\<dots> \<longleftrightarrow> b \<in># dsum mset d"
    unfolding in_positions in_table_refs by (metis in_set_conv_nth)
  finally show ?thesis .
qed

lemma entries_rename: "entries (rename r d) = map (\<lambda>(x, w). (r x, w)) (entries d)"
  by (induction d) (auto simp: entries_def rename_def)

lemma positions_swap_in: "c \<noteq> b \<Longrightarrow> c \<noteq> nb \<Longrightarrow> positions (rename (swap_in b nb) d) c = positions d c"
proof -
  assume c: "c \<noteq> b" "c \<noteq> nb"
  then have "(swap_in b nb x = c) = (x = c)" for x by (auto simp: swap_in_def)
  then show ?thesis
    by (simp add: positions_def entries_rename filter_map comp_def case_prod_unfold)
qed

lemma keys_rename [simp]: "map fst (rename r d) = map fst d"
  by (simp add: rename_def comp_def case_prod_unfold)

lemma map_of_rename: "map_of (rename r d) k = map_option (map r) (map_of d k)"
  by (induction d) (auto simp: rename_def)

lemma rename_rename: "rename r (rename r' d) = rename (r \<circ> r') d"
  by (simp add: rename_def case_prod_unfold)

lemma rename_id [simp]: "rename id d = d"
  by (simp add: rename_def)

lemma same_shape_rename: "same_shape d (rename r d)"
  by (simp add: same_shape_def rename_def comp_def case_prod_unfold)

lemma dsum_rename: "dsum mset (rename r d) = image_mset r (dsum mset d)"
  by (induction d) (auto simp: rename_def)

section \<open>Rewriting the table entries\<close>

definition put_all :: "nat \<Rightarrow> (int \<times> nat) list \<Rightarrow> (int, nat list) dict \<Rightarrow> (int, nat list) dict" where
  "put_all nb ws d = map (\<lambda>(k, t). (k, map (\<lambda>i. if (k, i) \<in> set ws then nb else t ! i) [0..<length t])) d"

lemma put_all_Nil [simp]: "put_all nb [] d = d"
  by (simp add: put_all_def map_nth)

lemma put_all_Cons:
  assumes "dict_ok d" and "map_of d k = Some t" and "i < length t"
  shows "put_all nb ((k, i) # ws) d = put_all nb ws (AList.update k (t[i := nb]) d)"
proof -
  have "x = t" if "(k, x) \<in> set d" for x
    using that assms(1,2) by (metis map_of_is_SomeI option.inject)
  then show ?thesis
    unfolding put_all_def update_present [OF assms(1,2)]
    by (auto simp: nth_list_update intro!: map_cong)
qed

lemma retarget_all:
  "dict_ok (tables s) \<Longrightarrow> (\<forall>(k, i) \<in> set ws. \<exists>t. map_of (tables s) k = Some t \<and> i < length t) \<Longrightarrow>
     eachS (retarget nb) ws s = (Inr (), s\<lparr>tables := put_all nb ws (tables s)\<rparr>)"
proof (induction ws arbitrary: s)
  case Nil
  then show ?case by (simp add: prog_simps)
next
  case (Cons w ws)
  obtain k i where w: "w = (k, i)" by (cases w)
  with Cons.prems obtain t where t: "map_of (tables s) k = Some t" "i < length t" by auto
  let ?s1 = "s\<lparr>tables := AList.update k (t[i := nb]) (tables s)\<rparr>"
  have "retarget nb w s = (Inr (), ?s1)"
    using t w by (simp add: retarget_def prog_simps)
  moreover have "\<forall>(k, i) \<in> set ws. \<exists>t. map_of (tables ?s1) k = Some t \<and> i < length t"
  proof clarify
    fix k' i' assume "(k', i') \<in> set ws"
    with Cons.prems(2) obtain t' where "map_of (tables s) k' = Some t'" "i' < length t'" by auto
    then show "\<exists>t. map_of (tables ?s1) k' = Some t \<and> i' < length t"
      using t by (cases "k' = k") auto
  qed
  then have "eachS (retarget nb) ws ?s1 = (Inr (), ?s1\<lparr>tables := put_all nb ws (tables ?s1)\<rparr>)"
    using Cons.prems(1) by (intro Cons.IH) simp_all
  ultimately show ?case
    using put_all_Cons [OF Cons.prems(1) t, of nb ws] w by (simp add: prog_simps)
qed

lemma put_all_positions:
  assumes "dict_ok d"
  shows "put_all nb (positions d b) d = rename (swap_in b nb) d"
  unfolding put_all_def rename_def
proof (rule map_cong [OF refl])
  fix kt' assume mem: "kt' \<in> set d"
  obtain k t where kt': "kt' = (k, t)" by (rule prod.exhaust)
  with mem have kt: "(k, t) \<in> set d" by simp
  then have u: "x = t" if "(k, x) \<in> set d" for x
    using that assms by (metis map_of_is_SomeI option.inject)
  have "(k, i) \<in> set (positions d b) \<longleftrightarrow> t ! i = b" if "i < length t" for i
    unfolding in_positions using that kt u by blast
  then have "map (\<lambda>i. if (k, i) \<in> set (positions d b) then nb else t ! i) [0..<length t] = map (swap_in b nb) t"
    by (intro nth_equalityI) (simp_all add: swap_in_def)
  then show "(case kt' of (k, t) \<Rightarrow> (k, map (\<lambda>i. if (k, i) \<in> set (positions d b) then nb else t ! i) [0..<length t]))
      = (case kt' of (k, t) \<Rightarrow> (k, map (swap_in b nb) t))" by (simp add: kt')
qed

lemma retarget_positions:
  assumes "dict_ok (tables s)"
  shows "eachS (retarget nb) (positions (tables s) b) s
    = (Inr (), s\<lparr>tables := rename (swap_in b nb) (tables s)\<rparr>)"
proof -
  have "\<forall>(k, i) \<in> set (positions (tables s) b). \<exists>t. map_of (tables s) k = Some t \<and> i < length t"
    using assms by (auto simp: in_positions)
  from retarget_all [OF assms this] show ?thesis
    by (simp add: put_all_positions [OF assms])
qed

section \<open>The invariant of a PimAware pool\<close>

text \<open>A block held outside the tables has exactly that one reference.\<close>

definition held_once :: "holdings \<Rightarrow> 'p kv \<Rightarrow> bool" where
  "held_once H s \<longleftrightarrow> (\<forall>b \<in># held H. count (held H) b = 1 \<and> b \<notin># table_refs s)"

definition pim_inv :: "holdings \<Rightarrow> pim kv \<Rightarrow> bool" where
  "pim_inv H s \<longleftrightarrow> kv_inv pim_free_set pim_ok (held H) s \<and> held_once H s"

lemma image_swap_in:
  "image_mset (swap_in b nb) R = {#x \<in># R. x \<noteq> b#} + replicate_mset (count R b) nb"
  by (induction R) (auto simp: swap_in_def)

lemma rc_inv_move:
  assumes inv: "rc_inv F I R s" and b: "b \<in># R" and nb: "nb \<notin># R" "nb < num_blocks s"
    and p: "I (num_blocks s) p" "F p = insert b (F (policy s) - {nb})"
  shows "rc_inv F I (image_mset (swap_in b nb) R)
    (s\<lparr>policy := p, refcount := AList.update nb (int (count R b)) (AList.delete b (refcount s))\<rparr>)"
proof (rule rc_invI)
  note d = rc_invD [OF inv]
  let ?s' = "s\<lparr>policy := p, refcount := AList.update nb (int (count R b)) (AList.delete b (refcount s))\<rparr>"
  let ?R' = "image_mset (swap_in b nb) R"
  have ne: "b \<noteq> nb" using b nb by auto
  have cnt: "count ?R' x = (if x = nb then count R b else if x = b then 0 else count R x)" for x
    using nb(1) ne by (auto simp: image_swap_in not_in_iff)
  have some: "map_of (refcount s) b = Some (int (count R b))" by (rule d(3) [OF b])
  show "I (num_blocks ?s') (policy ?s')" using p(1) by simp
  show "dict_ok (refcount ?s')" using d(2) by simp
  have mem: "set_mset ?R' = insert nb (set_mset R - {b})"
    using b by (auto simp: swap_in_def image_iff)
  show "map_of (refcount ?s') x = (if x \<in># ?R' then Some (int (count ?R' x)) else None)" for x
    using d(3,4) [of x] b ne nb(1) unfolding mem cnt by auto
  show "set_mset ?R' \<subseteq> {..<num_blocks ?s'}" unfolding mem using d(5) nb(2) by auto
  show "F (policy ?s') = {..<num_blocks ?s'} - set_mset ?R'"
    unfolding mem using p(2) d(5,6) b ne by auto
  have "map_of (AList.delete b (refcount s)) nb = None" using d(4) [OF nb(1)] ne by simp
  then have "length (refcount ?s') = length (refcount s)"
    using length_update_new [of "AList.delete b (refcount s)" nb] length_delete [OF d(2) some] by simp
  then show "allocated_total ?s' - freed_total ?s' = int (length (refcount ?s'))" using d(7) by simp
qed

lemma pim_ok_weaken: "pim_ok n p \<Longrightarrow> pim_ok_but X n p"
  by (auto simp: pim_ok_but_def hints_ok_def)

lemma push_pop: "push_slot f off (pop_slot g p) = put_slot f off (take_slot g p)"
  by (simp add: push_slot_def pop_slot_def put_slot_def take_slot_def Let_def)

text \<open>What no policy step touches: the shape of the pool and the compaction settings.\<close>

definition same_pool :: "pim \<Rightarrow> pim \<Rightarrow> bool" where
  "same_pool p p' \<longleftrightarrow> frame_size p' = frame_size p \<and> n_frames p' = n_frames p \<and> nfree p' = nfree p
     \<and> compactions p' = compactions p \<and> blocks_copied p' = blocks_copied p"

lemma same_pool_push_pop: "same_pool p (push_slot f off (pop_slot g p))"
  by (simp add: same_pool_def push_slot_def pop_slot_def Let_def)

lemma move_block_ok:
  assumes inv: "pim_inv H s" and p: "p = policy s"
    and f: "f < n_frames p" and g: "g < n_frames p" "g \<noteq> f" "slots p g \<noteq> []"
    and b: "b div frame_size p = f" "b \<in># table_refs s"
    and nb: "nb = g * frame_size p + hd (slots p g)"
  obtains s' where "move_block f g b (positions (tables s) b) s = (Inr nb, s')"
    and "tables s' = rename (swap_in b nb) (tables s)" and "nb \<notin># refs H s" and "nb div frame_size p = g"
    and "num_blocks s' = num_blocks s" and "same_pool p (policy s')" and "pim_inv H s'"
proof -
  let ?off = "b mod frame_size p"
  let ?p' = "push_slot f ?off (pop_slot g p)"
  let ?R = "table_refs s + held H"
  have kv: "kv_inv pim_free_set pim_ok (held H) s" and ho: "held_once H s"
    using inv by (simp_all add: pim_inv_def)
  note d = pim.kv_invD [OF kv]
  note r = rc_invD [OF d(2)]
  have ok: "pim_ok (num_blocks s) p" using r(1) p by simp
  note o = pim_okD [OF ok]
  have bR: "b \<in># ?R" using b(2) by simp
  then have bF: "b \<notin> pim_free_set p" and bn: "b < num_blocks s" using r(5,6) p by auto
  note t = take_slot_ok [OF pim_ok_weaken [OF ok] g(1,3)]
  have off: "?off < frame_size p" using o(2) by simp
  have "?off \<notin> set (slots p f)" using bF bn o(1) b(1) by (simp add: pim_free_set_def)
  then have "?off \<notin> set (slots (take_slot g p) f)" using g(2) by (simp add: take_slot_def)
  moreover have "f < n_frames (take_slot g p)" "?off < frame_size (take_slot g p)"
    using f off by (simp_all add: take_slot_def)
  note put = put_slot_ok [OF t(1) this(1,2) calculation]
  have ok': "pim_ok (num_blocks s) ?p'" using put(1) by (simp add: push_pop)
  have "b div frame_size p * frame_size p + ?off = b" by simp
  then have "f * frame_size (take_slot g p) + ?off = b" unfolding b(1) by (simp add: take_slot_def)
  then have F': "pim_free_set ?p' = insert b (pim_free_set p - {nb})"
    using put(2) t(3) nb by (simp add: push_pop)
  have nbF: "nb \<in> pim_free_set p" using t(2) nb by simp
  then have nbR: "nb \<notin># ?R" "nb < num_blocks s" using r(6) p by auto
  have "hd (slots p g) < frame_size p" using slot_lt [OF ok g(1)] g(3) by simp
  then have div: "nb div frame_size p = g" using nb o(2) by simp
  have some: "map_of (refcount s) b = Some (int (count ?R b))" by (rule r(3) [OF bR])
  let ?s' = "s\<lparr>policy := ?p', refcount := AList.update nb (int (count ?R b)) (AList.delete b (refcount s)),
    tables := rename (swap_in b nb) (tables s)\<rparr>"
  have run: "move_block f g b (positions (tables s) b) s = (Inr nb, ?s')"
    using some p nb retarget_positions [of "s\<lparr>policy := pop_slot g p,
        refcount := AList.update nb (int (count ?R b)) (AList.delete b (refcount s))\<rparr>" nb b] d(1)
    by (simp add: move_block_def prog_simps) (simp add: pop_slot_def)
  have "swap_in b nb x = x" if "x \<in># held H" for x
    using ho b(2) that by (auto simp: held_once_def swap_in_def)
  then have "image_mset (swap_in b nb) (held H) = held H"
    using image_mset_cong [of "held H" "swap_in b nb" id] by simp
  then have refs': "table_refs ?s' + held H = image_mset (swap_in b nb) ?R"
    by (simp add: table_refs_def dsum_rename)
  have "rc_inv pim_free_set pim_ok (image_mset (swap_in b nb) ?R) ?s'"
    using rc_inv_move [OF d(2) bR nbR ok'] F' p by (simp add: rc_inv_def)
  then have "kv_inv pim_free_set pim_ok (held H) ?s'"
    using d(1) refs' by (simp add: kv_inv_def)
  moreover have "held_once H ?s'"
    using ho nbR(1) by (auto simp: held_once_def table_refs_def dsum_rename swap_in_def)
  ultimately show ?thesis
    using run nbR(1) div same_pool_push_pop
    by (intro that [of ?s']) (simp_all add: pim_inv_def refs_def)
qed

section \<open>A whole compaction\<close>

lemma fuller_cases:
  "fuller f ds p g acc = acc
   \<or> (fst (fuller f ds p g acc) = Some g \<and> g \<noteq> f \<and> g \<notin> set ds \<and> slots p g \<noteq> [])"
  by (cases acc) (simp add: fuller_def Let_def)

lemma best_target_scan:
  "fst (fold (fuller f ds p) gs acc) = Some g \<Longrightarrow>
     fst acc = Some g \<or> (g \<in> set gs \<and> g \<noteq> f \<and> g \<notin> set ds \<and> slots p g \<noteq> [])"
proof (induction gs arbitrary: acc)
  case Nil
  then show ?case by simp
next
  case (Cons h gs)
  from Cons.prems Cons.IH [of "fuller f ds p h acc"] fuller_cases [of f ds p h acc] show ?case by auto
qed

lemma best_target_ok:
  "best_target f ds p = Some g \<Longrightarrow> g < n_frames p \<and> g \<noteq> f \<and> g \<notin> set ds \<and> slots p g \<noteq> []"
  unfolding best_target_def by (drule best_target_scan) simp

text \<open>
  The compaction so far, started in \<open>s0\<close>: \<open>r\<close> renames the tables injectively and fixes the held blocks;
  the owners recorded for the blocks \<open>B\<close> still to be visited are their current table positions.
\<close>

definition renamed_by :: "(nat \<Rightarrow> nat) \<Rightarrow> holdings \<Rightarrow> pim kv \<Rightarrow> pim kv \<Rightarrow> bool" where
  "renamed_by r H s0 s \<longleftrightarrow> tables s = rename r (tables s0) \<and> inj_on r (set_mset (refs H s0))
     \<and> (\<forall>b \<in># held H. r b = b) \<and> num_blocks s = num_blocks s0"

definition owners_ok :: "nat set \<Rightarrow> (nat, (int \<times> nat) list) dict \<Rightarrow> pim kv \<Rightarrow> bool" where
  "owners_ok B own s \<longleftrightarrow> (\<forall>b \<in> B. map_of own b
     = (if positions (tables s) b = [] then None else Some (positions (tables s) b)))"

definition compacting ::
  "holdings \<Rightarrow> nat list \<Rightarrow> pim kv \<Rightarrow> nat set \<Rightarrow> (nat, (int \<times> nat) list) dict \<Rightarrow> pim kv \<Rightarrow> bool" where
  "compacting H ds s0 B own s \<longleftrightarrow> pim_inv H s \<and> same_pool (policy s0) (policy s)
     \<and> (\<exists>r. renamed_by r H s0 s) \<and> owners_ok B own s"

lemma renamed_by_step:
  assumes r: "renamed_by r H s0 s" and t: "tables s' = rename (swap_in b nb) (tables s)"
    and n: "num_blocks s' = num_blocks s" and nb: "nb \<notin># refs H s" and b: "b \<notin># held H"
  shows "renamed_by (swap_in b nb \<circ> r) H s0 s'"
proof -
  have refs: "set_mset (refs H s) = r ` set_mset (refs H s0)"
  proof -
    have "r ` set_mset (held H) = id ` set_mset (held H)"
      by (rule image_cong) (use r in \<open>auto simp: renamed_by_def\<close>)
    then have "r ` set_mset (held H) = set_mset (held H)" by simp
    moreover have "set_mset (table_refs s) = r ` set_mset (table_refs s0)"
      using r by (simp add: renamed_by_def table_refs_def dsum_rename)
    ultimately show ?thesis by (simp add: refs_def image_Un)
  qed
  have "inj_on (swap_in b nb) (set_mset (refs H s))"
    using nb by (auto simp: inj_on_def swap_in_def)
  then have "inj_on (swap_in b nb \<circ> r) (set_mset (refs H s0))"
    using r refs by (intro comp_inj_on) (auto simp: renamed_by_def)
  moreover have "(swap_in b nb \<circ> r) x = x" if "x \<in># held H" for x
    using r b that by (auto simp: renamed_by_def swap_in_def)
  ultimately show ?thesis
    using r t n by (simp add: renamed_by_def rename_rename)
qed

lemma compact_block_ok:
  assumes c: "compacting H ds s0 B own s" and b: "b \<in> B" "b div frame_size (policy s0) = f"
    and B: "\<forall>x \<in> B. x div frame_size (policy s0) \<in> set ds" and f: "f < n_frames (policy s0)"
  shows "\<exists>own' m' s'. compact_block f ds b (own, m) s = (Inr (own', m'), s') \<and> m \<le> m'
     \<and> compacting H ds s0 (B - {b}) own' s'"
proof (cases "positions (tables s) b = [] \<or> best_target f ds (policy s) = None")
  case True
  then have "compact_block f ds b (own, m) s = (Inr (own, m), s)"
    using c b(1) by (auto simp: compact_block_def compacting_def owners_ok_def prog_simps)
  moreover have "compacting H ds s0 (B - {b}) own s"
    using c by (auto simp: compacting_def owners_ok_def)
  ultimately show ?thesis by blast
next
  case False
  then obtain g where g: "best_target f ds (policy s) = Some g" by auto
  let ?p = "policy s"
  have pool: "frame_size ?p = frame_size (policy s0)" "n_frames ?p = n_frames (policy s0)"
    using c by (simp_all add: compacting_def same_pool_def)
  note t = best_target_ok [OF g]
  have inv: "pim_inv H s" using c by (simp add: compacting_def)
  have bt: "b \<in># table_refs s" using False positions_nonempty by (simp add: table_refs_def)
  define nb where "nb = g * frame_size ?p + hd (slots ?p g)"
  obtain s' where s': "move_block f g b (positions (tables s) b) s = (Inr nb, s')"
      "tables s' = rename (swap_in b nb) (tables s)" "nb \<notin># refs H s" "nb div frame_size ?p = g"
      "num_blocks s' = num_blocks s" "same_pool ?p (policy s')" "pim_inv H s'"
    by (rule move_block_ok [OF inv refl, of f g b nb]) (use t f pool b(2) bt nb_def in auto)
  let ?own = "AList.update nb (positions (tables s) b) own"
  have own: "map_of own b = Some (positions (tables s) b)"
    using c b(1) False by (simp add: compacting_def owners_ok_def)
  have run: "compact_block f ds b (own, m) s = (Inr (?own, m + 1), s')"
    using own False g s'(1) by (simp add: compact_block_def prog_simps)
  have "b \<notin># held H" using inv bt by (auto simp: pim_inv_def held_once_def)
  then have "\<exists>r. renamed_by r H s0 s'"
    using c renamed_by_step [OF _ s'(2,5,3)] by (auto simp: compacting_def)
  moreover have "same_pool (policy s0) (policy s')"
    using c s'(6) by (simp add: compacting_def same_pool_def)
  moreover have "owners_ok (B - {b}) ?own s'"
    unfolding owners_ok_def
  proof
    fix x assume x: "x \<in> B - {b}"
    then have "x div frame_size ?p \<in> set ds" using B pool by simp
    then have "x \<noteq> nb" using s'(4) t by auto
    then show "map_of ?own x = (if positions (tables s') x = [] then None else Some (positions (tables s') x))"
      using x c positions_swap_in [of x b nb "tables s"] by (simp add: compacting_def owners_ok_def s'(2))
  qed
  ultimately show ?thesis
    using run s'(7) by (intro exI [of _ ?own] exI [of _ "m + 1"] exI [of _ s']) (simp add: compacting_def)
qed

lemma compact_frame_ok:
  assumes "compacting H ds s0 B own s" and "set bs \<subseteq> B" and "distinct bs"
    and "\<forall>b \<in> set bs. b div frame_size (policy s0) = f"
    and "\<forall>x \<in> B. x div frame_size (policy s0) \<in> set ds" and "f < n_frames (policy s0)"
  shows "\<exists>own' m' s'. foldS (compact_block f ds) bs (own, m) s = (Inr (own', m'), s') \<and> m \<le> m'
     \<and> compacting H ds s0 (B - set bs) own' s'"
  using assms
proof (induction bs arbitrary: B own m s)
  case Nil
  then show ?case by (simp add: prog_simps)
next
  case (Cons b bs)
  from Cons.prems compact_block_ok [of H ds s0 B own s b f m] obtain own1 m1 s1 where
    s1: "compact_block f ds b (own, m) s = (Inr (own1, m1), s1)" "m \<le> m1"
      "compacting H ds s0 (B - {b}) own1 s1" by auto
  have "set bs \<subseteq> B - {b}" using Cons.prems(2,3) by auto
  with Cons.prems Cons.IH [OF s1(3), of m1] obtain own' m' s' where
    "foldS (compact_block f ds) bs (own1, m1) s1 = (Inr (own', m'), s')" "m1 \<le> m'"
    "compacting H ds s0 (B - {b} - set bs) own' s'" by auto
  with s1 show ?case
    by (auto simp: prog_simps Diff_insert2 [symmetric] intro!: exI [of _ own'] exI [of _ m'] exI [of _ s'])
qed

lemma occupied_frame: "b \<in> set (occupied p f) \<Longrightarrow> 0 < frame_size p \<Longrightarrow> b div frame_size p = f"
  by (auto simp: occupied_def)

lemma occupied_distinct: "distinct (occupied p f)"
  by (simp add: occupied_def distinct_map inj_on_def)

definition compact_frame :: "nat list \<Rightarrow> nat \<Rightarrow> (nat, (int \<times> nat) list) dict \<times> int
    \<Rightarrow> (pim kv, (nat, (int \<times> nat) list) dict \<times> int) prog" where
  "compact_frame ds f acc = bindS (getS (\<lambda>s. occupied (policy s) f)) (\<lambda>bs. foldS (compact_block f ds) bs acc)"

lemma compact_frames_ok:
  assumes "compacting H ds s0 {b. b div frame_size (policy s0) \<in> set fs} own s" and "set fs \<subseteq> set ds"
    and "distinct fs" and "set ds \<subseteq> {..<n_frames (policy s0)}" and "0 < frame_size (policy s0)"
  shows "\<exists>own' m' s'. foldS (compact_frame ds) fs (own, m) s = (Inr (own', m'), s') \<and> m \<le> m'
     \<and> compacting H ds s0 {} own' s'"
  using assms
proof (induction fs arbitrary: own m s)
  case Nil
  then show ?case by (simp add: prog_simps)
next
  case (Cons f fs)
  let ?bs = "occupied (policy s) f"
  let ?B = "{b. b div frame_size (policy s0) \<in> set (f # fs)}"
  have size: "frame_size (policy s) = frame_size (policy s0)"
    using Cons.prems(1) by (simp add: compacting_def same_pool_def)
  have bs: "\<forall>b \<in> set ?bs. b div frame_size (policy s0) = f"
    using occupied_frame [of _ "policy s" f] size Cons.prems(5) by auto
  have "\<exists>own' m' s'. foldS (compact_block f ds) ?bs (own, m) s = (Inr (own', m'), s') \<and> m \<le> m'
     \<and> compacting H ds s0 (?B - set ?bs) own' s'"
    by (rule compact_frame_ok [OF Cons.prems(1) _ occupied_distinct bs]) (use bs Cons.prems in auto)
  then obtain own1 m1 s1 where s1: "foldS (compact_block f ds) ?bs (own, m) s = (Inr (own1, m1), s1)" "m \<le> m1"
      "compacting H ds s0 (?B - set ?bs) own1 s1" by blast
  have "{b. b div frame_size (policy s0) \<in> set fs} \<subseteq> ?B - set ?bs" using bs Cons.prems(3) by auto
  then have "compacting H ds s0 {b. b div frame_size (policy s0) \<in> set fs} own1 s1"
    using s1(3) by (auto simp: compacting_def owners_ok_def)
  from Cons.IH [OF this, of m1] Cons.prems obtain own' m' s' where
    "foldS (compact_frame ds) fs (own1, m1) s1 = (Inr (own', m'), s')" "m1 \<le> m'"
    "compacting H ds s0 {} own' s'" by auto
  moreover have "compact_frame ds f (own, m) s = (Inr (own1, m1), s1)"
    using s1(1) by (simp add: compact_frame_def prog_simps)
  ultimately show ?case using s1(2)
    by (intro exI [of _ own'] exI [of _ m'] exI [of _ s']) (simp add: prog_simps)
qed

text \<open>Compaction on any well-formed pool: it never raises, and it renames.\<close>

lemma pim_compact_spec:
  assumes inv: "pim_inv H s"
  obtains m s' r where "pim_compact s = (Inr m, s')" and "0 \<le> m" and "renamed_by r H s s'"
    and "pim_inv H s'" and "nfree (policy s') = nfree (policy s)"
    and "blocks_copied (policy s') = blocks_copied (policy s) + m"
proof (cases "donors (policy s) = []")
  case True
  moreover have "renamed_by id H s s" by (simp add: renamed_by_def)
  ultimately show ?thesis
    using inv that [of 0 s id] by (simp add: pim_compact_def prog_simps)
next
  case False
  let ?ds = "donors (policy s)"
  have kv: "kv_inv pim_free_set pim_ok (held H) s" using inv by (simp add: pim_inv_def)
  have ds: "set ?ds \<subseteq> {..<n_frames (policy s)}" "distinct ?ds" by (auto simp: donors_def)
  have pos: "0 < frame_size (policy s)" using pim_okD(2) [OF kv_inv_pim_ok [OF kv]] .
  have "renamed_by id H s s" by (simp add: renamed_by_def)
  then have "compacting H ?ds s {b. b div frame_size (policy s) \<in> set ?ds} (owners (tables s)) s"
    using inv by (auto simp: compacting_def same_pool_def owners_ok_def owners_positions)
  from compact_frames_ok [OF this subset_refl ds(2,1) pos, of 0] obtain own m s1 where
    s1: "foldS (compact_frame ?ds) ?ds (owners (tables s), 0) s = (Inr (own, m), s1)" "0 \<le> m"
      "compacting H ?ds s {} own s1" by blast
  from s1(3) obtain r where r: "renamed_by r H s s1" "pim_inv H s1" "same_pool (policy s) (policy s1)"
    by (auto simp: compacting_def)
  have fr: "compact_frame ?ds = (\<lambda>f acc. bindS (getS (\<lambda>s. occupied (policy s) f)) (\<lambda>bs. foldS (compact_block f ?ds) bs acc))"
    by (simp add: compact_frame_def fun_eq_iff)
  let ?s' = "if m \<noteq> 0 then s1\<lparr>policy := policy s1\<lparr>compactions := compactions (policy s1) + 1,
    blocks_copied := blocks_copied (policy s1) + m\<rparr>\<rparr> else s1"
  have "pim_compact s = (Inr m, ?s')"
    using False s1(1) unfolding pim_compact_def fr by (simp add: prog_simps)
  moreover have "pim_inv H ?s'"
  proof -
    have "pim_ok (num_blocks s1) (policy s1\<lparr>compactions := c, blocks_copied := d\<rparr>)" for c d
      using kv_inv_pim_ok [of "held H" s1] r(2) by (simp add: pim_inv_def pim_ok_but_def frames_ok_def hints_ok_def)
    then show ?thesis
      using r(2) kv_inv_policy [of pim_free_set pim_ok "held H" s1]
      by (simp add: pim_inv_def held_once_def table_refs_def pim_free_set_def)
  qed
  ultimately show ?thesis
    using s1(2) r by (intro that [of m ?s' r]) (simp_all add: renamed_by_def same_pool_def)
qed

section \<open>The contract\<close>

lemma held_once_shrink:
  "held_once H s \<Longrightarrow> H' \<subseteq># H \<Longrightarrow> (\<And>b. b \<in># held H' \<Longrightarrow> b \<notin># table_refs s') \<Longrightarrow> held_once H' s'"
proof -
  assume ho: "held_once H s" and H': "H' \<subseteq># H" and t: "\<And>b. b \<in># held H' \<Longrightarrow> b \<notin># table_refs s'"
  have sub: "held H' \<subseteq># held H" using H' by (rule image_mset_subseteq_mono)
  have "count (held H') b = 1" if "b \<in># held H'" for b
  proof -
    have "b \<in># held H" using that sub by (rule mset_subset_eqD [rotated])
    then have "count (held H) b = 1" using ho by (auto simp: held_once_def)
    moreover have "count (held H') b \<le> count (held H) b" using sub by (rule mset_subset_eq_count)
    moreover have "0 < count (held H') b" using that by simp
    ultimately show ?thesis by linarith
  qed
  then show ?thesis using t by (auto simp: held_once_def)
qed

lemma held_once_tables:
  "held_once H s \<Longrightarrow> (\<And>b. b \<in># held H \<Longrightarrow> b \<notin># table_refs s \<Longrightarrow> b \<notin># table_refs s') \<Longrightarrow> held_once H s'"
  by (auto simp: held_once_def)

lemma held_once_add:
  assumes "held_once H s" and "fresh bs H s" and "same_tables s s'"
  shows "held_once (H + tag sid bs) s'"
proof -
  have "count (held (H + tag sid bs)) b = 1 \<and> b \<notin># table_refs s'" if b: "b \<in># held (H + tag sid bs)" for b
  proof (cases "b \<in> set bs")
    case True
    then have "b \<notin># refs H s" and "distinct bs" using assms(2) by (auto simp: fresh_def)
    then have "count (held H) b = 0" "b \<notin># table_refs s" "count (mset bs) b = 1"
      using True by (auto simp: refs_def count_eq_zero_iff distinct_count_atmost_1)
    then show ?thesis using table_refs_same [OF assms(3)] by simp
  next
    case False
    then have "count (mset bs) b = 0" by (simp add: count_eq_zero_iff)
    moreover from False b have "b \<in># held H" by auto
    then have "count (held H) b = 1 \<and> b \<notin># table_refs s"
      using assms(1) unfolding held_once_def by blast
    ultimately show ?thesis
      using table_refs_same [OF assms(3)] by simp
  qed
  then show ?thesis by (auto simp: held_once_def)
qed

lemma table_refs_update_new:
  "map_of (tables s) sid = None \<Longrightarrow> tables s' = AList.update sid bs (tables s) \<Longrightarrow>
     table_refs s' = table_refs s + mset bs"
  by (simp add: table_refs_def dsum_update_new)

lemma pim_free_eq [simp]: "num_free pim_ops s = nfree (policy s)"
  by (simp add: num_free_def pim_ops_def)

lemma planned_facts:
  assumes "pim_inv H s" and "s1 = s\<lparr>policy := plan_frames k n (policy s)\<rparr>"
  shows "kv_inv pim_free_set pim_ok (held H) s1" "held_once H s1" "tables s1 = tables s"
    "num_blocks s1 = num_blocks s" "nfree (policy s1) = nfree (policy s)" "refs H s1 = refs H s"
    "table_refs s1 = table_refs s"
  using assms planned_inv [of "held H" s k n] plan_frames_same [of "policy s" k n]
  by (simp_all add: pim_inv_def held_once_def table_refs_def refs_def same_frames_def)

lemma pim_admit_law:
  assumes inv: "pim_inv H s" and n: "0 \<le> n"
  shows "case pim_admit sid n t s of
      (Inl e, s') \<Rightarrow> e = (if map_of (tables s) sid = None then AdmissionFailure else ValueError)
          \<and> (e = AdmissionFailure \<longrightarrow> nfree (policy s) < n) \<and> same_tables s s'
          \<and> nfree (policy s') = nfree (policy s) \<and> pim_inv H s'
    | (Inr bs, s') \<Rightarrow> map_of (tables s) sid = None \<and> length bs = nat n \<and> fresh bs H s
          \<and> tables s' = AList.update sid bs (tables s) \<and> num_blocks s' = num_blocks s
          \<and> nfree (policy s') = nfree (policy s) - n \<and> pim_inv H s'"
proof -
  define s1 where "s1 = s\<lparr>policy := plan_frames (Seq sid) n (policy s)\<rparr>"
  note f = planned_facts [OF inv s1_def]
  have run: "pim_admit sid n t s = admit pim_ops sid n t s1"
    by (simp add: pim_admit_def prog_simps s1_def)
  show ?thesis
  proof (cases "admit pim_ops sid n t s1")
    case (Pair r s')
    show ?thesis
    proof (cases r)
      case (Inl e)
      with Pair pim.base_admit [OF f(1) n, of sid t] f show ?thesis
        by (simp add: run same_tables_def pim_inv_def)
    next
      case (Inr bs)
      with Pair pim.base_admit [OF f(1) n, of sid t]
      have sp: "map_of (tables s) sid = None" "length bs = nat n" "fresh bs H s1"
          "tables s' = AList.update sid bs (tables s)" "num_blocks s' = num_blocks s"
          "nfree (policy s') = nfree (policy s) - n" "kv_inv pim_free_set pim_ok (held H) s'"
        using f by auto
      have "table_refs s' = table_refs s1 + mset bs"
        using table_refs_update_new [of s1 sid s' bs] sp f by simp
      then have "held_once H s'"
        using sp(3) by (intro held_once_tables [OF f(2)]) (auto simp: fresh_def refs_def)
      with sp f show ?thesis
        using Pair Inr by (simp add: run pim_inv_def fresh_def)
    qed
  qed
qed

lemma pim_admit_shared_law:
  assumes inv: "pim_inv H s" and n: "0 \<le> n" and sh: "set shared \<subseteq> set_mset (table_refs s)"
  shows "case pim_admit_shared sid shared n t s of
      (Inl e, s') \<Rightarrow> e = (if map_of (tables s) sid = None then AdmissionFailure else ValueError)
          \<and> (e = AdmissionFailure \<longrightarrow> nfree (policy s) < n) \<and> same_tables s s'
          \<and> nfree (policy s') = nfree (policy s) \<and> pim_inv H s'
    | (Inr bs, s') \<Rightarrow> map_of (tables s) sid = None
          \<and> (\<exists>new. bs = shared @ new \<and> length new = nat n \<and> fresh new H s)
          \<and> tables s' = AList.update sid bs (tables s) \<and> num_blocks s' = num_blocks s
          \<and> nfree (policy s') = nfree (policy s) - n \<and> pim_inv H s'"
proof -
  define s1 where "s1 = s\<lparr>policy := plan_frames (Seq sid) n (policy s)\<rparr>"
  note f = planned_facts [OF inv s1_def]
  have run: "pim_admit_shared sid shared n t s = admit_shared pim_ops sid shared n t s1"
    by (simp add: pim_admit_shared_def prog_simps s1_def)
  have sh1: "set shared \<subseteq> set_mset (table_refs s1)" using sh f by simp
  note base = pim.base_admit_shared [OF f(1) n sh1, of sid t]
  show ?thesis
  proof (cases "admit_shared pim_ops sid shared n t s1")
    case (Pair r s')
    show ?thesis
    proof (cases r)
      case (Inl e)
      with Pair base f show ?thesis by (simp add: run same_tables_def pim_inv_def)
    next
      case (Inr bs)
      with Pair base f obtain new where sp: "map_of (tables s) sid = None" "bs = shared @ new"
          "length new = nat n" "fresh new H s1" "tables s' = AList.update sid bs (tables s)"
          "num_blocks s' = num_blocks s" "nfree (policy s') = nfree (policy s) - n"
          "kv_inv pim_free_set pim_ok (held H) s'"
        by auto
      have "table_refs s' = table_refs s1 + mset bs"
        using table_refs_update_new [of s1 sid s' bs] sp f by simp
      then have "held_once H s'"
        using sp(2,4) sh1 by (intro held_once_tables [OF f(2)]) (auto simp: fresh_def refs_def)
      with sp f show ?thesis
        using Pair Inr by (auto simp: run pim_inv_def fresh_def)
    qed
  qed
qed

lemma pim_release_law:
  assumes inv: "pim_inv H s"
  shows "case pim_release sid s of
      (Inl e, s') \<Rightarrow> e = KeyError \<and> s' = s \<and> map_of (tables s) sid = None
    | (Inr _, s') \<Rightarrow> map_of (tables s) sid \<noteq> None \<and> same_shape (AList.delete sid (tables s)) (tables s')
          \<and> num_blocks s' = num_blocks s \<and> nfree (policy s) \<le> nfree (policy s') \<and> pim_inv H s'"
proof -
  have kv: "kv_inv pim_free_set pim_ok (held H) s" and ho: "held_once H s"
    using inv by (simp_all add: pim_inv_def)
  show ?thesis
  proof (cases "release pim_ops sid s")
    case (Pair r s1)
    show ?thesis
    proof (cases r)
      case (Inl e)
      with Pair pim.base_release [OF kv, of sid] show ?thesis
        by (simp add: pim_release_def prog_simps)
    next
      case (Inr u)
      with Pair pim.base_release [OF kv, of sid]
      have sp: "map_of (tables s) sid \<noteq> None" "tables s1 = AList.delete sid (tables s)"
          "num_blocks s1 = num_blocks s" "nfree (policy s) \<le> nfree (policy s1)"
          "kv_inv pim_free_set pim_ok (held H) s1"
        by auto
      define p2 where "p2 = policy s1\<lparr>affinity := AList.delete (Seq sid) (affinity (policy s1)),
        plans := AList.delete (Seq sid) (plans (policy s1))\<rparr>"
      have same: "same_frames (policy s1) p2" by (simp add: p2_def same_frames_def)
      have "hints_ok {} p2"
        using kv_inv_pim_ok [OF sp(5)] by (auto simp: p2_def pim_ok_but_def hints_ok_def)
      then have "kv_inv pim_free_set pim_ok (held H) (s1\<lparr>policy := p2\<rparr>)"
        using pim_ok_same_frames [OF kv_inv_pim_ok [OF sp(5)] same]
        by (intro kv_inv_policy [OF sp(5)]) (simp_all add: same_frames_set [OF same])
      moreover have "held_once H (s1\<lparr>policy := p2\<rparr>)"
      proof (rule held_once_tables [OF ho])
        fix b assume "b \<notin># table_refs s"
        moreover obtain tab where "map_of (tables s) sid = Some tab" using sp(1) by auto
        then have "table_refs s = table_refs s1 + mset tab"
          using table_refs_delete [OF pim.kv_invD(1) [OF kv]] sp(2) by (simp add: table_refs_def)
        ultimately show "b \<notin># table_refs (s1\<lparr>policy := p2\<rparr>)" by (simp add: table_refs_def)
      qed
      ultimately have inv2: "pim_inv H (s1\<lparr>policy := p2\<rparr>)" by (simp add: pim_inv_def)
      have nf: "nfree p2 = nfree (policy s1)" using same by (simp add: same_frames_def)
      have run: "pim_release sid s = (if compact_below p2 > 0
          then bindS pim_compact (\<lambda>_. ret ()) (s1\<lparr>policy := p2\<rparr>) else (Inr (), s1\<lparr>policy := p2\<rparr>))"
        using Pair Inr by (simp add: pim_release_def prog_simps p2_def)
      show ?thesis
      proof (cases "compact_below p2 > 0")
        case False
        with run sp nf inv2 show ?thesis by simp
      next
        case True
        obtain m s' r where c: "pim_compact (s1\<lparr>policy := p2\<rparr>) = (Inr m, s')"
            "renamed_by r H (s1\<lparr>policy := p2\<rparr>) s'" "pim_inv H s'" "nfree (policy s') = nfree p2"
          by (rule pim_compact_spec [OF inv2]) simp
        with True run have "pim_release sid s = (Inr (), s')" by (simp add: prog_simps)
        then show ?thesis
          using c sp nf same_shape_rename by (auto simp: renamed_by_def)
      qed
    qed
  qed
qed

interpretation pim_calls: kv_contract pim_allocator pim_inv
proof (unfold_locales, goal_cases)
  case (1 H s)
  then show ?case
    using pim.assert_conservation_ok [of "held H" s]
    by (simp add: pim_allocator_def base_allocator_def pim_inv_def)
next
  case (2 H s)
  then have kv: "kv_inv pim_free_set pim_ok (held H) s" by (simp add: pim_inv_def)
  show ?case
    using pim.base.free_law [OF kv] by (simp add: pim_allocator_def base_allocator_def)
next
  case (3 s)
  then show ?case
    using pim.base.idle_law [of s] by (simp add: pim_allocator_def base_allocator_def pim_inv_def)
next
  case (4 H s n t sid)
  then show ?case using pim_admit_law [of H s n sid t]
    by (auto simp: pim_allocator_def base_allocator_def split: prod.splits sum.splits)
next
  case (5 H s n shared sid t)
  then show ?case using pim_admit_shared_law [of H s n shared sid t]
    by (auto simp: pim_allocator_def base_allocator_def split: prod.splits sum.splits)
next
  case (6 H s sid tab)
  then have kv: "kv_inv pim_free_set pim_ok (held H) s" and ho: "held_once H s" by (simp_all add: pim_inv_def)
  show ?case
  proof (cases "append_block pim_ops sid s")
    case (Pair r s')
    show ?thesis
    proof (cases r)
      case (Inl e)
      with Pair pim.base_append [OF kv 6(2)] show ?thesis
        by (simp add: pim_allocator_def base_allocator_def)
    next
      case (Inr b)
      with Pair pim.base_append [OF kv 6(2)] have sp: "fresh [b] H s"
          "tables s' = AList.update sid (tab @ [b]) (tables s)" "num_blocks s' = num_blocks s"
          "nfree (policy s') = nfree (policy s) - 1" "kv_inv pim_free_set pim_ok (held H) s'" by auto
      have "table_refs s' + mset tab = table_refs s + mset (tab @ [b])"
        using table_refs_old [OF pim.kv_invD(1) [OF kv] 6(2), of "tab @ [b]"] sp(2) by (simp add: table_refs_def)
      then have "table_refs s' = add_mset b (table_refs s)" by simp
      then have "held_once H s'"
        using sp(1) by (intro held_once_tables [OF ho]) (auto simp: fresh_def refs_def)
      with sp Pair Inr show ?thesis
        by (simp add: pim_allocator_def base_allocator_def pim_inv_def)
    qed
  qed
next
  case (7 H s child parent)
  then have kv: "kv_inv pim_free_set pim_ok (held H) s" and ho: "held_once H s" by (simp_all add: pim_inv_def)
  show ?case
  proof (cases "fork parent child s")
    case (Pair r s')
    show ?thesis
    proof (cases r)
      case (Inl e)
      with Pair show ?thesis
        using pim.fork_spec [OF kv 7(3), of parent] by (simp add: pim_allocator_def base_allocator_def)
    next
      case (Inr u)
      with Pair pim.fork_spec [OF kv 7(3), of parent] obtain tab where sp:
          "map_of (tables s) parent = Some tab" "tables s' = AList.update child tab (tables s)"
          "policy s' = policy s" "num_blocks s' = num_blocks s" "kv_inv pim_free_set pim_ok (held H) s'"
        by auto
      have "mset tab \<subseteq># table_refs s"
        using table_refs_delete [OF pim.kv_invD(1) [OF kv] sp(1)] by simp
      then have "set tab \<subseteq> set_mset (table_refs s)" by (auto dest: mset_subset_eqD)
      then have "held_once H s'"
        using table_refs_update_new [OF 7(3) sp(2)] by (intro held_once_tables [OF ho]) auto
      with sp Pair Inr show ?thesis
        by (simp add: pim_allocator_def base_allocator_def pim_inv_def)
    qed
  qed
next
  case (8 H s n sid)
  then have kv: "kv_inv pim_free_set pim_ok (held H) s" and ho: "held_once H s" by (simp_all add: pim_inv_def)
  define k where "k = (if segregate_scratch (policy s) then Scratch else Seq sid)"
  have run: "pim_alloc_scratch sid n s = alloc_scratch_as pim_ops k n s"
    by (simp add: pim_alloc_scratch_def k_def alloc_scratch_def)
  show ?case
    using pim.base_scratch [OF kv 8(3), where k = k and sid = sid] held_once_add [OF ho]
    by (auto simp: pim_allocator_def base_allocator_def run pim_inv_def split: prod.splits sum.splits)
next
  case (9 H s sid n)
  then show ?case by (simp add: pim_allocator_def base_allocator_def)
next
  case (10 H s sid bs)
  then have kv: "kv_inv pim_free_set pim_ok (held H) s" and ho: "held_once H s" by (simp_all add: pim_inv_def)
  from pim.base_unref [OF kv 10(3)] obtain s' where sp: "unref_blocks pim_ops bs s = (Inr (), s')"
      "same_tables s s'" "nfree (policy s) \<le> nfree (policy s')"
      "kv_inv pim_free_set pim_ok (held (H - tag sid bs)) s'" by auto
  have "held_once (H - tag sid bs) s'"
    using ho table_refs_same [OF sp(2)]
    by (intro held_once_shrink [OF ho]) (auto simp: held_once_def dest!: in_diffD)
  with sp show ?case by (auto simp: pim_allocator_def base_allocator_def pim_inv_def)
next
  case (11 H s sid tab w branches replace_tail keep)
  then have kv: "kv_inv pim_free_set pim_ok (held H) s" and ho: "held_once H s" by (simp_all add: pim_inv_def)
  let ?H' = "H - tag sid (concat branches)"
  from pim.base_adopt [OF kv 11(3-6), of keep] obtain s' where
    sp: "spec_round_adopt pim_ops sid replace_tail w keep branches s = (Inr (), s')"
      "tables s' = AList.update sid ((if replace_tail then butlast tab else tab)
         @ slice_to keep (branches ! w)) (tables s)" "num_blocks s' = num_blocks s"
      "nfree (policy s) \<le> nfree (policy s')" "kv_inv pim_free_set pim_ok (held ?H') s'" by auto
  let ?t = "(if replace_tail then butlast tab else tab) @ slice_to keep (branches ! w)"
  have "held_once ?H' s'"
  proof (rule held_once_shrink [OF ho])
    show "?H' \<subseteq># H" by simp
    fix b assume b: "b \<in># held ?H'"
    have held': "held ?H' = held H - mset (concat branches)" by (rule held_diff_tag [OF 11(5)])
    have "b \<in># held H" using b unfolding held' by (rule in_diffD)
    then have one: "count (held H) b = 1" "b \<notin># table_refs s" using ho by (auto simp: held_once_def)
    have "0 < count (held H) b - count (mset (concat branches)) b"
      using b unfolding held' by (simp only: count_diff [symmetric] count_greater_zero_iff)
    with one have "b \<notin> set (concat branches)"
      by (metis One_nat_def count_mset_0_iff diff_is_0_eq' less_numeral_extra(3) not_less_eq_eq zero_le
          le_zero_eq not_less0 Suc_leI neq0_conv)
    then have "b \<notin> set (slice_to keep (branches ! w))"
      using 11(4) by (auto simp: slice_to_def dest!: in_set_takeD intro: nth_mem)
    moreover have "mset tab \<subseteq># table_refs s"
      using table_refs_delete [OF pim.kv_invD(1) [OF kv] 11(3)] by simp
    then have "b \<notin> set tab" using one(2) by (auto dest: mset_subset_eqD)
    moreover have "table_refs s' + mset tab = table_refs s + mset ?t"
      using table_refs_old [OF pim.kv_invD(1) [OF kv] 11(3), of ?t] sp(2) by (simp add: table_refs_def)
    then have "b \<in># table_refs s' \<Longrightarrow> b \<in># table_refs s \<or> b \<in> set ?t"
      by (metis set_mset_mset union_iff)
    ultimately show "b \<notin># table_refs s'"
      using one(2) by (auto split: if_splits dest: in_set_butlastD)
  qed
  with sp show ?case by (auto simp: pim_allocator_def base_allocator_def pim_inv_def)
next
  case (12 H s sid tab bs)
  then have kv: "kv_inv pim_free_set pim_ok (held H) s" and ho: "held_once H s" by (simp_all add: pim_inv_def)
  have sub: "tag sid bs \<subseteq># H" using 12(3) by (metis multiset_filter_subset)
  from pim.base_unref [OF kv sub] obtain s1 where sp: "unref_blocks pim_ops bs s = (Inr (), s1)"
      "same_tables s s1" "nfree (policy s) \<le> nfree (policy s1)"
      "kv_inv pim_free_set pim_ok (held (H - tag sid bs)) s1" by auto
  have "held_once (H - tag sid bs) s1"
    using ho table_refs_same [OF sp(2)]
    by (intro held_once_shrink [OF ho]) (auto simp: held_once_def dest!: in_diffD)
  with sp(4) have "pim_inv (H - tag sid bs) s1" by (simp add: pim_inv_def)
  from pim_release_law [OF this, of sid] sp 12(2) show ?case
    by (auto simp: pim_allocator_def base_allocator_def prog_simps same_tables_def split: prod.splits sum.splits)
next
  case (13 H s sid)
  then show ?case using pim_release_law [of H s sid]
    by (auto simp: pim_allocator_def base_allocator_def split: prod.splits sum.splits)
next
  case (14 H s b)
  then have "kv_inv pim_free_set pim_ok (held H) s" by (simp add: pim_inv_def)
  then show ?case by (rule pim.base.range_law) (rule 14(2))
qed

lemma pim_init:
  "PimAware n g seg pl below = Inr s \<Longrightarrow> pim_inv {#} s"
proof -
  assume a: "PimAware n g seg pl below = Inr s"
  then have g: "0 < g" "n mod g = 0"
    and s: "s = kv_init n \<lparr>frame_size = g, segregate_scratch = seg, plan_mode = pl, plans = [],
      compact_below = below, blocks_copied = 0, compactions = 0, n_frames = n div g,
      frame_free = map (\<lambda>_. [0..<g]) [0..<n div g], empty_frames = [0..<n div g], affinity = [],
      nfree = int n\<rparr>"
    by (auto simp: PimAware_def Let_def split: if_splits)
  have n: "n div g * g = n" using g(2) by (simp add: mod_eq_0_iff_dvd)
  have ok: "pim_ok n (policy s)"
    unfolding pim_ok_but_def frames_ok_def hints_ok_def
    using g n by (auto simp: s kv_init_def)
  have "pim_free_set (policy s) = {..<n}"
    using g n by (auto simp: pim_free_set_def s kv_init_def div_frame_lt)
  with ok show ?thesis
    unfolding pim_inv_def s kv_init_def [symmetric]
    by (auto simp: held_once_def s kv_init_def intro!: kv_inv_init [unfolded kv_init_def])
qed

end
