(* ===== verification/Pim_Plan.thy ===== *)
theory Pim_Plan
  imports Pim_Contract
begin

text \<open>
  What the admission plan of \<open>PimAware\<close> achieves: a planned admission hands out the free slots of the
  planned frames in ascending order, uses as few frames as any placement could, and from whole frames
  gives whole frames. Also the choice of a frame for one appended block.
\<close>

section \<open>The planned frames\<close>

lemma claim_append:
  "claim n cap (xs @ ys) = (case claim n cap xs of (c1, k1) \<Rightarrow> case claim n k1 ys of (c2, k2) \<Rightarrow> (c1 @ c2, k2))"
proof (induction n cap xs rule: claim.induct)
  case (1 n cap)
  then show ?case by (simp split: prod.splits)
next
  case (2 n cap f k rest)
  then show ?case by (cases ys) (auto split: prod.splits)
qed

lemma claim_prefix:
  "claim n cap fs = (cs, c) \<Longrightarrow> \<exists>m \<le> length fs. cs = map fst (take m fs)
     \<and> c = cap + int (sum_list (map snd (take m fs))) \<and> (m = length fs \<or> n \<le> c)
     \<and> (\<forall>j < m. cap + int (sum_list (map snd (take j fs))) < n)"
proof (induction n cap fs arbitrary: cs c rule: claim.induct)
  case (1 n cap)
  then show ?case by simp
next
  case (2 n cap f k rest)
  show ?case
  proof (cases "cap \<ge> n")
    case True
    with 2 show ?thesis by (intro exI [of _ 0]) simp
  next
    case False
    obtain cs' where cs': "claim n (cap + int k) rest = (cs', c)" "cs = f # cs'"
      using 2(2) False by (auto split: prod.splits)
    from 2(1) [OF False this(1)] obtain m where m: "m \<le> length rest" "cs' = map fst (take m rest)"
        "c = cap + int k + int (sum_list (map snd (take m rest)))" "m = length rest \<or> n \<le> c"
        "\<forall>j < m. cap + int k + int (sum_list (map snd (take j rest))) < n"
      by auto
    have "cap + int (sum_list (map snd (take j ((f, k) # rest)))) < n" if "j < Suc m" for j
      using that m(5) False by (cases j) auto
    with m cs' show ?thesis by (intro exI [of _ "Suc m"]) auto
  qed
qed

text \<open>The frames with room in the order the plan takes them: whole frames, then the fuller-of-room first.\<close>

definition plan_order :: "pim \<Rightarrow> (nat \<times> nat) list" where
  "plan_order p = map (\<lambda>f. (f, frame_size p)) (empties p) @ map (\<lambda>(r, _, f). (f, r)) (partials p)"

lemma partials_set: "set (partials p) = {(room p f, - int f, f) |f. f < n_frames p \<and> room p f \<noteq> frame_size p \<and> room p f \<noteq> 0}"
  by (auto simp: partials_def)

lemma plan_order_set:
  "0 < frame_size p \<Longrightarrow> (f, r) \<in> set (plan_order p) \<longleftrightarrow> f < n_frames p \<and> r = room p f \<and> 0 < r"
  by (auto simp: plan_order_def empties_def partials_set image_iff)

lemma plan_order_room:
  "0 < frame_size p \<Longrightarrow> map snd (take j (plan_order p)) = map (\<lambda>x. room p (fst x)) (take j (plan_order p))"
  "0 < frame_size p \<Longrightarrow> map snd (plan_order p) = map (\<lambda>x. room p (fst x)) (plan_order p)"
proof -
  assume pos: "0 < frame_size p"
  have "snd x = room p (fst x)" if "x \<in> set (plan_order p)" for x
    using that plan_order_set [OF pos, of "fst x" "snd x"] by simp
  then show "map snd (take j (plan_order p)) = map (\<lambda>x. room p (fst x)) (take j (plan_order p))"
    and "map snd (plan_order p) = map (\<lambda>x. room p (fst x)) (plan_order p)"
    by (auto dest: in_set_takeD)
qed

lemma plan_order_distinct: "distinct (map fst (plan_order p))"
proof -
  have "distinct (map (\<lambda>(r, _, f). f) (partials p))"
    unfolding partials_def by (simp add: rev_map [symmetric] distinct_map inj_on_def image_iff)
  moreover have "distinct (empties p)" by (simp add: empties_def)
  ultimately show ?thesis
    by (auto simp: plan_order_def comp_def case_prod_unfold empties_def partials_set)
qed

lemma plan_order_sorted:
  assumes "pim_ok n p"
  shows "sorted_wrt (\<lambda>x y. snd x \<ge> snd y) (plan_order p)"
proof -
  have "sorted_wrt (\<lambda>x y. y \<le> x) (partials p)"
    by (simp add: partials_def sorted_wrt_rev)
  then have "sorted_wrt (\<lambda>x y. fst y \<le> fst x) (partials p)"
    by (rule sorted_wrt_mono_rel [rotated]) (auto simp: less_eq_prod_def)
  then have "sorted_wrt (\<lambda>x y. snd x \<ge> snd y) (map (\<lambda>(r, _, f). (f, r)) (partials p))"
    by (simp add: sorted_wrt_map case_prod_unfold)
  moreover have "room p f \<le> frame_size p" if "f < n_frames p" for f
    using card_mono [OF _ pim_okD(6) [OF assms that]] distinct_card [OF pim_okD(5) [OF assms that]] by simp
  ultimately show ?thesis
    by (auto simp: plan_order_def sorted_wrt_append sorted_wrt_map partials_set intro: sorted_wrt_true)
qed

lemma plan_order_total:
  assumes "pim_ok n p"
  shows "int (sum_list (map snd (plan_order p))) = nfree p"
proof -
  have pos: "0 < frame_size p" by (rule pim_okD(2) [OF assms])
  have fst: "fst ` set (plan_order p) = {f. f < n_frames p \<and> 0 < room p f}"
  proof (intro set_eqI)
    fix f
    have "f \<in> fst ` set (plan_order p) \<longleftrightarrow> (\<exists>r. (f, r) \<in> set (plan_order p))" by force
    then show "f \<in> fst ` set (plan_order p) \<longleftrightarrow> f \<in> {f. f < n_frames p \<and> 0 < room p f}"
      by (auto simp: plan_order_set [OF pos])
  qed
  have "sum_list (map snd (plan_order p)) = sum_list (map (room p) (map fst (plan_order p)))"
    by (simp add: plan_order_room [OF pos] comp_def)
  also have "\<dots> = (\<Sum>f \<in> fst ` set (plan_order p). room p f)"
    using plan_order_distinct [of p] by (simp add: sum_list_distinct_conv_sum_set del: map_map)
  also have "\<dots> = (\<Sum>f<n_frames p. room p f)"
    unfolding fst by (rule sum.mono_neutral_left) auto
  finally show ?thesis using pim_okD(7) [OF assms] by simp
qed

text \<open>A sum over a set of frames is at most the sum of the first frames of the plan order.\<close>

lemma top_sum:
  fixes r :: "'a \<Rightarrow> nat"
  assumes "sorted_wrt (\<lambda>x y. snd x \<ge> snd y) xs" and "distinct (map fst xs)"
    and "\<forall>x \<in> set xs. snd x = r (fst x)" and "S \<subseteq> fst ` set xs"
  shows "(\<Sum>f \<in> S. r f) \<le> sum_list (map snd (take (card S) xs))"
  using assms
proof (induction xs arbitrary: S)
  case Nil
  then show ?case by simp
next
  case (Cons x xs)
  have fin: "finite S" using Cons.prems(4) finite_subset by blast
  show ?case
  proof (cases "S = {}")
    case False
    then obtain y where y: "y \<in> S" "fst x \<in> S \<longrightarrow> y = fst x" by auto
    from y(1) Cons.prems(4) obtain z where z: "z \<in> set (x # xs)" "y = fst z" by blast
    then have "r y = snd z" using Cons.prems(3) by metis
    also have "\<dots> \<le> snd x" using Cons.prems(1) z(1) by auto
    finally have "r y \<le> snd x" .
    moreover have sub: "S - {y} \<subseteq> fst ` set xs" using y Cons.prems(4) by auto
    then have "(\<Sum>f \<in> S - {y}. r f) \<le> sum_list (map snd (take (card (S - {y})) xs))"
      using Cons.prems by (intro Cons.IH) auto
    moreover have "card S = Suc (card (S - {y}))" using card.remove [OF fin y(1)] .
    ultimately show ?thesis
      using sum.remove [OF fin y(1), of r] by simp
  qed simp
qed

lemma sum_list_take_mono: "i \<le> j \<Longrightarrow> sum_list (take i xs) \<le> sum_list (take j xs)" for xs :: "nat list"
  by (metis le_add1 le_add_diff_inverse sum_list_append take_add)

lemma plan_frames_plan:
  assumes ok: "pim_ok m p" and mode: "plan_mode p = ''bestfit''" and n: "0 < n" "n \<le> nfree p"
  obtains j where "j \<le> length (plan_order p)"
    and "plan_frames k n p = p\<lparr>plans := AList.update k (map fst (take j (plan_order p))) (plans p)\<rparr>"
    and "n \<le> int (sum_list (map snd (take j (plan_order p))))"
    and "\<forall>i < j. int (sum_list (map snd (take i (plan_order p)))) < n"
proof -
  obtain c1 k1 where c1: "claim n 0 (map (\<lambda>f. (f, frame_size p)) (empties p)) = (c1, k1)" by fastforce
  obtain c2 k2 where c2: "claim n k1 (map (\<lambda>(r, _, f). (f, r)) (partials p)) = (c2, k2)" by fastforce
  have "claim n 0 (plan_order p) = (c1 @ c2, k2)"
    by (simp add: plan_order_def claim_append c1 c2)
  from claim_prefix [OF this] obtain j where j: "j \<le> length (plan_order p)"
      "c1 @ c2 = map fst (take j (plan_order p))" "k2 = int (sum_list (map snd (take j (plan_order p))))"
      "j = length (plan_order p) \<or> n \<le> k2" "\<forall>i < j. int (sum_list (map snd (take i (plan_order p)))) < n"
    by auto
  have "n \<le> k2" using j(3,4) n(2) plan_order_total [OF ok] by auto
  then have "plan_frames k n p = p\<lparr>plans := AList.update k (map fst (take j (plan_order p))) (plans p)\<rparr>"
    using mode n(1) j(2) by (simp add: plan_frames_def c1 c2)
  with j \<open>n \<le> k2\<close> show ?thesis by (intro that [of j]) simp_all
qed

section \<open>Allocating along a plan\<close>

definition frame_blocks :: "pim \<Rightarrow> nat \<Rightarrow> nat list" where
  "frame_blocks p f = map (\<lambda>off. f * frame_size p + off) (slots p f)"

lemma concat_dropWhile:
  "concat (map (frame_blocks p) (dropWhile (\<lambda>f. slots p f = []) fs)) = concat (map (frame_blocks p) fs)"
  by (induction fs) (auto simp: frame_blocks_def)

lemma plan_alloc:
  assumes "map_of (plans (policy s)) k = Some fs" and "distinct fs"
    and "set fs \<subseteq> {..<length (frame_free (policy s))}"
    and "n \<le> length (concat (map (frame_blocks (policy s)) fs))"
  shows "\<exists>s'. repeatN n (alloc pim_ops k) s
    = (Inr (take n (concat (map (frame_blocks (policy s)) fs))), s')"
  using assms
proof (induction n arbitrary: s fs)
  case 0
  then show ?case by (simp add: prog_simps)
next
  case (Suc n)
  let ?p = "policy s"
  define rest where "rest = dropWhile (\<lambda>f. slots ?p f = []) fs"
  have all: "concat (map (frame_blocks ?p) rest) = concat (map (frame_blocks ?p) fs)"
    by (simp add: rest_def concat_dropWhile)
  then have "concat (map (frame_blocks ?p) rest) \<noteq> []" using Suc.prems(4) by (metis Zero_not_Suc le_zero_eq list.size(3))
  then have ne: "rest \<noteq> []" by auto
  then have fs_ne: "fs \<noteq> []" unfolding rest_def by auto
  obtain f fs' where rest: "rest = f # fs'" using ne by (cases rest) auto
  have f: "slots ?p f \<noteq> []" using hd_dropWhile [OF ne [unfolded rest_def]] unfolding rest_def [symmetric] rest by simp
  have sub: "set rest \<subseteq> set fs" unfolding rest_def by (auto dest: set_dropWhileD)
  have dist: "distinct rest" using Suc.prems(2) unfolding rest_def by simp
  have len: "f < length (frame_free ?p)" using sub Suc.prems(3) rest by auto
  define p' where "p' = take_slot f (?p\<lparr>plans := AList.update k rest (plans ?p)\<rparr>)"
  let ?b = "f * frame_size ?p + hd (slots ?p f)"
  let ?s' = "s\<lparr>policy := p', refcount := AList.update ?b 1 (refcount s), allocated_total := allocated_total s + 1\<rparr>"
  have pick: "pick_frame k ?p = (Inr f, ?p\<lparr>plans := AList.update k rest (plans ?p)\<rparr>)"
    using Suc.prems(1) ne fs_ne rest by (simp add: pick_frame_def Let_def flip: rest_def)
  have step: "alloc pim_ops k s = (Inr ?b, ?s')"
    using alloc_one_picked [OF pick] f by (simp add: alloc_def pim_ops_def prog_simps p'_def)
  have fb: "frame_blocks p' f = tl (frame_blocks ?p f)"
    using len by (simp add: frame_blocks_def take_slot_def map_tl p'_def)
  have "frame_blocks p' g = frame_blocks ?p g" if "g \<in> set fs'" for g
    using that dist rest by (cases "g = f") (simp_all add: frame_blocks_def take_slot_def p'_def)
  then have fbs: "map (frame_blocks ?p) fs' = map (frame_blocks p') fs'" by simp
  have head: "frame_blocks ?p f = ?b # tl (frame_blocks ?p f)"
    using f by (cases "slots ?p f") (simp_all add: frame_blocks_def)
  have "concat (map (frame_blocks ?p) fs) = frame_blocks ?p f @ concat (map (frame_blocks p') fs')"
    unfolding all [symmetric] by (simp add: rest fbs del: map_eq_conv)
  also have "\<dots> = ?b # concat (map (frame_blocks p') rest)"
    by (subst head) (simp add: rest fb)
  finally have cons: "concat (map (frame_blocks ?p) fs) = ?b # concat (map (frame_blocks p') rest)" .
  have "\<exists>s''. repeatN n (alloc pim_ops k) ?s' = (Inr (take n (concat (map (frame_blocks (policy ?s')) rest))), s'')"
  proof (rule Suc.IH)
    show "map_of (plans (policy ?s')) k = Some rest" by (simp add: take_slot_def p'_def)
    show "set rest \<subseteq> {..<length (frame_free (policy ?s'))}" using sub Suc.prems(3) by (auto simp: take_slot_def p'_def)
    show "n \<le> length (concat (map (frame_blocks (policy ?s')) rest))" using Suc.prems(4) unfolding cons by simp
  qed (rule dist)
  then obtain s'' where "repeatN n (alloc pim_ops k) ?s' = (Inr (take n (concat (map (frame_blocks p') rest))), s'')"
    by auto
  with step show ?case unfolding cons by (simp add: prog_simps)
qed

text \<open>A planned admission, block by block.\<close>

lemma planned_admission:
  assumes inv: "pim_inv H s" and mode: "plan_mode (policy s) = ''bestfit''"
    and new: "map_of (tables s) sid = None" and n: "0 < n" "n \<le> nfree (policy s)"
  obtains j s' where "pim_admit sid n t s
      = (Inr (take (nat n) (concat (map (frame_blocks (policy s)) (map fst (take j (plan_order (policy s))))))), s')"
    and "j \<le> length (plan_order (policy s))"
    and "n \<le> int (sum_list (map snd (take j (plan_order (policy s)))))"
    and "\<forall>i < j. int (sum_list (map snd (take i (plan_order (policy s))))) < n"
proof -
  let ?p = "policy s"
  have ok: "pim_ok (num_blocks s) ?p" using inv kv_inv_pim_ok by (auto simp: pim_inv_def)
  obtain j where j: "j \<le> length (plan_order ?p)"
      "plan_frames (Seq sid) n ?p = ?p\<lparr>plans := AList.update (Seq sid) (map fst (take j (plan_order ?p))) (plans ?p)\<rparr>"
      "n \<le> int (sum_list (map snd (take j (plan_order ?p))))"
      "\<forall>i < j. int (sum_list (map snd (take i (plan_order ?p)))) < n"
    by (rule plan_frames_plan [OF ok mode n])
  define fs where "fs = map fst (take j (plan_order ?p))"
  define s1 where "s1 = s\<lparr>policy := ?p\<lparr>plans := AList.update (Seq sid) fs (plans ?p)\<rparr>\<rparr>"
  have fb: "frame_blocks (policy s1) = frame_blocks ?p" by (simp add: s1_def frame_blocks_def fun_eq_iff)
  have "length (concat (map (frame_blocks ?p) fs)) = sum_list (map snd (take j (plan_order ?p)))"
    unfolding fs_def by (simp add: length_concat comp_def frame_blocks_def plan_order_room [OF pim_okD(2) [OF ok]])
  then have len: "nat n \<le> length (concat (map (frame_blocks (policy s1)) fs))"
    unfolding fb using j(3) by simp
  have "distinct fs" unfolding fs_def using plan_order_distinct [of ?p] by (simp add: take_map [symmetric])
  moreover have "set fs \<subseteq> {..<length (frame_free (policy s1))}"
  proof
    fix f assume "f \<in> set fs"
    then obtain r where "(f, r) \<in> set (plan_order ?p)" by (auto simp: fs_def dest!: in_set_takeD)
    then show "f \<in> {..<length (frame_free (policy s1))}"
      using plan_order_set [OF pim_okD(2) [OF ok]] pim_okD(3) [OF ok] by (simp add: s1_def)
  qed
  moreover have "map_of (plans (policy s1)) (Seq sid) = Some fs" by (simp add: s1_def)
  ultimately obtain s' where s': "repeatN (nat n) (alloc pim_ops (Seq sid)) s1
      = (Inr (take (nat n) (concat (map (frame_blocks (policy s1)) fs))), s')"
    using plan_alloc [of s1 "Seq sid" fs "nat n"] len by blast
  have "pim_admit sid n t s = admit pim_ops sid n t s1"
    by (simp add: pim_admit_def prog_simps s1_def j(2) fs_def)
  also have "\<dots> = (Inr (take (nat n) (concat (map (frame_blocks ?p) fs))),
      s'\<lparr>tables := AList.update sid (take (nat n) (concat (map (frame_blocks ?p) fs))) (tables s')\<rparr>)"
    using new n(2) s' fb by (simp add: admit_def prog_simps s1_def)
  finally show ?thesis using j by (intro that [of j]) (simp_all add: fs_def)
qed

lemma whole_frame_slots:
  assumes "pim_ok n p" and "f \<in> set (empties p)"
  shows "frame_blocks p f = [f * frame_size p..<f * frame_size p + frame_size p]"
proof -
  from assms(2) have f: "f < n_frames p" "room p f = frame_size p" by (auto simp: empties_def)
  note d = pim_okD(4-6) [OF assms(1) f(1)]
  have "set (slots p f) = {..<frame_size p}"
    using card_subset_eq [OF _ d(3)] distinct_card [OF d(2)] f(2) by simp
  then have "slots p f = [0..<frame_size p]"
    using d(1,2) by (intro sorted_distinct_set_unique) (auto simp: atLeast0LessThan)
  then show ?thesis
    using map_add_upt [of "f * frame_size p" "frame_size p"] by (simp add: frame_blocks_def add.commute)
qed

lemma pim_inv_ok: "pim_inv H s \<Longrightarrow> pim_ok (num_blocks s) (policy s)"
  using kv_inv_pim_ok by (auto simp: pim_inv_def)

section \<open>The frame of one appended block\<close>

lemma append_block_frame:
  assumes inv: "pim_inv H s" and tab: "map_of (tables s) sid = Some tab" and free: "0 < nfree (policy s)"
  obtains f p' where "pick_frame (Seq sid) (policy s) = (Inr f, p')" and "picked (num_blocks s) (policy s) f p'"
    and "fst (append_block pim_ops sid s) = Inr (f * frame_size (policy s) + Min (set (slots (policy s) f)))"
proof -
  let ?p = "policy s"
  have ok: "pim_ok (num_blocks s) ?p" by (rule pim_inv_ok [OF inv])
  have "pim_free_set ?p \<noteq> {}" using pim_free_card [OF ok] free by auto
  then obtain f p' where f: "pick_frame (Seq sid) ?p = (Inr f, p')" "picked (num_blocks s) ?p f p'"
    using pick_frame_ok [OF ok] by blast
  then have same: "same_frames ?p p'" and ne: "slots ?p f \<noteq> []" and lt: "f < n_frames ?p"
    by (auto simp: picked_def)
  have "slots p' f \<noteq> []" using ne same by (simp add: same_frames_def)
  from alloc_one_picked [OF f(1) this]
  have "alloc_one pim_ops (Seq sid) ?p = (Inr (f * frame_size ?p + hd (slots ?p f)), take_slot f p')"
    using same by (simp add: pim_ops_def same_frames_def)
  moreover have "hd (slots ?p f) = Min (set (slots ?p f))"
    using ne pim_okD(4) [OF ok lt] by (cases "slots ?p f") (auto intro: Min_eqI [symmetric])
  ultimately have "fst (append_block pim_ops sid s) = Inr (f * frame_size ?p + Min (set (slots ?p f)))"
    using free tab by (simp add: append_block_def alloc_def prog_simps)
  with f show ?thesis by (rule that)
qed

section \<open>Properties\<close>

text \<open>C8: Conservation for the contribution. Whatever calls a client makes on a fresh \<open>PimAware\<close> pool, with
  any frame size, plan, scratch segregation and compaction threshold, \<open>assert_conservation\<close> returns:
  allocated minus freed blocks are the live ones, and live plus free blocks are the pool.\<close>

theorem pim_conservation:
  assumes "PimAware n g segregate pl below = Inr s0" and "kv_reach pim_allocator s0 H s"
  shows "m_check pim_allocator s = (Inr (), s)"
  using pim_calls.reach_check [OF assms(2) pim_init [OF assms(1)]] .


text \<open>C10: In bestfit mode an admission that fits in the pool succeeds and touches as few frames as any
  placement could: every set of frames with enough free slots has at least as many frames.\<close>

theorem pim_admission_uses_fewest_frames:
  assumes "PimAware N g segregate ''bestfit'' below = Inr s0" and "kv_reach pim_allocator s0 H s"
    and "plan_mode (policy s) = ''bestfit''" and "map_of (tables s) sid = None"
    and "0 < n" and "n \<le> m_free pim_allocator s"
    and "S \<subseteq> {..<n_frames (policy s)}" and "n \<le> int (\<Sum>f \<in> S. room (policy s) f)"
  shows "\<exists>bs s'. m_admit pim_allocator sid n t s = (Inr bs, s') \<and> length bs = nat n
    \<and> card ((\<lambda>b. b div frame_size (policy s)) ` set bs) \<le> card S"
proof -
  let ?p = "policy s" and ?L = "plan_order (policy s)"
  have inv: "pim_inv H s" by (rule pim_calls.reach_inv [OF assms(2) pim_init [OF assms(1)]])
  have ok: "pim_ok (num_blocks s) ?p" by (rule pim_inv_ok [OF inv])
  have pos: "0 < frame_size ?p" by (rule pim_okD(2) [OF ok])
  have free: "n \<le> nfree ?p" using assms(6) by (simp add: pim_allocator_def base_allocator_def)
  obtain j s' where adm: "pim_admit sid n t s
      = (Inr (take (nat n) (concat (map (frame_blocks ?p) (map fst (take j ?L))))), s')"
      and j: "j \<le> length ?L" "\<forall>i < j. int (sum_list (map snd (take i ?L))) < n"
    by (rule planned_admission [OF inv assms(3,4,5) free])
  define bs where "bs = take (nat n) (concat (map (frame_blocks ?p) (map fst (take j ?L))))"
  have sub: "set bs \<subseteq> set (concat (map (frame_blocks ?p) (map fst (take j ?L))))"
    unfolding bs_def by (rule set_take_subset)
  have "(\<lambda>b. b div frame_size ?p) ` set bs \<subseteq> set (map fst (take j ?L))"
  proof
    fix f assume "f \<in> (\<lambda>b. b div frame_size ?p) ` set bs"
    then obtain b where b: "b \<in> set (concat (map (frame_blocks ?p) (map fst (take j ?L))))"
        "f = b div frame_size ?p" using sub by blast
    from b(1) obtain f' off where f': "f' \<in> set (map fst (take j ?L))" "off \<in> set (slots ?p f')"
        "b = f' * frame_size ?p + off"
      unfolding frame_blocks_def by auto
    then have "f' < n_frames ?p" using plan_order_set [OF pos] by (auto dest!: in_set_takeD)
    then have "off < frame_size ?p" using slot_lt [OF ok] f'(2) by blast
    with f' b(2) show "f \<in> set (map fst (take j ?L))" by simp
  qed
  then have "card ((\<lambda>b. b div frame_size ?p) ` set bs) \<le> card (set (map fst (take j ?L)))"
    by (rule card_mono [OF List.finite_set])
  also have "\<dots> \<le> j" using card_length [of "map fst (take j ?L)"] by simp
  finally have few: "card ((\<lambda>b. b div frame_size ?p) ` set bs) \<le> j" .
  have "j \<le> card S"
  proof (rule ccontr)
    let ?S = "{f \<in> S. 0 < room ?p f}"
    assume "\<not> j \<le> card S"
    moreover have fin: "finite S" using assms(7) finite_subset by blast
    then have "card ?S \<le> card S" by (intro card_mono) auto
    ultimately have "card ?S < j" by simp
    have "(\<Sum>f \<in> S. room ?p f) = (\<Sum>f \<in> ?S. room ?p f)"
      by (rule sum.mono_neutral_right) (use fin in auto)
    also have "\<dots> \<le> sum_list (map snd (take (card ?S) ?L))"
    proof (rule top_sum [OF plan_order_sorted [OF ok] plan_order_distinct])
      show "\<forall>x \<in> set ?L. snd x = room ?p (fst x)" using plan_order_set [OF pos] by auto
      show "?S \<subseteq> fst ` set ?L"
      proof
        fix f assume "f \<in> ?S"
        then have "(f, room ?p f) \<in> set ?L" using plan_order_set [OF pos] assms(7) by auto
        then show "f \<in> fst ` set ?L" by force
      qed
    qed
    finally show False using assms(8) j(2) \<open>card ?S < j\<close> by fastforce
  qed
  moreover have "length bs = nat n"
    using adm pim_admit_law [OF inv, of n sid t] assms(5) by (simp add: bs_def)
  ultimately show ?thesis
    using adm few by (auto simp: pim_allocator_def base_allocator_def bs_def)
qed

lemma planned_whole_frames:
  assumes "PimAware N g segregate ''bestfit'' below = Inr s0" and "kv_reach pim_allocator s0 H s"
    and "plan_mode (policy s) = ''bestfit''" and "map_of (tables s) sid = None" and "0 < n"
    and "n \<le> int (length (empties (policy s)) * frame_size (policy s))"
  shows "fst (m_admit pim_allocator sid n t s) = Inr (take (nat n) (concat
    (map (\<lambda>f. [f * frame_size (policy s)..<f * frame_size (policy s) + frame_size (policy s)]) (empties (policy s)))))"
proof -
  let ?p = "policy s" and ?L = "plan_order (policy s)"
  let ?E = "map (\<lambda>f. (f, frame_size ?p)) (empties ?p)"
  have inv: "pim_inv H s" by (rule pim_calls.reach_inv [OF assms(2) pim_init [OF assms(1)]])
  have ok: "pim_ok (num_blocks s) ?p" by (rule pim_inv_ok [OF inv])
  have sum_E: "sum_list (map snd (take i ?E)) = min i (length (empties ?p)) * frame_size ?p" for i
    by (simp add: take_map comp_def sum_list_triv min.commute)
  have L: "?L = ?E @ map (\<lambda>(r, _, f). (f, r)) (partials ?p)" by (simp add: plan_order_def)
  have "int (sum_list (map snd ?E)) \<le> nfree ?p"
    using plan_order_total [OF ok] by (simp add: plan_order_def)
  then have free: "n \<le> nfree ?p"
    using assms(6) sum_E [of "length (empties ?p)"] by simp
  obtain j s' where adm: "pim_admit sid n t s
      = (Inr (take (nat n) (concat (map (frame_blocks ?p) (map fst (take j ?L))))), s')"
      and j: "j \<le> length ?L" "n \<le> int (sum_list (map snd (take j ?L)))"
        "\<forall>i < j. int (sum_list (map snd (take i ?L))) < n"
    by (rule planned_admission [OF inv assms(3,4,5) free])
  have jE: "j \<le> length (empties ?p)"
  proof (rule ccontr)
    assume "\<not> j \<le> length (empties ?p)"
    then have "int (sum_list (map snd (take (length (empties ?p)) ?L))) < n" using j(3) by simp
    then show False using assms(6) sum_E [of "length (empties ?p)"] by (simp add: L)
  qed
  then have take: "map fst (take j ?L) = take j (empties ?p)"
    by (simp add: L take_map comp_def)
  have "sum_list (map snd (take j ?L)) = j * frame_size ?p"
    using jE sum_E [of j] by (simp add: L)
  then have n: "nat n \<le> j * frame_size ?p" using j(2) by (simp only: nat_le_iff)
  have blocks: "map (frame_blocks ?p) fs = map (\<lambda>f. [f * frame_size ?p..<f * frame_size ?p + frame_size ?p]) fs"
    if "set fs \<subseteq> set (empties ?p)" for fs
    using that whole_frame_slots [OF ok] by (intro map_cong) auto
  let ?B = "\<lambda>fs. concat (map (\<lambda>f. [f * frame_size ?p..<f * frame_size ?p + frame_size ?p]) fs)"
  have "?B (empties ?p) = ?B (take j (empties ?p)) @ ?B (drop j (empties ?p))"
    by (simp flip: concat_append map_append)
  moreover have "length (?B (take j (empties ?p))) = j * frame_size ?p"
    using jE by (simp add: length_concat comp_def sum_list_triv)
  ultimately have "take (nat n) (?B (empties ?p)) = take (nat n) (?B (take j (empties ?p)))"
    using n by simp
  then show ?thesis
    using adm blocks [of "take j (empties ?p)"] take set_take_subset [of j "empties ?p"]
    by (simp add: pim_allocator_def base_allocator_def)
qed

text \<open>C11: While enough frames are empty, a planned admission gets whole frames: its table is the first \<open>n\<close>
  blocks of the empty frames in ascending order, each frame filled from its first slot.\<close>

theorem pim_admission_fills_whole_frames:
  assumes "PimAware N g segregate ''bestfit'' below = Inr s0" and "kv_reach pim_allocator s0 H s"
    and "plan_mode (policy s) = ''bestfit''" and "map_of (tables s) sid = None" and "0 < n"
    and "n \<le> int (length (empties (policy s)) * frame_size (policy s))"
  shows "fst (m_admit pim_allocator sid n t s) = Inr (take (nat n) (concat
    (map (\<lambda>f. [f * frame_size (policy s)..<f * frame_size (policy s) + frame_size (policy s)]) (empties (policy s)))))"
  by (rule planned_whole_frames [OF assms])

text \<open>Where an append goes once the sequence's planned frames are full: into its affinity frame while that has room; else into
  the lowest-indexed empty frame; only when no frame is empty into the frame with most free slots, the
  lowest index on ties. Inside the frame it takes the lowest free offset.\<close>

theorem pim_append_frame_choice:
  assumes "PimAware N g segregate pl below = Inr s0" and "kv_reach pim_allocator s0 H s"
    and "map_of (tables s) sid = Some tab"
    and "\<forall>fs f. map_of (plans (policy s)) (Seq sid) = Some fs \<longrightarrow> f \<in> set fs \<longrightarrow> slots (policy s) f = []"
    and "0 < m_free pim_allocator s"
  shows "\<exists>f. fst (m_append pim_allocator sid s) = Inr (f * frame_size (policy s) + Min (set (slots (policy s) f)))
    \<and> (if \<exists>a. map_of (affinity (policy s)) (Seq sid) = Some a \<and> slots (policy s) a \<noteq> []
       then map_of (affinity (policy s)) (Seq sid) = Some f
       else if \<exists>e < n_frames (policy s). room (policy s) e = frame_size (policy s)
       then room (policy s) f = frame_size (policy s)
         \<and> (\<forall>e < n_frames (policy s). room (policy s) e = frame_size (policy s) \<longrightarrow> f \<le> e)
       else \<forall>e < n_frames (policy s). room (policy s) e \<le> room (policy s) f
         \<and> (room (policy s) e = room (policy s) f \<longrightarrow> f \<le> e))"
proof -
  let ?p = "policy s"
  have inv: "pim_inv H s" by (rule pim_calls.reach_inv [OF assms(2) pim_init [OF assms(1)]])
  note d = pim_okD [OF pim_inv_ok [OF inv]]
  obtain f p' where f: "pick_frame (Seq sid) ?p = (Inr f, p')"
      "fst (append_block pim_ops sid s) = Inr (f * frame_size ?p + Min (set (slots ?p f)))"
    by (rule append_block_frame [OF inv assms(3)])
      (use assms(5) in \<open>simp_all add: pim_allocator_def base_allocator_def\<close>)
  obtain pl where run: "pick_unplanned (Seq sid) (?p\<lparr>plans := pl\<rparr>) = (Inr f, p')"
  proof (cases "map_of (plans ?p) (Seq sid) \<in> {None, Some []}")
    case True
    then have "pick_unplanned (Seq sid) (?p\<lparr>plans := plans ?p\<rparr>) = (Inr f, p')"
      using f(1) by (auto simp: pick_frame_def)
    then show ?thesis by (rule that)
  next
    case False
    then obtain fs where "map_of (plans ?p) (Seq sid) = Some fs" "fs \<noteq> []" by auto
    then have "pick_unplanned (Seq sid) (?p\<lparr>plans := AList.delete (Seq sid) (plans ?p)\<rparr>) = (Inr f, p')"
      using f(1) assms(4) by (simp add: pick_frame_def)
    then show ?thesis by (rule that)
  qed
  let ?q = "?p\<lparr>plans := pl\<rparr>"
  have "(if \<exists>a. map_of (affinity ?p) (Seq sid) = Some a \<and> slots ?p a \<noteq> []
       then map_of (affinity ?p) (Seq sid) = Some f
       else if \<exists>e < n_frames ?p. room ?p e = frame_size ?p
       then room ?p f = frame_size ?p \<and> (\<forall>e < n_frames ?p. room ?p e = frame_size ?p \<longrightarrow> f \<le> e)
       else \<forall>e < n_frames ?p. room ?p e \<le> room ?p f \<and> (room ?p e = room ?p f \<longrightarrow> f \<le> e))"
  proof (cases "\<exists>a. map_of (affinity ?p) (Seq sid) = Some a \<and> slots ?p a \<noteq> []")
    case True
    then show ?thesis using run by (auto simp: pick_unplanned_def)
  next
    case False
    then have new: "pick_new (Seq sid) ?q = (Inr f, p')"
      using run by (auto simp: pick_unplanned_def split: option.splits)
    obtain found rest where pop: "pop_empty ?q (empty_frames ?p) = (found, rest)" by fastforce
    show ?thesis
    proof (cases found)
      case (Some e)
      note e = pop_empty_found [OF pop [unfolded Some] d(8), simplified]
      have "f = e" using new pop Some by (simp add: pick_new_def)
      with e d(9,10) False show ?thesis by auto
    next
      case None
      have none: "\<forall>e < n_frames ?p. room ?p e \<noteq> frame_size ?p"
        using pop_empty_none [OF pop [unfolded None]] d(10) by auto
      have "most_free (?q\<lparr>empty_frames := rest\<rparr>) = Some f"
        using new pop None by (auto simp: pick_new_def Let_def split: option.splits)
      with most_free_spec [of "?q\<lparr>empty_frames := rest\<rparr>"] none False show ?thesis by auto
    qed
  qed
  moreover have "m_append pim_allocator = append_block pim_ops"
    by (simp add: pim_allocator_def base_allocator_def)
  ultimately show ?thesis using f(2) by (intro exI [of _ f] conjI) (simp_all only:)
qed

section \<open>Witnesses, and what compaction does to the prefix cache\<close>

text \<open>A pool of three frames of four blocks that compacts frames less than half full.\<close>

definition pool12 :: "pim kv" where
  "pool12 = (case PimAware 12 4 True ''bestfit'' (1/2) of Inl _ \<Rightarrow> undefined | Inr s \<Rightarrow> s)"

lemma pool12: "PimAware 12 4 True ''bestfit'' (1/2) = Inr pool12"
  by code_simp

definition pool12_run :: "pim kv" where
  "pool12_run = final (m_admit pim_allocator 1 4 4) pool12"

lemma pool12_run: "kv_reach pim_allocator pool12 {#} pool12_run"
  unfolding pool12_run_def by (rule kv_reach_admit [OF kv_reach_refl]) simp_all

theorem pim_conservation_witness: "m_check pim_allocator pool12_run = (Inr (), pool12_run)"
  by (rule pim_conservation [OF pool12 pool12_run])


theorem pim_admission_uses_fewest_frames_witness:
  "\<exists>bs s'. m_admit pim_allocator 2 4 4 pool12_run = (Inr bs, s') \<and> length bs = nat 4
    \<and> card ((\<lambda>b. b div frame_size (policy pool12_run)) ` set bs) \<le> card {2 :: nat}"
proof (rule pim_admission_uses_fewest_frames [OF pool12 pool12_run])
  show "plan_mode (policy pool12_run) = ''bestfit''" by code_simp
  show "map_of (tables pool12_run) 2 = None" by code_simp
  show "4 \<le> m_free pim_allocator pool12_run" by code_simp
  have "n_frames (policy pool12_run) = 3" "room (policy pool12_run) 2 = 4" by code_simp+
  then show "{2} \<subseteq> {..<n_frames (policy pool12_run)}" "4 \<le> int (\<Sum>f \<in> {2}. room (policy pool12_run) f)"
    by auto
qed simp

theorem pim_admission_fills_whole_frames_witness:
  "fst (m_admit pim_allocator 2 6 6 pool12_run) = Inr [4, 5, 6, 7, 8, 9]"
proof -
  have e: "empties (policy pool12_run) = [1, 2]" "frame_size (policy pool12_run) = 4" by code_simp+
  have "plan_mode (policy pool12_run) = ''bestfit''" "map_of (tables pool12_run) 2 = None" by code_simp+
  from pim_admission_fills_whole_frames [OF pool12 pool12_run this, of 6 6] show ?thesis
    by (simp add: e upt_rec)
qed

theorem pim_append_frame_choice_witness:
  "\<exists>f. fst (m_append pim_allocator 1 pool12_run)
     = Inr (f * frame_size (policy pool12_run) + Min (set (slots (policy pool12_run) f)))
     \<and> room (policy pool12_run) f = frame_size (policy pool12_run)"
proof -
  have t: "map_of (tables pool12_run) 1 = Some [0, 1, 2, 3]" by code_simp
  have p: "plans (policy pool12_run) = [(Seq 1, [0])]" "slots (policy pool12_run) 0 = []" by code_simp+
  have a: "affinity (policy pool12_run) = []" by code_simp
  have f: "0 < m_free pim_allocator pool12_run" by code_simp
  have e: "1 < n_frames (policy pool12_run)" "room (policy pool12_run) 1 = frame_size (policy pool12_run)"
    by code_simp+
  have pl: "\<forall>fs f. map_of (plans (policy pool12_run)) (Seq 1) = Some fs \<longrightarrow> f \<in> set fs
      \<longrightarrow> slots (policy pool12_run) f = []"
    using p by auto
  have ex: "\<exists>e < n_frames (policy pool12_run). room (policy pool12_run) e = frame_size (policy pool12_run)"
    using e by blast
  have no: "\<not> (\<exists>a. map_of (affinity (policy pool12_run)) (Seq 1) = Some a \<and> slots (policy pool12_run) a \<noteq> [])"
    using a by simp
  from pim_append_frame_choice [OF pool12 pool12_run t pl f] show ?thesis
    unfolding if_not_P [OF no] if_P [OF ex] by blast
qed


end
