(* ===== verification/Kv_Contiguous.thy ===== *)
theory Kv_Contiguous
  imports "HOL-Library.Product_Lexorder" Kv_Interface
begin

text \<open>
  The upper-bound reference \<open>ContiguousOracle\<close> of \<open>pimkv/allocator.py\<close>: one contiguous span per sequence,
  first fit over free extents, extents merged on release, and a permanent scratch region at the end of the
  span. The spans and the extents partition the pool, and the extents are always the maximal free runs.
\<close>

section \<open>State and methods\<close>

text \<open>Extents and spans are \<open>(start, size)\<close>; \<open>reserved\<close> is the unconsumed tail of a sequence's span.\<close>

record contig =
  extents :: "(int \<times> int) list"
  reserved :: "(int, nat list) dict"
  spans :: "(int, int \<times> int) dict"

definition ContiguousOracle :: "nat \<Rightarrow> contig kv" where
  "ContiguousOracle n = kv_init n \<lparr>extents = [(0, int n)], reserved = [], spans = []\<rparr>"

definition contig_free :: "contig kv \<Rightarrow> int" where
  "contig_free s = (\<Sum>(st, sz) \<leftarrow> extents (policy s). sz)
     + (\<Sum>(k, r) \<leftarrow> reserved (policy s). int (length r))"

text \<open>\<open>list(range(start, start + size))\<close>.\<close>

definition span_blocks :: "int \<times> int \<Rightarrow> nat list" where
  "span_blocks = (\<lambda>(st, sz). map nat [st..st + sz - 1])"

text \<open>First fit: the start of the chosen extent, the extent as it is left, and the list of extents with it.\<close>

fun first_fit :: "int \<Rightarrow> (int \<times> int) list \<Rightarrow> (int \<times> (int \<times> int) \<times> (int \<times> int) list) option" where
  "first_fit n [] = None"
| "first_fit n ((st, sz) # es) =
     (if sz \<ge> n then Some (st, (st + n, sz - n), (st + n, sz - n) # es)
      else map_option (\<lambda>(a, e, r). (a, e, (st, sz) # r)) (first_fit n es))"

definition mark_live :: "nat list \<Rightarrow> (nat, int) dict \<Rightarrow> (nat, int) dict" where
  "mark_live bs rc = fold (\<lambda>b. AList.update b 1) bs rc"

definition on_contig :: "(contig \<Rightarrow> contig) \<Rightarrow> (contig kv, unit) prog" where
  [prog_simps]: "on_contig f = modifyS (\<lambda>s. s\<lparr>policy := f (policy s)\<rparr>)"

definition contig_admit :: "int \<Rightarrow> int \<Rightarrow> int \<Rightarrow> (contig kv, nat list) prog" where
  "contig_admit sid n_prompt n_total =
     thenS (assertS (\<lambda>s. map_of (tables s) sid = None) ValueError)
     (bindS (getS (\<lambda>s. first_fit n_total (extents (policy s)))) (\<lambda>fit.
     case fit of
       None \<Rightarrow> raise AdmissionFailure
     | Some (start, ext, es) \<Rightarrow>
         let span = span_blocks (start, n_total); head = slice_to n_prompt span in
         thenS (on_contig (\<lambda>p. p\<lparr>extents := (if snd ext = 0 then remove1 ext es else es),
           spans := AList.update sid (start, n_total) (spans p)\<rparr>))
         (thenS (modifyS (\<lambda>s. s\<lparr>refcount := mark_live head (refcount s),
           allocated_total := allocated_total s + n_prompt\<rparr>))
         (thenS (set_table sid head)
         (thenS (on_contig (\<lambda>p. p\<lparr>reserved := AList.update sid (slice_from n_prompt span) (reserved p)\<rparr>))
         (ret head))))))"

definition contig_admit_shared :: "int \<Rightarrow> nat list \<Rightarrow> int \<Rightarrow> int \<Rightarrow> (contig kv, nat list) prog" where
  "contig_admit_shared sid shared n_new n_total = contig_admit sid (int (length shared) + n_new) n_total"

definition contig_append :: "int \<Rightarrow> (contig kv, nat) prog" where
  "contig_append sid =
     bindS (dget sid (\<lambda>s. reserved (policy s))) (\<lambda>r.
     if r = [] then raise AdmissionFailure else
     thenS (on_contig (\<lambda>p. p\<lparr>reserved := AList.update sid (tl r) (reserved p)\<rparr>))
     (thenS (modifyS (\<lambda>s. s\<lparr>refcount := AList.update (hd r) 1 (refcount s),
        allocated_total := allocated_total s + 1\<rparr>))
     (bindS (dget sid tables) (\<lambda>t.
     thenS (set_table sid (t @ [hd r])) (ret (hd r))))))"

definition take_scratch :: "int \<Rightarrow> int \<Rightarrow> (contig kv, nat list) prog" where
  "take_scratch sid n =
     bindS (dget sid (\<lambda>s. reserved (policy s))) (\<lambda>r.
     if int (length r) < n then raise AdmissionFailure else
     let scratch = slice_from (int (length r) - n) r in
     thenS (on_contig (\<lambda>p. p\<lparr>reserved := AList.update sid (slice_to (int (length r) - n) r) (reserved p)\<rparr>))
     (thenS (modifyS (\<lambda>s. s\<lparr>refcount := mark_live scratch (refcount s),
        allocated_total := allocated_total s + n\<rparr>))
     (ret scratch)))"

definition unref_span_block :: "nat \<Rightarrow> (contig kv, unit) prog" where
  "unref_span_block b =
     bindS (dget b refcount) (\<lambda>rc0.
       let rc = rc0 - 1 in
       if rc = 0 then modifyS (\<lambda>s. s\<lparr>refcount := AList.delete b (refcount s), freed_total := freed_total s + 1\<rparr>)
       else modifyS (\<lambda>s. s\<lparr>refcount := AList.update b rc (refcount s)\<rparr>))"

definition contig_unref_blocks :: "nat list \<Rightarrow> (contig kv, unit) prog" where
  "contig_unref_blocks bs = eachS unref_span_block bs"

text \<open>The merge loop of \<open>_return_extent\<close>: glue to the last merged extent when it ends where this one starts.\<close>

definition merge_into :: "(int \<times> int) list \<Rightarrow> int \<times> int \<Rightarrow> (int \<times> int) list" where
  "merge_into merged e =
     (if merged \<noteq> [] \<and> fst (last merged) + snd (last merged) = fst e
      then butlast merged @ [(fst (last merged), snd (last merged) + snd e)]
      else merged @ [e])"

definition return_extent :: "int \<times> int \<Rightarrow> (int \<times> int) list \<Rightarrow> (int \<times> int) list" where
  "return_extent e es = foldl merge_into [] (sort (es @ [e]))"

definition contig_release :: "int \<Rightarrow> (contig kv, unit) prog" where
  "contig_release sid =
     bindS (dget sid tables) (\<lambda>t.
     thenS (modifyS (\<lambda>s. s\<lparr>tables := AList.delete sid (tables s)\<rparr>))
     (thenS (eachS unref_span_block t)
     (bindS (dget sid (\<lambda>s. reserved (policy s))) (\<lambda>_.
     thenS (on_contig (\<lambda>p. p\<lparr>reserved := AList.delete sid (reserved p)\<rparr>))
     (bindS (dget sid (\<lambda>s. spans (policy s))) (\<lambda>sp.
     thenS (on_contig (\<lambda>p. p\<lparr>spans := AList.delete sid (spans p)\<rparr>))
     (on_contig (\<lambda>p. p\<lparr>extents := return_extent sp (extents p)\<rparr>))))))))"

definition contig_assert_conservation :: "(contig kv, unit) prog" where
  "contig_assert_conservation =
     thenS (assertS (\<lambda>s. allocated_total s - freed_total s = num_live s) AssertionError)
     (assertS (\<lambda>s. num_live s + contig_free s = int (num_blocks s)) AssertionError)"

text \<open>The hooks \<open>_alloc_one\<close> and \<open>_free_one\<close> are not overridden: the inherited bodies raise.\<close>

definition contig_hooks :: "contig policy_ops" where
  "contig_hooks = \<lparr>alloc_one = (\<lambda>_. raise NotImplementedError), free_one = (\<lambda>_. raise NotImplementedError),
     policy_free = (\<lambda>p. contig_free (kv_init 0 p))\<rparr>"

definition contiguous_allocator :: "contig allocator" where
  "contiguous_allocator = \<lparr>supports_sharing = False, persistent_scratch = True, m_free = contig_free,
     m_admit = contig_admit, m_admit_shared = contig_admit_shared, m_append = contig_append, m_fork = fork,
     m_scratch = alloc_scratch contig_hooks, m_take = take_scratch, m_unref = contig_unref_blocks,
     m_adopt = spec_round_adopt_with contig_unref_blocks contig_hooks, m_release = contig_release,
     m_check = contig_assert_conservation\<rparr>"

section \<open>Spans, extents and merging\<close>

lemma span_blocks_length [simp]: "0 \<le> sz \<Longrightarrow> length (span_blocks (st, sz)) = nat sz"
  by (simp add: span_blocks_def)

lemma span_blocks_mem: "0 \<le> st \<Longrightarrow> b \<in> set (span_blocks (st, sz)) \<longleftrightarrow> st \<le> int b \<and> int b < st + sz"
  by (force simp: span_blocks_def image_iff intro: bexI [of _ "int b"])

lemma span_blocks_distinct [simp]: "0 \<le> st \<Longrightarrow> distinct (span_blocks (st, sz))"
  by (auto simp: span_blocks_def distinct_map inj_on_def)

lemma span_blocks_split:
  "0 \<le> m \<Longrightarrow> 0 \<le> n \<Longrightarrow> span_blocks (st, m + n) = span_blocks (st, m) @ span_blocks (st + m, n)"
proof (cases "m = 0")
  case False
  assume mn: "0 \<le> m" "0 \<le> n"
  with False have "[st..st + (m + n) - 1] = [st..st + m - 1] @ [st + m - 1 + 1..st + (m + n) - 1]"
    by (intro upto_split2) auto
  then show ?thesis by (simp add: span_blocks_def add.assoc)
qed (simp add: span_blocks_def)

definition blocks_of :: "(int \<times> int) list \<Rightarrow> nat multiset" where
  "blocks_of es = sum_list (map (\<lambda>e. mset (span_blocks e)) es)"

lemma blocks_of_simps [simp]:
  "blocks_of [] = {#}" "blocks_of (e # es) = mset (span_blocks e) + blocks_of es"
  "blocks_of (es @ es') = blocks_of es + blocks_of es'"
  by (simp_all add: blocks_of_def)

lemma blocks_of_mset: "blocks_of es = (\<Sum>e \<in># mset es. mset (span_blocks e))"
  by (simp add: blocks_of_def flip: sum_mset_sum_list)

lemma blocks_of_sort [simp]: "blocks_of (sort es) = blocks_of es"
  by (simp add: blocks_of_mset)

text \<open>Extents as the code keeps them: inside the pool, of positive size (but for the empty pool), in
  ascending order with a gap after each, that is, maximal.\<close>

definition extent_ok :: "nat \<Rightarrow> int \<times> int \<Rightarrow> bool" where
  "extent_ok n e \<longleftrightarrow> 0 \<le> fst e \<and> (if n = 0 then snd e = 0 else 0 < snd e)"

definition apart :: "int \<times> int \<Rightarrow> int \<times> int \<Rightarrow> bool" where
  "apart a b \<longleftrightarrow> fst a + snd a < fst b"

definition extents_ok :: "nat \<Rightarrow> (int \<times> int) list \<Rightarrow> bool" where
  "extents_ok n es \<longleftrightarrow> (\<forall>e \<in> set es. extent_ok n e) \<and> sorted_wrt apart es"

lemma merge_into_blocks:
  "\<forall>x \<in> set (es @ [e]). 0 \<le> snd x \<Longrightarrow> blocks_of (merge_into es e) = blocks_of es + mset (span_blocks e)"
proof (cases "es \<noteq> [] \<and> fst (last es) + snd (last es) = fst e")
  case True
  assume pos: "\<forall>x \<in> set (es @ [e]). 0 \<le> snd x"
  obtain es' st sz where es: "es = es' @ [(st, sz)]" using True by (metis append_butlast_last_id prod.collapse)
  then have "fst e = st + sz" "0 \<le> sz" "0 \<le> snd e" using True pos by auto
  then show ?thesis
    using span_blocks_split [of sz "snd e" st] True es by (cases e) (simp add: merge_into_def)
qed (auto simp: merge_into_def)

lemma merge_into_apart:
  assumes "sorted_wrt apart es" and "es \<noteq> [] \<Longrightarrow> fst (last es) + snd (last es) \<le> fst e"
    and "\<forall>x \<in> set es. 0 < snd x" and "0 < snd e"
  shows "sorted_wrt apart (merge_into es e) \<and> merge_into es e \<noteq> []
    \<and> fst (last (merge_into es e)) + snd (last (merge_into es e)) = fst e + snd e
    \<and> (\<forall>x \<in> set (merge_into es e). 0 < snd x)"
proof (cases "es = []")
  case True
  with assms(4) show ?thesis by (simp add: merge_into_def)
next
  case False
  then obtain es' l where es: "es = es' @ [l]" by (metis append_butlast_last_id)
  have "apart x e" if "x \<in> set es'" for x
    using that assms(1-3) es by (fastforce simp: sorted_wrt_append apart_def)
  with assms es show ?thesis
    by (cases "fst l + snd l = fst e") (auto simp: merge_into_def sorted_wrt_append apart_def)
qed

lemma merge_into_nonneg:
  "\<forall>x \<in> set es. 0 \<le> fst x \<Longrightarrow> 0 \<le> fst e \<Longrightarrow> \<forall>x \<in> set (merge_into es e). 0 \<le> fst x"
  by (cases es rule: rev_cases) (auto simp: merge_into_def)

lemma merge_all:
  assumes "sorted_wrt (\<lambda>a b. fst a + snd a \<le> fst b) xs" and "\<forall>x \<in> set xs. 0 \<le> fst x \<and> 0 < snd x"
    and "sorted_wrt apart es" and "\<forall>x \<in> set es. 0 \<le> fst x \<and> 0 < snd x"
    and "es \<noteq> [] \<Longrightarrow> \<forall>x \<in> set xs. fst (last es) + snd (last es) \<le> fst x"
  shows "sorted_wrt apart (foldl merge_into es xs) \<and> (\<forall>x \<in> set (foldl merge_into es xs). 0 \<le> fst x \<and> 0 < snd x)
    \<and> blocks_of (foldl merge_into es xs) = blocks_of es + blocks_of xs"
  using assms
proof (induction xs arbitrary: es)
  case Nil
  then show ?case by simp
next
  case (Cons e xs)
  let ?m = "merge_into es e"
  have pos: "\<forall>x \<in> set es. 0 < snd x" "\<forall>x \<in> set es. 0 \<le> fst x" "0 < snd e" "0 \<le> fst e"
    using Cons.prems(2,4) by auto
  have last: "es \<noteq> [] \<Longrightarrow> fst (last es) + snd (last es) \<le> fst e" using Cons.prems(5) by simp
  note m = merge_into_apart [OF Cons.prems(3) last pos(1,3)]
  have b: "blocks_of ?m = blocks_of es + mset (span_blocks e)"
    using pos by (intro merge_into_blocks) (auto simp: less_imp_le)
  have "sorted_wrt apart (foldl merge_into ?m xs) \<and> (\<forall>x \<in> set (foldl merge_into ?m xs). 0 \<le> fst x \<and> 0 < snd x)
    \<and> blocks_of (foldl merge_into ?m xs) = blocks_of ?m + blocks_of xs"
  proof (rule Cons.IH)
    show "sorted_wrt (\<lambda>a b. fst a + snd a \<le> fst b) xs" "\<forall>x \<in> set xs. 0 \<le> fst x \<and> 0 < snd x"
      using Cons.prems(1,2) by simp_all
    show "sorted_wrt apart ?m" using m by simp
    show "\<forall>x \<in> set ?m. 0 \<le> fst x \<and> 0 < snd x" using m merge_into_nonneg [OF pos(2,4)] by simp
    show "\<forall>x \<in> set xs. fst (last ?m) + snd (last ?m) \<le> fst x" using m Cons.prems(1) by simp
  qed
  then show ?case by (simp add: b add.assoc)
qed

text \<open>Sorted extents that share no block follow each other.\<close>

lemma disjoint_sorted:
  assumes "sorted xs" and "\<forall>x \<in> set xs. 0 \<le> fst x \<and> 0 < snd x" and "\<forall>b. count (blocks_of xs) b \<le> 1"
  shows "sorted_wrt (\<lambda>a b. fst a + snd a \<le> fst b) xs"
  using assms
proof (induction xs)
  case Nil
  then show ?case by simp
next
  case (Cons x xs)
  have "fst x + snd x \<le> fst y" if y: "y \<in> set xs" for y
  proof (rule ccontr)
    assume less: "\<not> fst x + snd x \<le> fst y"
    obtain ys zs where "xs = ys @ y # zs" using y by (metis split_list)
    then have sub: "mset (span_blocks x) + mset (span_blocks y) \<subseteq># blocks_of (x # xs)" by simp
    have "x \<le> y" using Cons.prems(1) y by simp
    then have le: "fst x \<le> fst y" by (cases x; cases y) (auto simp: less_eq_prod_def)
    have pos: "0 \<le> fst x" "0 \<le> fst y" "0 < snd y" using Cons.prems(2) y by auto
    then have "nat (fst y) \<in> set (span_blocks x)" "nat (fst y) \<in> set (span_blocks y)"
      using span_blocks_mem [of "fst x" "nat (fst y)" "snd x"] span_blocks_mem [of "fst y" "nat (fst y)" "snd y"]
        less le by auto
    then have "2 \<le> count (mset (span_blocks x) + mset (span_blocks y)) (nat (fst y))"
      by (metis Suc_leI add_mono count_union count_greater_zero_iff numeral_2_eq_2 One_nat_def plus_1_eq_Suc
          set_mset_mset)
    also have "\<dots> \<le> count (blocks_of (x # xs)) (nat (fst y))" using sub by (rule mset_subset_eq_count)
    finally show False using Cons.prems(3) by (metis not_less_eq_eq numeral_2_eq_2 One_nat_def)
  qed
  moreover have "sorted_wrt (\<lambda>a b. fst a + snd a \<le> fst b) xs"
  proof (rule Cons.IH)
    show "\<forall>b. count (blocks_of xs) b \<le> 1" using Cons.prems(3) by simp (meson add_leD2)
  qed (use Cons.prems in auto)
  ultimately show ?case by simp
qed

lemma return_extent_ok:
  assumes "extents_ok n es" and "0 < n" and "0 \<le> fst e" "0 < snd e"
    and "\<forall>b. count (blocks_of es + mset (span_blocks e)) b \<le> 1"
  shows "extents_ok n (return_extent e es)" and "blocks_of (return_extent e es) = blocks_of es + mset (span_blocks e)"
proof -
  let ?xs = "sort (es @ [e])"
  have pos: "\<forall>x \<in> set ?xs. 0 \<le> fst x \<and> 0 < snd x"
    using assms(1-4) by (auto simp: extents_ok_def extent_ok_def)
  have "\<forall>b. count (blocks_of ?xs) b \<le> 1" using assms(5) by simp
  with pos have "sorted_wrt (\<lambda>a b. fst a + snd a \<le> fst b) ?xs"
    by (intro disjoint_sorted) simp_all
  from merge_all [OF this pos, of "[]"] show "extents_ok n (return_extent e es)"
    and "blocks_of (return_extent e es) = blocks_of es + mset (span_blocks e)"
    using assms(2) by (auto simp: return_extent_def extents_ok_def extent_ok_def)
qed

lemma first_fit_split:
  "first_fit n es = Some (st, e, es') \<Longrightarrow>
     \<exists>ys sz zs. es = ys @ (st, sz) # zs \<and> n \<le> sz \<and> e = (st + n, sz - n) \<and> es' = ys @ e # zs"
proof (induction es arbitrary: es')
  case Nil
  then show ?case by simp
next
  case (Cons x es)
  obtain a sz where x: "x = (a, sz)" by (cases x)
  show ?case
  proof (cases "sz \<ge> n")
    case True
    with Cons.prems x show ?thesis by (intro exI [of _ "[]"]) auto
  next
    case False
    with Cons.prems x obtain es'' where "first_fit n es = Some (st, e, es'')" "es' = (a, sz) # es''"
      by auto
    with Cons.IH obtain ys sz' zs where "es = ys @ (st, sz') # zs" "n \<le> sz'" "e = (st + n, sz' - n)"
        "es' = ((a, sz) # ys) @ e # zs" by fastforce
    with x show ?thesis by (intro exI [of _ "(a, sz) # ys"]) simp
  qed
qed

lemma first_fit_none: "first_fit n es = None \<longleftrightarrow> (\<forall>e \<in> set es. snd e < n)"
  by (induction n es rule: first_fit.induct) auto

lemma first_fit_ok:
  assumes fit: "first_fit n es = Some (st, e, es')" and ok: "extents_ok m es" and n: "0 < n"
  defines "rest \<equiv> (if snd e = 0 then remove1 e es' else es')"
  shows "0 \<le> st" "blocks_of es = mset (span_blocks (st, n)) + blocks_of rest" "extents_ok m rest"
proof -
  from first_fit_split [OF fit] obtain ys sz zs where
    sp: "es = ys @ (st, sz) # zs" "n \<le> sz" "e = (st + n, sz - n)" "es' = ys @ e # zs" by blast
  have m: "m \<noteq> 0" using ok n sp(1,2) by (auto simp: extents_ok_def extent_ok_def split: if_splits)
  then have "\<forall>x \<in> set ys. 0 < snd x" using ok sp(1) by (auto simp: extents_ok_def extent_ok_def)
  then have "e \<notin> set ys" if "snd e = 0" using that by (metis less_irrefl)
  then have rest: "rest = (if snd e = 0 then ys @ zs else ys @ e # zs)"
    by (simp add: rest_def sp(4) remove1_append)
  show "0 \<le> st" using ok sp(1) by (auto simp: extents_ok_def extent_ok_def)
  have "mset (span_blocks (st, sz)) = mset (span_blocks (st, n)) + mset (span_blocks e)"
    using span_blocks_split [of n "sz - n" st] sp n by simp
  moreover have "span_blocks (x, 0) = []" for x by (simp add: span_blocks_def)
  then have "snd e = 0 \<Longrightarrow> span_blocks e = []" by (cases e) simp
  ultimately show "blocks_of es = mset (span_blocks (st, n)) + blocks_of rest"
    by (simp add: rest sp(1))
  have "\<forall>x \<in> set ys. apart x e" "\<forall>x \<in> set zs. apart e x"
    using ok sp n by (auto simp: extents_ok_def sorted_wrt_append apart_def)
  then show "extents_ok m rest"
    using ok m sp n by (auto simp: rest extents_ok_def extent_ok_def sorted_wrt_append)
qed

section \<open>The partition invariant\<close>

definition held_by :: "holdings \<Rightarrow> int \<Rightarrow> nat multiset" where
  "held_by H k = held {#x \<in># H. fst x = k#}"

definition same_keys :: "('k, 'a) dict \<Rightarrow> ('k, 'b) dict \<Rightarrow> bool" where
  "same_keys d d' \<longleftrightarrow> dom (map_of d) = dom (map_of d')"

definition contig_inv :: "holdings \<Rightarrow> contig kv \<Rightarrow> bool" where
  "contig_inv H s \<longleftrightarrow>
     dict_ok (tables s) \<and> dict_ok (reserved (policy s)) \<and> dict_ok (spans (policy s)) \<and> dict_ok (refcount s)
     \<and> same_keys (tables s) (reserved (policy s)) \<and> same_keys (tables s) (spans (policy s))
     \<and> (\<forall>x \<in># H. fst x \<in> dom (map_of (tables s)))
     \<and> (\<forall>k sp t r. map_of (spans (policy s)) k = Some sp \<longrightarrow> map_of (tables s) k = Some t \<longrightarrow>
          map_of (reserved (policy s)) k = Some r \<longrightarrow>
          0 \<le> fst sp \<and> 0 < snd sp \<and> (\<exists>scr. span_blocks sp = t @ r @ scr \<and> mset scr = held_by H k))
     \<and> blocks_of (extents (policy s)) + dsum (\<lambda>sp. mset (span_blocks sp)) (spans (policy s)) = mset [0..<num_blocks s]
     \<and> extents_ok (num_blocks s) (extents (policy s))
     \<and> (\<forall>b. map_of (refcount s) b = (if b \<in># refs H s then Some 1 else None))
     \<and> allocated_total s - freed_total s = int (length (refcount s))"

lemma contig_invD:
  assumes "contig_inv H s"
  shows "dict_ok (tables s)" "dict_ok (reserved (policy s))" "dict_ok (spans (policy s))" "dict_ok (refcount s)"
    "dom (map_of (reserved (policy s))) = dom (map_of (tables s))"
    "dom (map_of (spans (policy s))) = dom (map_of (tables s))"
    "x \<in># H \<Longrightarrow> fst x \<in> dom (map_of (tables s))"
    "map_of (spans (policy s)) k = Some sp \<Longrightarrow> map_of (tables s) k = Some t \<Longrightarrow>
       map_of (reserved (policy s)) k = Some r \<Longrightarrow>
       0 \<le> fst sp \<and> 0 < snd sp \<and> (\<exists>scr. span_blocks sp = t @ r @ scr \<and> mset scr = held_by H k)"
    "blocks_of (extents (policy s)) + dsum (\<lambda>sp. mset (span_blocks sp)) (spans (policy s)) = mset [0..<num_blocks s]"
    "extents_ok (num_blocks s) (extents (policy s))"
    "map_of (refcount s) b = (if b \<in># refs H s then Some 1 else None)"
    "allocated_total s - freed_total s = int (length (refcount s))"
proof -
  note i = assms [unfolded contig_inv_def same_keys_def]
  from i show "dict_ok (tables s)" by (elim conjE)
  from i show "dict_ok (reserved (policy s))" by (elim conjE)
  from i show "dict_ok (spans (policy s))" by (elim conjE)
  from i show "dict_ok (refcount s)" by (elim conjE)
  from i show "blocks_of (extents (policy s)) + dsum (\<lambda>sp. mset (span_blocks sp)) (spans (policy s))
    = mset [0..<num_blocks s]" by (elim conjE)
  from i show "extents_ok (num_blocks s) (extents (policy s))" by (elim conjE)
  from i show "allocated_total s - freed_total s = int (length (refcount s))" by (elim conjE)
  from i show "dom (map_of (reserved (policy s))) = dom (map_of (tables s))" by (elim conjE) (rule sym)
  from i show "dom (map_of (spans (policy s))) = dom (map_of (tables s))" by (elim conjE) (rule sym)
  show "x \<in># H \<Longrightarrow> fst x \<in> dom (map_of (tables s))" using i by (elim conjE) (drule (1) bspec)
  show "map_of (spans (policy s)) k = Some sp \<Longrightarrow> map_of (tables s) k = Some t \<Longrightarrow>
       map_of (reserved (policy s)) k = Some r \<Longrightarrow>
       0 \<le> fst sp \<and> 0 < snd sp \<and> (\<exists>scr. span_blocks sp = t @ r @ scr \<and> mset scr = held_by H k)"
    using i by (elim conjE) (elim allE impE, assumption+)
  show "map_of (refcount s) b = (if b \<in># refs H s then Some 1 else None)" using i by (elim conjE allE)
qed

lemma dsum_keys: "dict_ok d \<Longrightarrow> dsum f d = (\<Sum>k \<in> dom (map_of d). f (the (map_of d k)))"
proof (induction d)
  case Nil
  then show ?case by simp
next
  case (Cons p d)
  obtain k v where p: "p = (k, v)" by (cases p)
  have k: "k \<notin> dom (map_of d)" using Cons.prems p by (auto simp: dom_map_of_conv_image_fst)
  then have "(\<Sum>x \<in> dom (map_of d). f (the (map_of (p # d) x))) = (\<Sum>x \<in> dom (map_of d). f (the (map_of d x)))"
    using p by (intro sum.cong) auto
  moreover have dom: "dom (map_of (p # d)) = insert k (dom (map_of d))" using p by auto
  have "(\<Sum>x \<in> dom (map_of (p # d)). f (the (map_of (p # d) x)))
      = f (the (map_of (p # d) k)) + (\<Sum>x \<in> dom (map_of d). f (the (map_of (p # d) x)))"
    unfolding dom by (rule sum.insert [OF finite_dom_map_of k])
  moreover have "the (map_of (p # d) k) = v" "dsum f (p # d) = f v + dsum f d" using p by simp_all
  ultimately show ?case
    using Cons.IH Cons.prems p by (simp only:) simp
qed

lemma held_by_all:
  assumes "finite K" and "\<forall>x \<in># H. fst x \<in> K"
  shows "(\<Sum>k \<in> K. held_by H k) = held H"
  using assms(2)
proof (induction H)
  case empty
  then show ?case by (simp add: held_by_def)
next
  case (add x H)
  have "held_by (add_mset x H) k = (if k = fst x then {#snd x#} else {#}) + held_by H k" for k
    by (auto simp: held_by_def)
  then have "(\<Sum>k \<in> K. held_by (add_mset x H) k) = (\<Sum>k \<in> K. if k = fst x then {#snd x#} else {#}) + (\<Sum>k \<in> K. held_by H k)"
    by (simp add: sum.distrib)
  then show ?case
    using add assms(1) by simp
qed

lemma spans_total:
  assumes inv: "contig_inv H s"
  shows "dsum (\<lambda>sp. mset (span_blocks sp)) (spans (policy s)) = refs H s + dsum mset (reserved (policy s))"
proof -
  note d = contig_invD [OF inv]
  let ?K = "dom (map_of (tables s))"
  have "(\<Sum>k \<in> ?K. mset (span_blocks (the (map_of (spans (policy s)) k))))
      = (\<Sum>k \<in> ?K. mset (the (map_of (tables s) k)) + mset (the (map_of (reserved (policy s)) k)) + held_by H k)"
  proof (rule sum.cong [OF refl])
    fix k assume k: "k \<in> ?K"
    then obtain t r sp where k': "map_of (tables s) k = Some t" "map_of (reserved (policy s)) k = Some r"
        "map_of (spans (policy s)) k = Some sp"
      using d(5,6) by (metis domD)
    with d(8) [OF this(3,1,2)] have "mset (span_blocks sp) = mset t + mset r + held_by H k" by auto
    with k' show "mset (span_blocks (the (map_of (spans (policy s)) k)))
      = mset (the (map_of (tables s) k)) + mset (the (map_of (reserved (policy s)) k)) + held_by H k"
      by simp
  qed
  also have "\<dots> = refs H s + dsum mset (reserved (policy s))"
    using held_by_all [of ?K H] d(7)
    by (simp add: sum.distrib refs_def table_refs_def dsum_keys [OF d(1)] dsum_keys [OF d(2)] d(5)
        finite_dom_map_of ac_simps)
  finally show ?thesis by (simp add: dsum_keys [OF d(3)] d(6))
qed

lemma pool_partition:
  assumes "contig_inv H s"
  shows "blocks_of (extents (policy s)) + refs H s + dsum mset (reserved (policy s)) = mset [0..<num_blocks s]"
  using contig_invD(9) [OF assms] spans_total [OF assms] by (simp add: ac_simps)

lemma count_upt_le: "count (mset [0..<n]) b \<le> 1"
  using distinct_upt [of 0 n] by (simp add: distinct_count_atmost_1)

lemma size_blocks_of: "\<forall>e \<in> set es. 0 \<le> snd e \<Longrightarrow> int (size (blocks_of es)) = (\<Sum>(st, sz) \<leftarrow> es. sz)"
  by (induction es) auto

lemma size_dsum: "int (size (dsum mset d)) = (\<Sum>(k, r) \<leftarrow> d. int (length r))"
  by (induction d) auto

lemma contig_free_eq:
  assumes "contig_inv H s"
  shows "contig_free s = int (num_blocks s) - int (size (refs H s))"
proof -
  have "\<forall>e \<in> set (extents (policy s)). 0 \<le> snd e"
    using contig_invD(10) [OF assms] by (auto simp: extents_ok_def extent_ok_def split: if_splits)
  then have "contig_free s = int (size (blocks_of (extents (policy s)))) + int (size (dsum mset (reserved (policy s))))"
    by (simp add: contig_free_def size_blocks_of size_dsum)
  moreover have "size (blocks_of (extents (policy s))) + size (refs H s) + size (dsum mset (reserved (policy s))) = num_blocks s"
    using arg_cong [OF pool_partition [OF assms], of size] by simp
  ultimately show ?thesis by simp
qed

lemma refs_distinct: "contig_inv H s \<Longrightarrow> count (refs H s) b \<le> 1"
proof -
  assume inv: "contig_inv H s"
  have "refs H s \<subseteq># mset [0..<num_blocks s]"
    unfolding pool_partition [OF inv, symmetric] by simp
  then show ?thesis using count_upt_le [of "num_blocks s" b] by (meson le_trans mset_subset_eq_count)
qed

lemma contig_live:
  assumes inv: "contig_inv H s"
  shows "length (refcount s) = size (refs H s)"
proof -
  note d = contig_invD [OF inv]
  have "set (map fst (refcount s)) = dom (map_of (refcount s))" by (simp add: dom_map_of_conv_image_fst)
  also have "\<dots> = set_mset (refs H s)" using d(11) by (auto split: if_splits)
  finally have "length (refcount s) = card (set_mset (refs H s))"
    using distinct_card [OF d(4)] by simp
  also have "\<dots> = size (refs H s)"
    using refs_distinct [OF inv] by (simp add: size_multiset_overloaded_eq) 
      (metis (no_types, lifting) card_eq_sum One_nat_def Suc_leI count_greater_zero_iff le_antisym sum.cong)
  finally show ?thesis .
qed

lemma contig_check:
  assumes "contig_inv H s"
  shows "contig_assert_conservation s = (Inr (), s)"
  using contig_live [OF assms] contig_free_eq [OF assms] contig_invD(12) [OF assms]
  by (simp add: contig_assert_conservation_def prog_simps num_live_def)

section \<open>The contract\<close>

lemma map_of_mark_live: "map_of (mark_live bs rc) b = (if b \<in> set bs then Some 1 else map_of rc b)"
  by (induction bs arbitrary: rc) (auto simp: mark_live_def)

lemma dict_ok_mark_live: "dict_ok rc \<Longrightarrow> dict_ok (mark_live bs rc)"
  by (induction bs arbitrary: rc) (auto simp: mark_live_def)

lemma length_mark_live:
  "distinct bs \<Longrightarrow> \<forall>b \<in> set bs. map_of rc b = None \<Longrightarrow> length (mark_live bs rc) = length rc + length bs"
proof (induction bs arbitrary: rc)
  case Nil
  then show ?case by (simp add: mark_live_def)
next
  case (Cons b bs)
  have "\<forall>c \<in> set bs. map_of (AList.update b 1 rc) c = None" using Cons.prems by auto
  then have "length (mark_live bs (AList.update b 1 rc)) = length (AList.update b 1 rc) + length bs"
    using Cons.prems(1) by (intro Cons.IH) simp_all
  then show ?case using Cons.prems(2) by (simp add: mark_live_def length_update_new)
qed

lemma blocks_in_pool: "contig_inv H s \<Longrightarrow> b \<in># blocks_of (extents (policy s)) + refs H s + dsum mset (reserved (policy s))
    \<Longrightarrow> b < num_blocks s"
  using pool_partition [of H s] by simp

lemma sum_count_le:
  "contig_inv H s \<Longrightarrow> count (blocks_of (extents (policy s))) b + count (refs H s) b
     + count (dsum mset (reserved (policy s))) b \<le> 1"
  using pool_partition [of H s] count_upt_le [of "num_blocks s" b] by (metis count_union)

text \<open>Blocks that come out of the extents or of a reservation are referenced by nobody.\<close>

lemma unreferenced:
  assumes "contig_inv H s" and "b \<in># blocks_of (extents (policy s)) + dsum mset (reserved (policy s))"
  shows "b \<notin># refs H s" and "b < num_blocks s"
proof -
  have "0 < count (blocks_of (extents (policy s))) b + count (dsum mset (reserved (policy s))) b"
    using assms(2) by (metis count_union count_greater_zero_iff)
  then have "count (refs H s) b = 0" using sum_count_le [OF assms(1), of b] by linarith
  then show "b \<notin># refs H s" by (simp add: count_eq_zero_iff)
  show "b < num_blocks s" using blocks_in_pool [OF assms(1)] assms(2) by auto
qed

lemma held_by_outside: "(\<forall>x \<in># H. fst x \<in> K) \<Longrightarrow> k \<notin> K \<Longrightarrow> held_by H k = {#}"
proof -
  assume "\<forall>x \<in># H. fst x \<in> K" "k \<notin> K"
  then have "set_mset {#x \<in># H. fst x = k#} = {}" by auto
  then show ?thesis by (simp only: held_by_def set_mset_eq_empty_iff image_mset_empty)
qed

lemma table_refs_update_none:
  "map_of (tables s) sid = None \<Longrightarrow> tables s' = AList.update sid bs (tables s) \<Longrightarrow>
     table_refs s' = table_refs s + mset bs"
  by (simp add: table_refs_def dsum_update_new)

lemma table_refs_append:
  assumes "dict_ok (tables s)" and "map_of (tables s) sid = Some t"
    and "tables s' = AList.update sid (t @ bs) (tables s)"
  shows "table_refs s' = table_refs s + mset bs"
proof -
  have "table_refs s' + mset t = table_refs s + mset (t @ bs)"
    using table_refs_old [OF assms(1,2), of "t @ bs"] assms(3) by (simp add: table_refs_def)
  then show ?thesis by simp
qed

lemma contig_admit_law:
  assumes inv: "contig_inv H s" and n: "0 \<le> n" "n \<le> t" "0 < t"
  shows "case contig_admit sid n t s of
      (Inl e, s') \<Rightarrow> s' = s \<and> e = (if map_of (tables s) sid = None then AdmissionFailure else ValueError)
        \<and> (e = AdmissionFailure \<longrightarrow> (\<forall>x \<in> set (extents (policy s)). snd x < t))
    | (Inr bs, s') \<Rightarrow> map_of (tables s) sid = None \<and> length bs = nat n \<and> fresh bs H s
        \<and> tables s' = AList.update sid bs (tables s) \<and> num_blocks s' = num_blocks s
        \<and> contig_free s' = contig_free s - n \<and> contig_inv H s'"
proof (cases "map_of (tables s) sid = None \<and> first_fit t (extents (policy s)) \<noteq> None")
  case False
  then show ?thesis
    using first_fit_none [of t "extents (policy s)"] by (auto simp: contig_admit_def prog_simps)
next
  case True
  note d = contig_invD [OF inv]
  obtain st e es where fit: "first_fit t (extents (policy s)) = Some (st, e, es)" using True by auto
  note f = first_fit_ok [OF fit d(10) n(3)]
  let ?rest = "if snd e = 0 then remove1 e es else es"
  let ?span = "span_blocks (st, t)"
  define h where "h = slice_to n ?span"
  define r where "r = slice_from n ?span"
  have hr': "?span = h @ r" by (simp add: h_def r_def)
  then have hr: "mset ?span = mset h + mset r" by simp
  have hlen: "length h = nat n" using n by (simp add: h_def slice_to_def slice_pos_def)
  have dist: "distinct ?span" using f(1) by simp
  then have hd: "distinct h" unfolding h_def slice_to_def by simp
  have h_ext: "b \<in># blocks_of (extents (policy s))" if "b \<in> set h" for b
    using that unfolding f(2) hr by simp
  then have fr: "fresh h H s"
    using unreferenced [OF inv] hd by (auto simp: fresh_def)
  let ?s' = "s\<lparr>policy := policy s\<lparr>extents := ?rest, spans := AList.update sid (st, t) (spans (policy s)),
      reserved := AList.update sid r (reserved (policy s))\<rparr>,
    refcount := mark_live h (refcount s), allocated_total := allocated_total s + n,
    tables := AList.update sid h (tables s)\<rparr>"
  have run: "contig_admit sid n t s = (Inr h, ?s')"
    using True fit by (simp add: contig_admit_def prog_simps Let_def h_def r_def)
  have none: "map_of (tables s) sid = None" using True by simp
  have outside: "sid \<notin> dom (map_of (tables s))" using none by (simp add: domIff)
  have none': "map_of (spans (policy s)) sid = None" "map_of (reserved (policy s)) sid = None"
    using none d(5,6) by (metis domIff)+
  have refs': "refs H ?s' = refs H s + mset h"
    using table_refs_update_none [OF none, of ?s' h] by (simp add: refs_def)
  have none_rc: "\<forall>b \<in> set h. map_of (refcount s) b = None"
    using fr d(11) by (simp add: fresh_def)
  have "contig_inv H ?s'"
    unfolding contig_inv_def
  proof (intro conjI allI impI ballI)
    show "dict_ok (refcount ?s')" using d(4) by (simp add: dict_ok_mark_live)
    fix k sp t' r'
    assume a: "map_of (spans (policy ?s')) k = Some sp" "map_of (tables ?s') k = Some t'"
      "map_of (reserved (policy ?s')) k = Some r'"
    have "held_by H sid = {#}" using d(7) outside by (intro held_by_outside [of H "dom (map_of (tables s))"]) auto
    then show "0 \<le> fst sp" "0 < snd sp" "\<exists>scr. span_blocks sp = t' @ r' @ scr \<and> mset scr = held_by H k"
      using a d(8) [of k sp t' r'] f(1) n(3) hr' by (auto split: if_splits)
  next
    show "blocks_of (extents (policy ?s')) + dsum (\<lambda>sp. mset (span_blocks sp)) (spans (policy ?s'))
        = mset [0..<num_blocks ?s']"
      using d(9) f(2) dsum_update_new [OF none'(1), of "\<lambda>sp. mset (span_blocks sp)" "(st, t)"]
      by (simp add: ac_simps del: if_split)
    show "map_of (refcount ?s') b = (if b \<in># refs H ?s' then Some 1 else None)" for b
      unfolding refs' using d(11) by (auto simp: map_of_mark_live)
    show "allocated_total ?s' - freed_total ?s' = int (length (refcount ?s'))"
      using d(12) length_mark_live [OF hd none_rc] hlen n(1) by simp
  qed (use d f outside in \<open>auto simp: same_keys_def\<close>)
  moreover have "contig_free ?s' = contig_free s - n"
    using contig_free_eq [OF calculation] contig_free_eq [OF inv] refs' hlen n(1) by simp
  ultimately show ?thesis
    using run none hlen fr by simp
qed

lemma reserved_of:
  assumes "contig_inv H s" and "map_of (tables s) sid = Some t"
  obtains r sp where "map_of (reserved (policy s)) sid = Some r" and "map_of (spans (policy s)) sid = Some sp"
    and "0 \<le> fst sp" and "0 < snd sp" and "mset (span_blocks sp) = mset t + mset r + held_by H sid"
    and "\<exists>scr. span_blocks sp = t @ r @ scr \<and> mset scr = held_by H sid"
proof -
  note d = contig_invD [OF assms(1)]
  have "sid \<in> dom (map_of (tables s))" using assms(2) by auto
  then obtain r sp where "map_of (reserved (policy s)) sid = Some r" "map_of (spans (policy s)) sid = Some sp"
    using d(5,6) by (metis domD)
  with d(8) [OF this(2) assms(2) this(1)] show ?thesis by (intro that [of r sp]) auto
qed

lemma in_reserved: "map_of d k = Some r \<Longrightarrow> b \<in> set r \<Longrightarrow> b \<in># dsum mset d"
  by (induction d) (auto split: if_splits)

lemma contig_append_law:
  assumes inv: "contig_inv H s" and tab: "map_of (tables s) sid = Some t"
  shows "case contig_append sid s of
      (Inl e, s') \<Rightarrow> e = AdmissionFailure \<and> s' = s \<and> map_of (reserved (policy s)) sid = Some []
    | (Inr b, s') \<Rightarrow> fresh [b] H s \<and> tables s' = AList.update sid (t @ [b]) (tables s)
        \<and> num_blocks s' = num_blocks s \<and> contig_free s' = contig_free s - 1 \<and> contig_inv H s'"
proof -
  note d = contig_invD [OF inv]
  obtain r sp where r: "map_of (reserved (policy s)) sid = Some r" "map_of (spans (policy s)) sid = Some sp"
      "0 \<le> fst sp" "0 < snd sp" "mset (span_blocks sp) = mset t + mset r + held_by H sid"
      "\<exists>scr. span_blocks sp = t @ r @ scr \<and> mset scr = held_by H sid"
    by (rule reserved_of [OF assms])
  show ?thesis
  proof (cases r)
    case Nil
    with r show ?thesis by (simp add: contig_append_def prog_simps)
  next
    case (Cons b r')
    let ?s' = "s\<lparr>policy := policy s\<lparr>reserved := AList.update sid r' (reserved (policy s))\<rparr>,
      refcount := AList.update b 1 (refcount s), allocated_total := allocated_total s + 1,
      tables := AList.update sid (t @ [b]) (tables s)\<rparr>"
    have run: "contig_append sid s = (Inr b, ?s')"
      using r(1) tab Cons by (simp add: contig_append_def prog_simps)
    have fr: "b \<notin># refs H s" "b < num_blocks s"
      using unreferenced [OF inv, of b] in_reserved [OF r(1), of b] Cons by auto
    have refs': "refs H ?s' = add_mset b (refs H s)"
      using table_refs_append [OF d(1) tab, of ?s' "[b]"] by (simp add: refs_def)
    have "map_of (refcount s) b = None" using d(11) fr by simp
    then have len: "length (AList.update b 1 (refcount s)) = Suc (length (refcount s))"
      by (rule length_update_new)
    have dom: "insert sid (dom (map_of (tables s))) = dom (map_of (tables s))" using tab by auto
    have "contig_inv H ?s'"
      unfolding contig_inv_def
    proof (intro conjI allI impI ballI)
      fix k sp' t' r''
      assume a: "map_of (spans (policy ?s')) k = Some sp'" "map_of (tables ?s') k = Some t'"
        "map_of (reserved (policy ?s')) k = Some r''"
      show "0 \<le> fst sp'" "0 < snd sp'" "\<exists>scr. span_blocks sp' = t' @ r'' @ scr \<and> mset scr = held_by H k"
        using a d(8) [of k sp' t' r''] r(2-6) Cons by (auto split: if_splits)
    next
      show "map_of (refcount ?s') x = (if x \<in># refs H ?s' then Some 1 else None)" for x
        unfolding refs' using d(11) by auto
      show "allocated_total ?s' - freed_total ?s' = int (length (refcount ?s'))"
        using d(12) len by simp
      show "same_keys (tables ?s') (reserved (policy ?s'))" "same_keys (tables ?s') (spans (policy ?s'))"
        using d(5,6) dom by (simp_all add: same_keys_def)
    qed (use d dom in auto)
    moreover have "contig_free ?s' = contig_free s - 1"
      using contig_free_eq [OF calculation] contig_free_eq [OF inv] refs' by simp
    ultimately show ?thesis using run fr by (simp add: fresh_def)
  qed
qed

lemma filter_tag: "{#x \<in># tag sid bs. fst x = k#} = (if k = sid then tag sid bs else {#})"
  by (induction bs) (auto simp: tag_def)

lemma held_by_tag:
  "held_by (H + tag sid bs) k = held_by H k + (if k = sid then mset bs else {#})"
  by (simp add: held_by_def filter_tag)

lemma fst_tag: "x \<in># tag sid bs \<Longrightarrow> fst x = sid"
  by (auto simp: tag_def)

lemma take_scratch_law:
  assumes inv: "contig_inv H s" and tab: "map_of (tables s) sid = Some t" and n: "0 \<le> n"
  shows "case take_scratch sid n s of
      (Inl e, s') \<Rightarrow> e = AdmissionFailure \<and> s' = s
    | (Inr bs, s') \<Rightarrow> length bs = nat n \<and> fresh bs H s \<and> same_tables s s'
        \<and> contig_free s' = contig_free s - n \<and> contig_inv (H + tag sid bs) s'"
proof -
  note d = contig_invD [OF inv]
  obtain r sp where r: "map_of (reserved (policy s)) sid = Some r" "map_of (spans (policy s)) sid = Some sp"
      "0 \<le> fst sp" "0 < snd sp" "mset (span_blocks sp) = mset t + mset r + held_by H sid"
      "\<exists>scr. span_blocks sp = t @ r @ scr \<and> mset scr = held_by H sid"
    by (rule reserved_of [OF inv tab])
  show ?thesis
  proof (cases "int (length r) < n")
    case True
    with r show ?thesis by (simp add: take_scratch_def prog_simps)
  next
    case False
    define bs where "bs = slice_from (int (length r) - n) r"
    define r' where "r' = slice_to (int (length r) - n) r"
    have split': "r = r' @ bs" by (simp add: bs_def r'_def)
    then have split: "mset r = mset r' + mset bs" by simp
    have len: "length bs = nat n" using False n by (simp add: bs_def slice_from_def slice_pos_def)
    have "distinct (span_blocks sp)" using r(3) by (cases sp) simp
    then have "count (mset (span_blocks sp)) b \<le> 1" for b by (simp add: distinct_count_atmost_1)
    then have "count (mset bs) b \<le> 1" for b
      unfolding r(5) split by (metis add_leD2 add_leD1 count_union)
    then have dist: "distinct bs"
      by (metis count_greater_zero_iff distinct_count_atmost_1 le_antisym One_nat_def Suc_leI set_mset_mset
          count_eq_zero_iff)
    have sub: "set bs \<subseteq> set r" unfolding bs_def slice_from_def by (rule set_drop_subset)
    then have fr: "fresh bs H s"
      using unreferenced [OF inv] in_reserved [OF r(1)] dist by (auto simp: fresh_def)
    let ?s' = "s\<lparr>policy := policy s\<lparr>reserved := AList.update sid r' (reserved (policy s))\<rparr>,
      refcount := mark_live bs (refcount s), allocated_total := allocated_total s + n\<rparr>"
    have run: "take_scratch sid n s = (Inr bs, ?s')"
      using r(1) False by (simp add: take_scratch_def prog_simps bs_def r'_def Let_def)
    have refs': "refs (H + tag sid bs) ?s' = refs H s + mset bs"
      by (simp add: refs_def table_refs_def)
    have none_rc: "\<forall>b \<in> set bs. map_of (refcount s) b = None"
      using fr d(11) by (simp add: fresh_def)
    have dom: "insert sid (dom (map_of (tables s))) = dom (map_of (tables s))" using tab by auto
    have "contig_inv (H + tag sid bs) ?s'"
      unfolding contig_inv_def
    proof (intro conjI allI impI ballI)
      fix k sp' t' r''
      assume a: "map_of (spans (policy ?s')) k = Some sp'" "map_of (tables ?s') k = Some t'"
        "map_of (reserved (policy ?s')) k = Some r''"
      show "0 \<le> fst sp'" "0 < snd sp'"
        using a d(8) [of k sp' t' r''] r(2-4) by (auto split: if_splits)
      show "\<exists>scr. span_blocks sp' = t' @ r'' @ scr \<and> mset scr = held_by (H + tag sid bs) k"
      proof (cases "k = sid")
        case True
        from r(6) obtain scr where "span_blocks sp = t @ r @ scr" "mset scr = held_by H sid" by blast
        with True a r(2) tab split' show ?thesis by (intro exI [of _ "bs @ scr"]) (simp add: held_by_tag)
      next
        case False
        with a d(8) [of k sp' t' r''] show ?thesis by (auto simp: held_by_tag)
      qed
    next
      show "dict_ok (refcount ?s')" using d(4) by (simp add: dict_ok_mark_live)
      show "fst x \<in> dom (map_of (tables ?s'))" if "x \<in># H + tag sid bs" for x
        using that d(7) [of x] fst_tag [of x sid bs] tab by (cases "x \<in># H") auto
      show "map_of (refcount ?s') x = (if x \<in># refs (H + tag sid bs) ?s' then Some 1 else None)" for x
        unfolding refs' using d(11) by (auto simp: map_of_mark_live)
      show "allocated_total ?s' - freed_total ?s' = int (length (refcount ?s'))"
        using d(12) length_mark_live [OF dist none_rc] len n by simp
      show "same_keys (tables ?s') (reserved (policy ?s'))" "same_keys (tables ?s') (spans (policy ?s'))"
        using d(5,6) dom by (simp_all add: same_keys_def)
    qed (use d in auto)
    moreover have "contig_free ?s' = contig_free s - n"
      using contig_free_eq [OF calculation] contig_free_eq [OF inv] refs' len n by simp
    ultimately show ?thesis using run fr len by (simp add: same_tables_def)
  qed
qed

text \<open>Dropping the references of a list of blocks, each of which has exactly one.\<close>

definition drop_live :: "nat list \<Rightarrow> (nat, int) dict \<Rightarrow> (nat, int) dict" where
  "drop_live bs rc = fold AList.delete bs rc"

lemma map_of_drop_live: "map_of (drop_live bs rc) b = (if b \<in> set bs then None else map_of rc b)"
  by (induction bs arbitrary: rc) (auto simp: drop_live_def)

lemma dict_ok_drop_live: "dict_ok rc \<Longrightarrow> dict_ok (drop_live bs rc)"
  by (induction bs arbitrary: rc) (auto simp: drop_live_def)

lemma unref_span_each:
  "distinct bs \<Longrightarrow> \<forall>b \<in> set bs. map_of (refcount s) b = Some 1 \<Longrightarrow> dict_ok (refcount s) \<Longrightarrow>
     eachS unref_span_block bs s = (Inr (), s\<lparr>refcount := drop_live bs (refcount s),
       freed_total := freed_total s + int (length bs)\<rparr>)
     \<and> length (drop_live bs (refcount s)) + length bs = length (refcount s)"
proof (induction bs arbitrary: s)
  case Nil
  then show ?case by (simp add: prog_simps drop_live_def)
next
  case (Cons b bs)
  let ?s1 = "s\<lparr>refcount := AList.delete b (refcount s), freed_total := freed_total s + 1\<rparr>"
  have step: "unref_span_block b s = (Inr (), ?s1)"
    using Cons.prems(2) by (simp add: unref_span_block_def prog_simps)
  have "\<forall>c \<in> set bs. map_of (refcount ?s1) c = Some 1" using Cons.prems(1,2) by auto
  from Cons.IH [OF _ this] Cons.prems have ih: "eachS unref_span_block bs ?s1
      = (Inr (), ?s1\<lparr>refcount := drop_live bs (refcount ?s1), freed_total := freed_total ?s1 + int (length bs)\<rparr>)"
    "length (drop_live bs (refcount ?s1)) + length bs = length (refcount ?s1)"
    by auto
  have "map_of (refcount s) b = Some 1" using Cons.prems(2) by simp
  note del = length_delete [OF Cons.prems(3) this]
  have fold: "drop_live (b # bs) (refcount s) = drop_live bs (AList.delete b (refcount s))"
    by (simp add: drop_live_def)
  show ?case
    using step ih del by (simp add: prog_simps fold)
qed

lemma contig_retire_law:
  assumes inv: "contig_inv H s" and tab: "map_of (tables s) sid = Some t"
    and bs: "{#x \<in># H. fst x = sid#} = tag sid bs"
  shows "\<exists>s'. thenS (contig_unref_blocks bs) (contig_release sid) s = (Inr (), s')
    \<and> tables s' = AList.delete sid (tables s) \<and> num_blocks s' = num_blocks s
    \<and> contig_free s \<le> contig_free s' \<and> contig_inv (H - tag sid bs) s'"
proof -
  note d = contig_invD [OF inv]
  obtain r sp where r: "map_of (reserved (policy s)) sid = Some r" "map_of (spans (policy s)) sid = Some sp"
      "0 \<le> fst sp" "0 < snd sp" "mset (span_blocks sp) = mset t + mset r + held_by H sid"
      "\<exists>scr. span_blocks sp = t @ r @ scr \<and> mset scr = held_by H sid"
    by (rule reserved_of [OF inv tab])
  let ?H' = "H - tag sid bs"
  have sub: "tag sid bs \<subseteq># H" unfolding bs [symmetric] by (rule multiset_filter_subset)
  have hb: "held_by H sid = mset bs" by (simp add: held_by_def bs)
  have H': "H = ?H' + tag sid bs" using sub by simp
  have trefs: "table_refs s = table_refs (s\<lparr>tables := AList.delete sid (tables s)\<rparr>) + mset t"
    by (rule table_refs_delete [OF d(1) tab])
  have refs: "refs H s = table_refs (s\<lparr>tables := AList.delete sid (tables s)\<rparr>) + held ?H' + mset (bs @ t)"
    unfolding refs_def trefs by (subst H') (simp add: ac_simps)
  have "count (mset (bs @ t)) b \<le> 1" for b
    using refs_distinct [OF inv, of b] unfolding refs by (simp only: count_union)
  then have dist: "distinct (bs @ t)"
    by (metis count_greater_zero_iff distinct_count_atmost_1 le_antisym One_nat_def Suc_leI set_mset_mset
        count_eq_zero_iff)
  have one: "\<forall>b \<in> set (bs @ t). map_of (refcount s) b = Some 1"
    using d(11) unfolding refs by auto
  note u = unref_span_each [OF dist one d(4)]
  define p' where "p' = (policy s)\<lparr>reserved := AList.delete sid (reserved (policy s)),
    spans := AList.delete sid (spans (policy s)), extents := return_extent sp (extents (policy s))\<rparr>"
  define s' where "s' = s\<lparr>refcount := drop_live (bs @ t) (refcount s),
    freed_total := freed_total s + int (length (bs @ t)), tables := AList.delete sid (tables s), policy := p'\<rparr>"
  have run: "thenS (contig_unref_blocks bs) (contig_release sid) s = (Inr (), s')"
  proof -
    have db: "distinct bs" "\<forall>b \<in> set bs. map_of (refcount s) b = Some 1" using dist one by auto
    note u1 = unref_span_each [OF db d(4)]
    let ?s1 = "s\<lparr>refcount := drop_live bs (refcount s), freed_total := freed_total s + int (length bs),
      tables := AList.delete sid (tables s)\<rparr>"
    have "\<forall>b \<in> set t. map_of (refcount ?s1) b = Some 1" using dist one by (auto simp: map_of_drop_live)
    moreover have "dict_ok (refcount ?s1)" "distinct t" using d(4) dist by (simp_all add: dict_ok_drop_live)
    ultimately have "eachS unref_span_block t ?s1 = (Inr (), ?s1\<lparr>refcount := drop_live t (refcount ?s1),
       freed_total := freed_total ?s1 + int (length t)\<rparr>)"
      using unref_span_each by blast
    then show ?thesis
      using u1 tab r(1,2) by (simp add: contig_unref_blocks_def contig_release_def prog_simps s'_def p'_def
          drop_live_def)
  qed
  have refs': "refs ?H' s' = table_refs (s\<lparr>tables := AList.delete sid (tables s)\<rparr>) + held ?H'"
    by (simp add: refs_def s'_def table_refs_def)
  have rc_count: "count (refs H s) b = count (refs ?H' s') b + count (mset (bs @ t)) b" for b
    unfolding refs refs' by simp
  have sp_dsum: "dsum (\<lambda>sp. mset (span_blocks sp)) (spans (policy s))
      = dsum (\<lambda>sp. mset (span_blocks sp)) (AList.delete sid (spans (policy s))) + mset (span_blocks sp)"
    by (rule dsum_delete [OF d(3) r(2)])
  have N: "0 < num_blocks s"
  proof (rule ccontr)
    assume "\<not> 0 < num_blocks s"
    then have "span_blocks sp = []" using d(9) sp_dsum by simp
    moreover have "length (span_blocks sp) = nat (snd sp)" using r(4) by (cases sp) simp
    ultimately show False using r(4) by simp
  qed
  have "count (blocks_of (extents (policy s)) + mset (span_blocks sp)) b \<le> 1" for b
    using arg_cong [OF d(9), of "\<lambda>M. count M b"] count_upt_le [of "num_blocks s" b]
    unfolding sp_dsum by (simp only: count_union)
  then have ex: "extents_ok (num_blocks s) (return_extent sp (extents (policy s)))"
    "blocks_of (return_extent sp (extents (policy s))) = blocks_of (extents (policy s)) + mset (span_blocks sp)"
    using return_extent_ok [OF d(10) N r(3,4)] by blast+
  have "contig_inv ?H' s'"
    unfolding contig_inv_def
  proof (intro conjI allI impI ballI)
    show "dict_ok (tables s')" "dict_ok (reserved (policy s'))" "dict_ok (spans (policy s'))"
      using d(1-3) by (simp_all add: s'_def p'_def)
    show "dict_ok (refcount s')" using d(4) by (simp add: s'_def dict_ok_drop_live)
    show "same_keys (tables s') (reserved (policy s'))" "same_keys (tables s') (spans (policy s'))"
      using d(5,6) by (simp_all add: same_keys_def s'_def p'_def)
    fix x assume x: "x \<in># ?H'"
    then have "x \<in># H" by (rule in_diffD)
    moreover have "fst x \<noteq> sid"
    proof
      assume "fst x = sid"
      have "count {#y \<in># H. fst y = sid#} x = count (tag sid bs) x" unfolding bs ..
      then have "count H x = count (tag sid bs) x" using \<open>fst x = sid\<close> by simp
      moreover have "0 < count ?H' x" using x by (rule count_greater_zero_iff [THEN iffD2])
      ultimately show False by simp
    qed
    ultimately show "fst x \<in> dom (map_of (tables s'))" using d(7) by (auto simp: s'_def)
  next
    fix k sp' t' r'
    assume a: "map_of (spans (policy s')) k = Some sp'" "map_of (tables s') k = Some t'"
      "map_of (reserved (policy s')) k = Some r'"
    then have k: "k \<noteq> sid" by (auto simp: s'_def)
    have "held_by H k = held_by ?H' k" using held_by_tag [of ?H' sid bs k] k H' by simp
    then show "0 \<le> fst sp'" "0 < snd sp'" "\<exists>scr. span_blocks sp' = t' @ r' @ scr \<and> mset scr = held_by ?H' k"
      using a k d(8) [of k sp' t' r'] by (auto simp: s'_def p'_def)
  next
    show "blocks_of (extents (policy s')) + dsum (\<lambda>sp. mset (span_blocks sp)) (spans (policy s'))
        = mset [0..<num_blocks s']"
      using d(9) ex(2) sp_dsum by (simp add: s'_def p'_def ac_simps)
    show "extents_ok (num_blocks s') (extents (policy s'))" using ex(1) by (simp add: s'_def p'_def)
    show "allocated_total s' - freed_total s' = int (length (refcount s'))"
      using d(12) u by (simp add: s'_def)
    fix b
    have "b \<in># refs H s \<longleftrightarrow> b \<in># refs ?H' s' \<or> b \<in> set (bs @ t)" unfolding refs refs' by auto
    moreover have "b \<notin># refs ?H' s'" if "b \<in> set (bs @ t)"
    proof -
      from that have "0 < count (mset (bs @ t)) b" by (simp only: count_greater_zero_iff set_mset_mset)
      then have "count (refs ?H' s') b = 0" using rc_count [of b] refs_distinct [OF inv, of b] by linarith
      then show ?thesis by (rule not_in_iff [THEN iffD2])
    qed
    ultimately show "map_of (refcount s') b = (if b \<in># refs ?H' s' then Some 1 else None)"
      using d(11) [of b] by (auto simp: s'_def map_of_drop_live)
  qed
  moreover have "contig_free s \<le> contig_free s'"
    using contig_free_eq [OF calculation] contig_free_eq [OF inv] unfolding refs refs' by (simp add: s'_def)
  ultimately show ?thesis using run by (simp add: s'_def)
qed

interpretation contig_calls: kv_contract contiguous_allocator contig_inv
proof (unfold_locales, goal_cases)
  case (1 H s)
  then show ?case by (simp add: contiguous_allocator_def contig_check)
next
  case (2 H s)
  then have "contig_free s \<ge> 0"
    using pool_partition [OF 2, THEN arg_cong, of size] contig_free_eq [OF 2] by simp
  then show ?case using contig_free_eq [OF 2] contig_invD(1) [OF 2] by (simp add: contiguous_allocator_def)
next
  case (3 s)
  then show ?case using contig_free_eq [OF 3(1)] by (simp add: contiguous_allocator_def refs_def table_refs_def)
next
  case (4 H s n t sid)
  then show ?case using contig_admit_law [of H s n t sid]
    by (auto simp: contiguous_allocator_def split: prod.splits sum.splits)
next
  case (6 H s sid tab)
  then show ?case using contig_append_law [of H s sid tab]
    by (auto simp: contiguous_allocator_def split: prod.splits sum.splits)
next
  case (9 H s sid n)
  then obtain t where "map_of (tables s) sid = Some t" by auto
  from take_scratch_law [OF 9(2) this 9(4)] show ?case
    by (auto simp: contiguous_allocator_def split: prod.splits sum.splits)
next
  case (12 H s sid tab bs)
  from contig_retire_law [OF 12] show ?case by (auto simp: contiguous_allocator_def)
next
  case (14 H s b)
  then have "b \<in># mset [0..<num_blocks s]" using pool_partition [OF 14(1)] by (metis union_iff)
  then show ?case by simp
qed (simp_all add: contiguous_allocator_def)

lemma contig_init: "contig_inv {#} (ContiguousOracle n)"
proof -
  have "map nat [0..int n - 1] = [0..<n]"
    by (rule nth_equalityI) (auto simp: nth_upto)
  then have "mset (span_blocks (0, int n)) = mset [0..<n]" by (simp add: span_blocks_def)
  moreover have "extents_ok n [(0, int n)]" by (simp add: extents_ok_def extent_ok_def)
  ultimately show ?thesis
    by (simp add: contig_inv_def ContiguousOracle_def kv_init_def same_keys_def refs_def table_refs_def)
qed

section \<open>Properties\<close>

lemma contig_reach: "kv_reach contiguous_allocator (ContiguousOracle n) H s \<Longrightarrow> contig_inv H s"
  by (rule contig_calls.reach_inv [OF _ contig_init])

text \<open>A run of consecutive free blocks lies in one extent, because extents are maximal.\<close>

lemma blocks_of_mem:
  "extents_ok n es \<Longrightarrow> b \<in># blocks_of es \<longleftrightarrow> (\<exists>e \<in> set es. fst e \<le> int b \<and> int b < fst e + snd e)"
proof (induction es)
  case Nil
  then show ?case by simp
next
  case (Cons e es)
  then have "b \<in> set (span_blocks e) \<longleftrightarrow> fst e \<le> int b \<and> int b < fst e + snd e"
    using span_blocks_mem [of "fst e" b "snd e"] by (simp add: extents_ok_def extent_ok_def)
  with Cons show ?case by (simp add: extents_ok_def)
qed

lemma extents_apart:
  "extents_ok n es \<Longrightarrow> e \<in> set es \<Longrightarrow> e' \<in> set es \<Longrightarrow> e = e' \<or> apart e e' \<or> apart e' e"
  unfolding extents_ok_def
  by (induction es) auto

lemma run_in_extent:
  assumes ok: "extents_ok n es"
  shows "\<forall>i \<le> j. a + i \<in># blocks_of es \<Longrightarrow>
    \<exists>e \<in> set es. fst e \<le> int a \<and> int (a + j) < fst e + snd e"
proof (induction j)
  case 0
  then show ?case using blocks_of_mem [OF ok, of a] by simp
next
  case (Suc j)
  then obtain e where e: "e \<in> set es" "fst e \<le> int a" "int (a + j) < fst e + snd e" by auto
  from Suc.prems have "a + Suc j \<in># blocks_of es" by blast
  then obtain e' where e': "e' \<in> set es" "fst e' \<le> int (a + Suc j)" "int (a + Suc j) < fst e' + snd e'"
    using blocks_of_mem [OF ok] by blast
  have "\<not> apart e e'" "\<not> apart e' e" using e e' by (auto simp: apart_def)
  with extents_apart [OF ok e(1) e'(1)] have "e = e'" by blast
  with e e' show ?case by blast
qed

text \<open>C12: The contiguous oracle keeps conservation under any client: admissions, appends, the scratch
  region claimed from the end of the span, and retirements (scratch dropped, then released).\<close>

theorem contiguous_conservation:
  assumes "kv_reach contiguous_allocator (ContiguousOracle n) H s"
  shows "m_check contiguous_allocator s = (Inr (), s)"
  by (rule contig_calls.check_law [OF contig_reach [OF assms]])

text \<open>C36: In every reachable state each table of the contiguous oracle is one run of consecutive blocks, in
  order, whatever was appended after admission.\<close>

theorem contiguous_tables_are_runs:
  assumes "kv_reach contiguous_allocator (ContiguousOracle n) H s" and "map_of (tables s) sid = Some t"
  shows "\<exists>a. t = [a..<a + length t]"
proof -
  obtain r sp where sp: "0 \<le> fst sp" "\<exists>scr. span_blocks sp = t @ r @ scr \<and> mset scr = held_by H sid"
    by (rule reserved_of [OF contig_reach [OF assms(1)] assms(2)])
  then obtain scr where "span_blocks sp = t @ r @ scr" by blast
  then have "t = take (length t) (span_blocks sp)" by simp
  also have "\<dots> = [nat (fst sp)..<nat (fst sp) + length t]"
  proof -
    have "length t \<le> length (span_blocks sp)" using \<open>span_blocks sp = t @ r @ scr\<close> by simp
    then show ?thesis
      using sp(1) by (intro nth_equalityI) (auto simp: span_blocks_def nth_upto split: prod.splits)
  qed
  finally show ?thesis by blast
qed

text \<open>C35: Admission to the contiguous oracle fails exactly under fragmentation: an admission of a new sequence
  is refused if and only if the unreserved free blocks contain no run of \<open>t\<close> consecutive blocks.\<close>

theorem contiguous_admission_fails_iff_fragmented:
  assumes "kv_reach contiguous_allocator (ContiguousOracle n) H s" and "map_of (tables s) sid = None"
    and "0 \<le> m" and "m \<le> t" and "0 < t"
  shows "fst (m_admit contiguous_allocator sid m t s) = Inl AdmissionFailure
    \<longleftrightarrow> \<not> (\<exists>a. \<forall>i < nat t. a + i \<in># blocks_of (extents (policy s)))"
proof -
  have inv: "contig_inv H s" by (rule contig_reach [OF assms(1)])
  have ok: "extents_ok (num_blocks s) (extents (policy s))" by (rule contig_invD(10) [OF inv])
  have "(\<exists>a. \<forall>i < nat t. a + i \<in># blocks_of (extents (policy s)))
      \<longleftrightarrow> (\<exists>e \<in> set (extents (policy s)). t \<le> snd e)" (is "?run \<longleftrightarrow> ?fit")
  proof
    assume ?run
    then obtain a where "\<forall>i < nat t. a + i \<in># blocks_of (extents (policy s))" by blast
    then have "\<forall>i \<le> nat t - 1. a + i \<in># blocks_of (extents (policy s))" using assms(5) by auto
    from run_in_extent [OF ok this] obtain e where "e \<in> set (extents (policy s))" "fst e \<le> int a"
        "int (a + (nat t - 1)) < fst e + snd e" by blast
    with assms(5) show ?fit by (intro bexI [of _ e]) auto
  next
    assume ?fit
    then obtain e where e: "e \<in> set (extents (policy s))" "t \<le> snd e" by blast
    then have "0 \<le> fst e" using ok by (auto simp: extents_ok_def extent_ok_def)
    with e show ?run
      by (intro exI [of _ "nat (fst e)"]) (auto simp: blocks_of_mem [OF ok] intro!: bexI [of _ e])
  qed
  also have "\<dots> \<longleftrightarrow> fst (m_admit contiguous_allocator sid m t s) \<noteq> Inl AdmissionFailure"
    using contig_admit_law [OF inv assms(3-5), of sid] assms(2) first_fit_none [of t "extents (policy s)"]
    by (auto simp: contiguous_allocator_def contig_admit_def prog_simps Let_def not_less
        split: option.splits prod.splits)
  finally show ?thesis by blast
qed

text \<open>C33: Released spans merge back completely: when no sequence is left, the whole pool is one free extent
  again, in any order of releases.\<close>

theorem contiguous_pool_heals:
  assumes "kv_reach contiguous_allocator (ContiguousOracle n) H s" and "0 < n" and "tables s = []"
  shows "extents (policy s) = [(0, int n)]"
proof -
  note inv = contig_reach [OF assms(1)]
  note d = contig_invD [OF inv]
  have n: "num_blocks s = n"
    using contig_calls.reach_pool [OF assms(1) contig_init] by (simp add: ContiguousOracle_def kv_init_def)
  let ?es = "extents (policy s)"
  have "dom (map_of (spans (policy s))) = {}" using d(6) assms(3) by simp
  then have "spans (policy s) = []" by simp
  then have blocks: "blocks_of ?es = mset [0..<n]" using d(9) n by simp
  note ok = d(10) [unfolded n]
  have "\<forall>i \<le> n - 1. 0 + i \<in># blocks_of ?es" using assms(2) unfolding blocks by auto
  from run_in_extent [OF ok this] obtain e where e: "e \<in> set ?es" "fst e \<le> 0" "int (n - 1) < fst e + snd e"
    by auto
  then have e0: "fst e = 0" using ok by (auto simp: extents_ok_def extent_ok_def)
  have bound: "fst x + snd x \<le> int n" "0 \<le> fst x" "0 < snd x" if x: "x \<in> set ?es" for x
  proof -
    show x0: "0 \<le> fst x" "0 < snd x" using ok x assms(2) by (auto simp: extents_ok_def extent_ok_def)
    then have "nat (fst x + snd x - 1) \<in># blocks_of ?es"
      unfolding blocks_of_mem [OF ok] using x by (intro bexI [of _ x]) auto
    then show "fst x + snd x \<le> int n" using x0 unfolding blocks by auto
  qed
  have all: "x = (0, int n)" if x: "x \<in> set ?es" for x
  proof -
    have "\<not> apart e x" "\<not> apart x e" using bound [OF x] e(2,3) assms(2) e0 by (auto simp: apart_def)
    then have "x = e" using extents_apart [OF ok e(1) x] by blast
    then show ?thesis using bound [OF x] e(3) e0 assms(2) by (cases x) auto
  qed
  show ?thesis
  proof (cases ?es)
    case Nil
    with e(1) show ?thesis by simp
  next
    case (Cons x xs)
    have "xs = []"
    proof (cases xs)
      case (Cons y ys)
      then have "apart x y" using ok \<open>?es = x # xs\<close> by (simp add: extents_ok_def)
      then show ?thesis using all [of x] all [of y] \<open>?es = x # xs\<close> Cons by (simp add: apart_def)
    qed simp
    then show ?thesis using all [of x] Cons by simp
  qed
qed

section \<open>Witnesses\<close>

definition contig_run :: "contig kv" where
  "contig_run = final (m_admit contiguous_allocator 7 2 3) (ContiguousOracle 8)"

lemma contig_run: "kv_reach contiguous_allocator (ContiguousOracle 8) {#} contig_run"
  unfolding contig_run_def by (rule kv_reach_admit [OF kv_reach_refl]) simp_all

theorem contiguous_conservation_witness: "m_check contiguous_allocator contig_run = (Inr (), contig_run)"
  by (rule contiguous_conservation [OF contig_run])

theorem contiguous_tables_are_runs_witness: "\<exists>a. [0, 1] = [a..<a + length [0 :: nat, 1]]"
proof (rule contiguous_tables_are_runs [OF contig_run])
  show "map_of (tables contig_run) 7 = Some [0, 1]" by code_simp
qed

theorem contiguous_admission_fails_iff_fragmented_witness:
  "\<not> (\<exists>a. \<forall>i < nat 6. a + i \<in># blocks_of (extents (policy contig_run)))"
proof -
  have "map_of (tables contig_run) 8 = None"
    and "fst (m_admit contiguous_allocator 8 1 6 contig_run) = Inl AdmissionFailure" by code_simp+
  with contiguous_admission_fails_iff_fragmented [OF contig_run, of 8 1 6] show ?thesis by simp
qed

theorem contiguous_pool_heals_witness:
  "extents (policy (final (m_release contiguous_allocator 7) contig_run)) = [(0, 8)]"
proof -
  let ?s = "final (m_release contiguous_allocator 7) contig_run"
  have "m_unref contiguous_allocator [] = ret ()"
    by (simp add: contiguous_allocator_def contig_unref_blocks_def fun_eq_iff)
  then have "thenS (m_unref contiguous_allocator []) (m_release contiguous_allocator 7) contig_run
      = (fst (m_release contiguous_allocator 7 contig_run), ?s)"
    by (simp add: prog_simps)
  moreover have "map_of (tables contig_run) 7 \<noteq> None" by code_simp
  ultimately have "kv_step contiguous_allocator ({#}, contig_run) ({#} - tag 7 [], ?s)"
    by (intro kv_step.retire [where r = "fst (m_release contiguous_allocator 7 contig_run)"]) simp_all
  then have "kv_reach contiguous_allocator (ContiguousOracle 8) {#} ?s"
    using contig_run by (simp add: rtranclp.rtrancl_into_rtrancl)
  moreover have "tables ?s = []" by code_simp
  ultimately show ?thesis using contiguous_pool_heals [of 8 "{#}" ?s] by simp
qed

end
