(* ===== verification/Pim_Model.thy ===== *)
theory Pim_Model
  imports Complex_Main "HOL-Library.Multiset" Config
begin

text \<open>
  The analytical execution model \<open>pimkv/pimmodel.py\<close>: coalescing a channel's burst stream into all-bank
  commands, row hits, and the metrics M1 to M4. A burst is a pair of its bank and its row, the parallel
  numpy arrays of the code. Metrics are floats in the code and \<open>real\<close> here.
\<close>

section \<open>Grouping a window by row\<close>

type_synonym burst = "int \<times> int"

definition burst_key :: "int \<Rightarrow> burst \<Rightarrow> int" where
  "burst_key B p = snd p * B + fst p"

text \<open>\<open>np.unique(key, return_counts=True)\<close>.\<close>

definition unique_counts :: "int list \<Rightarrow> (int \<times> int) list" where
  "unique_counts ks = map (\<lambda>k. (k, int (count_list ks k))) (sort (remdups ks))"

text \<open>\<open>seg\<close> and \<open>np.maximum.reduceat(cnt, seg)\<close>: a segment is a maximal run of entries of one row, and becomes
  one group with its largest count.\<close>

function row_groups :: "(int \<times> int) list \<Rightarrow> (int \<times> int) list" where
  "row_groups [] = []"
| "row_groups ((r, c) # rest) =
     (r, foldl max c (map snd (takeWhile (\<lambda>p. fst p = r) rest))) # row_groups (dropWhile (\<lambda>p. fst p = r) rest)"
  by pat_completeness auto
termination by (relation "measure length") (auto simp: length_dropWhile_le le_imp_less_Suc)

definition win_rows :: "int \<Rightarrow> burst list \<Rightarrow> (int \<times> int) list" where
  "win_rows B w = row_groups (map (\<lambda>(k, c). (k div B, c)) (unique_counts (map (burst_key B) w)))"

definition searchsorted :: "int list \<Rightarrow> int \<Rightarrow> nat" where
  "searchsorted xs x = length (takeWhile (\<lambda>y. y < x) xs)"

definition carry_present :: "int list \<Rightarrow> int \<Rightarrow> bool" where
  "carry_present rows carry = (let i = searchsorted rows carry in i < length rows \<and> rows ! i = carry)"

definition window_cmds :: "int \<Rightarrow> burst list \<Rightarrow> int" where
  "window_cmds B w = sum_list (map snd (win_rows B w))"

text \<open>One iteration of the window loop on \<open>(n_cmds, n_hits, carry)\<close>.\<close>

definition window_step :: "int \<Rightarrow> int \<times> int \<times> int \<Rightarrow> burst list \<Rightarrow> int \<times> int \<times> int" where
  "window_step B = (\<lambda>(n_cmds, n_hits, carry) w.
     let rows = map fst (win_rows B w); cmds_w = window_cmds B w;
         misses = int (length rows) - (if carry_present rows carry then 1 else 0)
     in (n_cmds + cmds_w, n_hits + (cmds_w - misses), snd (last w)))"

text \<open>\<open>for s in range(0, n, window)\<close> with the slice \<open>[s:s + window]\<close>.\<close>

function chunks :: "nat \<Rightarrow> 'a list \<Rightarrow> 'a list list" where
  "chunks k xs = (if k = 0 \<or> xs = [] then [] else take k xs # chunks k (drop k xs))"
  by auto
termination by (relation "measure (\<lambda>(k, xs). length xs)") auto

declare chunks.simps [simp del]

definition windows :: "int \<Rightarrow> 'a list \<Rightarrow> py_error + 'a list list" where
  "windows window xs = (if window = 0 then Inl ValueError else if window < 0 then Inr [] else Inr (chunks (nat window) xs))"

text \<open>\<open>_coalesce_inorder\<close>: one burst of the loop on \<open>(n_cmds, n_hits, open_row, cur_row, cur_banks)\<close>.\<close>

definition inorder_step ::
  "int \<Rightarrow> int \<times> int \<times> int \<times> int \<times> int list \<Rightarrow> burst \<Rightarrow> int \<times> int \<times> int \<times> int \<times> int list" where
  "inorder_step B = (\<lambda>(n_cmds, n_hits, open_row, cur_row, cur_banks) (b, r).
     if r \<noteq> cur_row \<or> b \<in> set cur_banks \<or> int (length cur_banks) = B then
       (if cur_row \<noteq> - 1
        then (n_cmds + 1, n_hits + (if cur_row = open_row then 1 else 0), cur_row, r, [b])
        else (n_cmds, n_hits, open_row, r, [b]))
     else (n_cmds, n_hits, open_row, cur_row, b # cur_banks))"

definition coalesce_inorder :: "int \<Rightarrow> burst list \<Rightarrow> int \<times> int \<times> int" where
  "coalesce_inorder B bursts =
     (let (n_cmds, n_hits, open_row, cur_row, cur_banks) = foldl (inorder_step B) (0, 0, - 1, - 1, []) bursts in
      if cur_row \<noteq> - 1
      then (n_cmds + 1, n_hits + (if cur_row = open_row then 1 else 0), int (length bursts))
      else (n_cmds, n_hits, int (length bursts)))"

definition coalesce_channel :: "int \<Rightarrow> int \<Rightarrow> string \<Rightarrow> burst list \<Rightarrow> py_error + int \<times> int \<times> int" where
  "coalesce_channel B window mode bursts =
     (if bursts = [] then Inr (0, 0, 0)
      else if mode = ''inorder'' then Inr (coalesce_inorder B bursts)
      else if mode \<noteq> ''window'' then Inl ValueError
      else case windows window bursts of
        Inl e \<Rightarrow> Inl e
      | Inr ws \<Rightarrow> let (n_cmds, n_hits, carry) = foldl (window_step B) (0, 0, - 1) ws in
          Inr (n_cmds, n_hits, int (length bursts)))"

section \<open>Metrics of a sequence\<close>

record seq_metrics =
  n_bursts :: int
  n_cmds :: int
  n_hits :: int
  m1 :: real
  m2 :: real

text \<open>The loop over \<open>np.unique(ch)\<close>; a burst comes with its channel.\<close>

fun channel_loop ::
  "int \<Rightarrow> int \<Rightarrow> string \<Rightarrow> (int \<times> burst) list \<Rightarrow> int list \<Rightarrow> int \<times> int \<times> int \<Rightarrow> py_error + int \<times> int \<times> int" where
  "channel_loop B window mode bs [] acc = Inr acc"
| "channel_loop B window mode bs (c # cs) (cmds, hits, nb) =
     (case coalesce_channel B window mode (map snd (filter (\<lambda>x. fst x = c) bs)) of
        Inl e \<Rightarrow> Inl e
      | Inr (cc, hh, bb) \<Rightarrow> channel_loop B window mode bs cs (cmds + cc, hits + hh, nb + bb))"

definition sequence_metrics ::
  "dram_geometry \<Rightarrow> int \<Rightarrow> string \<Rightarrow> (int \<times> burst) list \<Rightarrow> py_error + seq_metrics" where
  "sequence_metrics geom window mode bs =
     (case channel_loop (banks_per_channel geom) window mode bs (sort (remdups (map fst bs))) (0, 0, 0) of
        Inl e \<Rightarrow> Inl e
      | Inr (cmds, hits, nb) \<Rightarrow>
          Inr \<lparr>n_bursts = nb, n_cmds = cmds, n_hits = hits,
            m1 = (if cmds \<noteq> 0 then real_of_int hits / real_of_int cmds else 0),
            m2 = (if cmds \<noteq> 0 then real_of_int nb / (real_of_int (banks_per_channel geom) * real_of_int cmds) else 0)\<rparr>)"

text \<open>M3 and M4. A zero divisor raises in the code.\<close>

definition bw_ideal :: "dram_geometry \<Rightarrow> pim_timing \<Rightarrow> real" where
  "bw_ideal geom timing =
     real_of_int (channels geom * banks_per_channel geom * burst_bytes geom) / tccd_ab_ns timing"

definition effective_bandwidth_gbps ::
  "real \<Rightarrow> real \<Rightarrow> dram_geometry \<Rightarrow> pim_timing \<Rightarrow> py_error + real" where
  "effective_bandwidth_gbps x1 x2 geom timing =
     (let t_cmd = x1 * tccd_ab_ns timing + (1 - x1) * trc_ns timing in
      if tccd_ab_ns timing = 0 \<or> t_cmd = 0 then Inl ZeroDivisionError
      else Inr (bw_ideal geom timing * x2 * (tccd_ab_ns timing / t_cmd)))"

definition decode_latency_ns :: "real \<Rightarrow> real \<Rightarrow> py_error + real" where
  "decode_latency_ns kv_bytes bw = (if bw = 0 then Inl ZeroDivisionError else Inr (kv_bytes / bw))"

section \<open>What a window costs\<close>

definition bursts_ok :: "int \<Rightarrow> burst list \<Rightarrow> bool" where
  "bursts_ok B w \<longleftrightarrow> (\<forall>(b, r) \<in> set w. 0 \<le> b \<and> b < B \<and> 0 \<le> r)"

text \<open>The bursts of one row, and the largest number of them in one bank.\<close>

definition row_need :: "burst list \<Rightarrow> int \<Rightarrow> nat" where
  "row_need w r = Max ((\<lambda>p. count_list w p) ` {p \<in> set w. snd p = r})"

lemma foldl_max: "foldl max c xs = Max (insert c (set xs))" for c :: int
proof -
  have "(\<lambda>x s. max s x) = (max :: int \<Rightarrow> int \<Rightarrow> int)" by (intro ext) (simp add: max.commute)
  then have "foldl max c xs = fold max xs c" by (simp add: foldl_conv_fold)
  also have "\<dots> = Max (set (c # xs))" by (simp only: Max.set_eq_fold)
  finally show ?thesis by simp
qed

lemma sorted_split:
  assumes "sorted (map fst ((r, c) # xs))"
  shows "takeWhile (\<lambda>p. fst p = r) xs = filter (\<lambda>p. fst p = r) xs"
    and "dropWhile (\<lambda>p. fst p = r) xs = filter (\<lambda>p. r < fst p) xs"
  using assms
proof (induction xs)
  case (Cons x xs)
  {
    case 1
    then have "fst x \<noteq> r \<Longrightarrow> filter (\<lambda>p. fst p = r) xs = []" by (auto simp: filter_empty_conv)
    then show ?case using 1 Cons by auto
  next
    case 2
    then have "fst x \<noteq> r \<Longrightarrow> filter (\<lambda>p. r < fst p) xs = xs" by (auto simp: filter_id_conv)
    then show ?case using 2 Cons by auto
  }
qed simp_all

lemma row_groups_sorted:
  assumes "sorted (map fst xs)"
  shows "sorted (map fst (row_groups xs)) \<and> distinct (map fst (row_groups xs)) \<and> fst ` set (row_groups xs) = fst ` set xs
    \<and> (\<forall>(r, m) \<in> set (row_groups xs). m = Max (snd ` {p \<in> set xs. fst p = r}))"
  using assms
proof (induction xs rule: row_groups.induct)
  case 1
  then show ?case by simp
next
  case (2 r c rest)
  let ?later = "filter (\<lambda>p. r < fst p) rest"
  have split: "takeWhile (\<lambda>p. fst p = r) rest = filter (\<lambda>p. fst p = r) rest" "dropWhile (\<lambda>p. fst p = r) rest = ?later"
    using sorted_split [OF 2(2)] by simp_all
  have sorted: "sorted (map fst ?later)" using 2(2) by (simp add: sorted_filter)
  note IH = 2(1) [unfolded split, OF sorted]
  have low: "\<forall>p \<in> set rest. r \<le> fst p" using 2(2) by auto
  have first: "foldl max c (map snd (filter (\<lambda>p. fst p = r) rest)) = Max (snd ` {p \<in> set ((r, c) # rest). fst p = r})"
  proof -
    have "snd ` {p \<in> set ((r, c) # rest). fst p = r} = insert c (snd ` {p \<in> set rest. fst p = r})" by force
    then show ?thesis by (simp add: foldl_max)
  qed
  have later: "m = Max (snd ` {p \<in> set ((r, c) # rest). fst p = q})" if q: "(q, m) \<in> set (row_groups ?later)" for q m
  proof -
    have "q \<in> fst ` set (row_groups ?later)" using q by (metis fst_conv image_eqI)
    then have "q \<in> fst ` set ?later" using IH by metis
    then have "r < q" by auto
    then have eq: "{p \<in> set ((r, c) # rest). fst p = q} = {p \<in> set ?later. fst p = q}" by auto
    have "m = Max (snd ` {p \<in> set ?later. fst p = q})" using IH q by blast
    then show ?thesis unfolding eq .
  qed
  have keys: "fst ` set (row_groups ?later) = fst ` set ?later" using IH by blast
  then have "\<forall>q \<in> fst ` set (row_groups ?later). r < q" by auto
  moreover have "fst ` set ((r, c) # rest) = insert r (fst ` set ?later)" using low by force
  ultimately show ?case
    using IH keys first later by (auto simp: split intro: less_imp_le)
qed

text \<open>The groups of a window are its rows in ascending order, each with the largest number of bursts in a bank.\<close>

lemma key_inj: "bursts_ok B w \<Longrightarrow> inj_on (burst_key B) (set w)"
proof (rule inj_onI)
  fix p q assume ok: "bursts_ok B w" and "p \<in> set w" "q \<in> set w" and eq: "burst_key B p = burst_key B q"
  then have b: "0 \<le> fst p" "fst p < B" "0 \<le> fst q" "fst q < B" by (auto simp: bursts_ok_def)
  have "burst_key B p div B = snd p" "burst_key B q div B = snd q" using b by (simp_all add: burst_key_def)
  with eq have "snd p = snd q" by simp
  with eq show "p = q" by (simp add: burst_key_def prod_eq_iff)
qed

lemma key_row: "bursts_ok B w \<Longrightarrow> p \<in> set w \<Longrightarrow> burst_key B p div B = snd p"
  by (auto simp: bursts_ok_def burst_key_def)

lemma count_key:
  assumes "bursts_ok B w" and "p \<in> set w"
  shows "count_list (map (burst_key B) w) (burst_key B p) = count_list w p"
proof -
  have "count_list (map (burst_key B) xs) (burst_key B p) = count_list xs p" if "set xs \<subseteq> set w" for xs
    using that
  proof (induction xs)
    case (Cons x xs)
    then have "burst_key B x = burst_key B p \<longleftrightarrow> x = p"
      using key_inj [OF assms(1)] assms(2) by (auto dest: inj_onD)
    with Cons show ?case by simp
  qed simp
  then show ?thesis by simp
qed

lemma win_rows_spec:
  assumes ok: "bursts_ok B w"
  shows "map fst (win_rows B w) = sorted_list_of_set (snd ` set w)"
    and "(r, m) \<in> set (win_rows B w) \<Longrightarrow> m = int (row_need w r)"
proof -
  let ?ks = "sort (remdups (map (burst_key B) w))"
  let ?xs = "map (\<lambda>(k, c). (k div B, c)) (unique_counts (map (burst_key B) w))"
  have xs: "?xs = map (\<lambda>k. (k div B, int (count_list (map (burst_key B) w) k))) ?ks"
    by (simp add: unique_counts_def comp_def)
  have sorted: "sorted (map fst ?xs)"
  proof (cases "w = []")
    case False
    then obtain p where "p \<in> set w" by (cases w) auto
    then have "0 < B" using ok by (auto simp: bursts_ok_def)
    then have "sorted_wrt (\<lambda>x y. x div B \<le> y div B) ?ks"
      by (intro sorted_wrt_mono_rel [OF _ sorted_sort]) (simp add: zdiv_mono1)
    then show ?thesis unfolding xs by (simp add: comp_def sorted_wrt_map)
  qed (simp add: unique_counts_def)
  have set: "set ?xs = (\<lambda>p. (snd p, int (count_list w p))) ` set w"
    unfolding xs using key_row [OF ok] count_key [OF ok] by (auto simp: image_image intro!: image_cong)
  note spec = row_groups_sorted [OF sorted, folded win_rows_def]
  have "fst ` set (win_rows B w) = snd ` set w" using spec unfolding set by (simp add: image_image)
  then have "set (map fst (win_rows B w)) = snd ` set w" by simp
  moreover have "sorted (map fst (win_rows B w))" "distinct (map fst (win_rows B w))" using spec by blast+
  ultimately show "map fst (win_rows B w) = sorted_list_of_set (snd ` set w)"
    using sorted_list_of_set.idem_if_sorted_distinct by metis
  assume "(r, m) \<in> set (win_rows B w)"
  then have "m = Max (snd ` {p \<in> set ?xs. fst p = r})" using spec by auto
  also have "snd ` {p \<in> set ?xs. fst p = r} = int ` ((\<lambda>p. count_list w p) ` {p \<in> set w. snd p = r})"
    unfolding set by force
  also have "Max \<dots> = int (row_need w r)"
  proof -
    have "(r, m) \<in> set (win_rows B w)" by fact
    then have "r \<in> snd ` set w" using \<open>fst ` set (win_rows B w) = snd ` set w\<close> by force
    then have "(\<lambda>p. count_list w p) ` {p \<in> set w. snd p = r} \<noteq> {}" by auto
    then show ?thesis unfolding row_need_def by (subst mono_Max_commute [of int, symmetric]) (auto simp: mono_def)
  qed
  finally show "m = int (row_need w r)" .
qed

section \<open>The command count is the least possible\<close>

text \<open>An all-bank command: bursts of one row in pairwise different banks. A schedule of a window is a list of
  commands that serves every burst exactly once.\<close>

definition command_ok :: "burst list \<Rightarrow> bool" where
  "command_ok c \<longleftrightarrow> c \<noteq> [] \<and> distinct (map fst c) \<and> (\<forall>p \<in> set c. snd p = snd (hd c))"

definition is_schedule :: "burst list \<Rightarrow> burst list list \<Rightarrow> bool" where
  "is_schedule w cs \<longleftrightarrow> (\<forall>c \<in> set cs. command_ok c) \<and> mset (concat cs) = mset w"

lemma window_cmds_sum:
  assumes "bursts_ok B w"
  shows "window_cmds B w = int (\<Sum>r \<in> snd ` set w. row_need w r)"
proof -
  have "window_cmds B w = sum_list (map (\<lambda>r. int (row_need w r)) (map fst (win_rows B w)))"
    unfolding window_cmds_def using win_rows_spec(2) [OF assms] by (intro arg_cong [of _ _ sum_list]) auto
  also have "\<dots> = (\<Sum>r \<in> snd ` set w. int (row_need w r))"
    unfolding win_rows_spec(1) [OF assms] by (simp add: sum_list_distinct_conv_sum_set)
  finally show ?thesis by simp
qed

lemma command_counts: "command_ok c \<Longrightarrow> count_list c p \<le> (if snd p = snd (hd c) then 1 else 0)"
proof -
  assume c: "command_ok c"
  then have "distinct c" by (simp add: command_ok_def distinct_map)
  then have "count_list c p = (if p \<in> set c then 1 else 0)" by (induction c) auto
  moreover have "p \<in> set c \<Longrightarrow> snd p = snd (hd c)" using c unfolding command_ok_def by blast
  ultimately show ?thesis by simp
qed

lemma count_list_concat: "count_list (concat cs) p = sum_list (map (\<lambda>c. count_list c p) cs)"
  by (induction cs) (simp_all add: count_list_append)

text \<open>Any schedule needs at least \<open>row_need\<close> commands on each row.\<close>

lemma schedule_row:
  assumes "is_schedule w cs" and that: "r \<in> snd ` set w"
  shows "row_need w r \<le> length (filter (\<lambda>c. snd (hd c) = r) cs)"
proof -
  have each: "count_list w p \<le> length (filter (\<lambda>c. snd (hd c) = snd p) cs)" for p
  proof -
    have "count_list w p = count_list (concat cs) p"
      using assms by (metis is_schedule_def count_mset)
    also have "\<dots> \<le> sum_list (map (\<lambda>c. if snd p = snd (hd c) then 1 else 0) cs)"
      unfolding count_list_concat using assms by (intro sum_list_mono command_counts) (simp add: is_schedule_def)
    also have "\<dots> = length (filter (\<lambda>c. snd (hd c) = snd p) cs)" by (induction cs) auto
    finally show ?thesis .
  qed
  have "(\<lambda>p. count_list w p) ` {p \<in> set w. snd p = r} \<noteq> {}" using that by auto
  then show ?thesis unfolding row_need_def using each by (auto simp: Max_le_iff)
qed

lemma schedule_lower:
  assumes "is_schedule w cs"
  shows "(\<Sum>r \<in> snd ` set w. row_need w r) \<le> length cs"
proof -
  have "(\<Sum>r \<in> snd ` set w. row_need w r) \<le> (\<Sum>r \<in> snd ` set w. length (filter (\<lambda>c. snd (hd c) = r) cs))"
    by (intro sum_mono schedule_row [OF assms])
  also have "\<dots> \<le> length cs"
  proof (induction cs)
    case (Cons c cs)
    have "(\<Sum>r \<in> snd ` set w. length (filter (\<lambda>c. snd (hd c) = r) (c # cs)))
        = (\<Sum>r \<in> snd ` set w. if snd (hd c) = r then 1 else 0) + (\<Sum>r \<in> snd ` set w. length (filter (\<lambda>c. snd (hd c) = r) cs))"
      unfolding sum.distrib [symmetric] by (rule sum.cong) auto
    moreover have "(\<Sum>r \<in> snd ` set w. if snd (hd c) = r then 1 else 0) \<le> (1 :: nat)" by (simp add: sum.delta')
    ultimately show ?case using Cons by simp
  qed simp
  finally show ?thesis .
qed

text \<open>A schedule that reaches the bound: the \<open>i\<close>-th command of a row serves every bank that has more than \<open>i\<close>
  bursts of it.\<close>

definition row_schedule :: "burst list \<Rightarrow> int \<Rightarrow> burst list list" where
  "row_schedule w r = map (\<lambda>i. filter (\<lambda>p. i < count_list w p) (remdups (filter (\<lambda>p. snd p = r) w))) [0..<row_need w r]"

definition full_schedule :: "burst list \<Rightarrow> burst list list" where
  "full_schedule w = concat (map (row_schedule w) (sorted_list_of_set (snd ` set w)))"

lemma need_reached: "r \<in> snd ` set w \<Longrightarrow> \<exists>p \<in> set w. snd p = r \<and> count_list w p = row_need w r"
proof -
  assume "r \<in> snd ` set w"
  then have "(\<lambda>p. count_list w p) ` {p \<in> set w. snd p = r} \<noteq> {}" by auto
  then have "row_need w r \<in> (\<lambda>p. count_list w p) ` {p \<in> set w. snd p = r}" unfolding row_need_def by (intro Max_in) auto
  then show ?thesis by auto
qed

lemma need_bound: "p \<in> set w \<Longrightarrow> count_list w p \<le> row_need w (snd p)"
  unfolding row_need_def by (intro Max_ge) auto

lemma row_schedule_ok:
  assumes r: "r \<in> snd ` set w" and c: "c \<in> set (row_schedule w r)"
  shows "command_ok c"
proof -
  obtain i where i: "i < row_need w r" and c: "c = filter (\<lambda>p. i < count_list w p) (remdups (filter (\<lambda>p. snd p = r) w))"
    using c by (auto simp: row_schedule_def)
  obtain p where "p \<in> set w" "snd p = r" "count_list w p = row_need w r" using need_reached [OF r] by blast
  then have "p \<in> set c" using c i by simp
  then have "c \<noteq> []" by auto
  moreover have row: "\<forall>q \<in> set c. snd q = r" using c by auto
  moreover have "distinct c" using c by simp
  then have "distinct (map fst c)" using row by (auto simp: distinct_map inj_on_def prod_eq_iff)
  ultimately show ?thesis by (auto simp: command_ok_def)
qed

lemma row_schedule_count:
  "count_list (concat (row_schedule w r)) p = (if snd p = r then count_list w p else 0)"
proof -
  have "count_list (filter (\<lambda>p. i < count_list w p) (remdups (filter (\<lambda>p. snd p = r) w))) p
      = (if snd p = r \<and> i < count_list w p then 1 else 0)" for i
  proof -
    let ?xs = "filter (\<lambda>p. i < count_list w p) (remdups (filter (\<lambda>p. snd p = r) w))"
    have "count_list xs p = (if p \<in> set xs then 1 else 0)" if "distinct xs" for xs :: "burst list"
      using that by (induction xs) auto
    then have "count_list ?xs p = (if p \<in> set ?xs then 1 else 0)" by simp
    moreover have "i < count_list w p \<Longrightarrow> p \<in> set w" by (cases "p \<in> set w") (simp_all add: count_notin)
    then have "p \<in> set ?xs \<longleftrightarrow> snd p = r \<and> i < count_list w p" by auto
    ultimately show ?thesis by simp
  qed
  then have "count_list (concat (row_schedule w r)) p
      = (\<Sum>i \<leftarrow> [0..<row_need w r]. if snd p = r \<and> i < count_list w p then 1 else 0)"
    by (simp add: count_list_concat row_schedule_def comp_def)
  also have "\<dots> = (if snd p = r then min (row_need w r) (count_list w p) else 0)"
  proof -
    have "(\<Sum>i \<leftarrow> [0..<n]. if i < k then 1 else 0) = min n k" for n k :: nat
      by (induction n) auto
    then show ?thesis by simp
  qed
  also have "\<dots> = (if snd p = r then count_list w p else 0)"
    using need_bound [of p w] by (cases "p \<in> set w") (auto simp: min_def count_notin)
  finally show ?thesis .
qed

lemma full_schedule: "is_schedule w (full_schedule w)" "length (full_schedule w) = (\<Sum>r \<in> snd ` set w. row_need w r)"
proof -
  show "length (full_schedule w) = (\<Sum>r \<in> snd ` set w. row_need w r)"
    by (simp add: full_schedule_def length_concat comp_def row_schedule_def sum_list_distinct_conv_sum_set)
  have "count_list (concat (full_schedule w)) p = count_list w p" for p
  proof -
    have "count_list (concat (full_schedule w)) p
        = (\<Sum>r \<leftarrow> sorted_list_of_set (snd ` set w). count_list (concat (row_schedule w r)) p)"
    proof -
      have "count_list (concat (concat (map (row_schedule w) rs))) p = (\<Sum>r \<leftarrow> rs. count_list (concat (row_schedule w r)) p)" for rs
        by (induction rs) (simp_all add: count_list_append)
      then show ?thesis by (simp only: full_schedule_def)
    qed
    also have "\<dots> = (\<Sum>r \<in> snd ` set w. if snd p = r then count_list w p else 0)"
      by (simp add: row_schedule_count sum_list_distinct_conv_sum_set)
    also have "\<dots> = count_list w p"
    proof (cases "p \<in> set w")
      case True
      then have "snd p \<in> snd ` set w" by (rule imageI)
      then show ?thesis by simp
    next
      case False
      then have "count_list w p = 0" by (rule count_notin)
      then show ?thesis by simp
    qed
    finally show ?thesis .
  qed
  then have "mset (concat (full_schedule w)) = mset w" by (metis count_mset multiset_eqI)
  moreover have "\<forall>c \<in> set (full_schedule w). command_ok c" using row_schedule_ok by (auto simp: full_schedule_def)
  ultimately show "is_schedule w (full_schedule w)" by (simp add: is_schedule_def)
qed

end
