(* ===== verification/Pim_Metrics.thy ===== *)
theory Pim_Metrics
  imports Pim_Model
begin

text \<open>
  What the numbers of the execution model mean: the command count of a window is the least possible, the
  in-order mode issues lawful commands and never beats a window over the whole stream, and the metrics
  M1 to M4 stay inside their ranges.
\<close>

section \<open>Windows\<close>

lemma concat_chunks: "0 < k \<Longrightarrow> concat (chunks k xs) = xs"
proof (induction k xs rule: chunks.induct)
  case (1 k xs)
  then show ?case by (subst chunks.simps) (auto simp: chunks.simps [of k "[]"])
qed

lemma chunks_ne: "w \<in> set (chunks k xs) \<Longrightarrow> w \<noteq> []"
proof (induction k xs rule: chunks.induct)
  case (1 k xs)
  then show ?case by (subst (asm) (2) chunks.simps) (auto split: if_splits)
qed

lemma chunks_whole: "xs \<noteq> [] \<Longrightarrow> length xs \<le> k \<Longrightarrow> chunks k xs = [xs]"
  by (subst chunks.simps) (cases "k = 0"; simp add: chunks.simps [of k "[]"])

lemma bursts_ok_chunk: "bursts_ok B xs \<Longrightarrow> w \<in> set (chunks k xs) \<Longrightarrow> bursts_ok B w"
proof (induction k xs rule: chunks.induct)
  case (1 k xs)
  have "bursts_ok B (take k xs)" "bursts_ok B (drop k xs)"
    using 1(2) by (auto simp: bursts_ok_def dest: in_set_takeD in_set_dropD)
  moreover have "w = take k xs \<or> \<not> (k = 0 \<or> xs = []) \<and> w \<in> set (chunks k (drop k xs))"
    using 1(3) by (subst (asm) chunks.simps) (auto split: if_splits)
  ultimately show ?case using 1(1) by blast
qed

lemma present_iff: "sorted xs \<Longrightarrow> carry_present xs x \<longleftrightarrow> x \<in> set xs"
proof (induction xs)
  case (Cons y ys)
  show ?case
  proof (cases "y < x")
    case True
    then show ?thesis using Cons by (simp add: carry_present_def searchsorted_def Let_def)
  next
    case False
    then show ?thesis using Cons.prems by (auto simp: carry_present_def searchsorted_def Let_def)
  qed
qed (simp add: carry_present_def searchsorted_def)

text \<open>The rows of a window, each with at least one command.\<close>

lemma win_rows_ok:
  assumes ok: "bursts_ok B w"
  shows "fst ` set (win_rows B w) = snd ` set w" "distinct (map fst (win_rows B w))" "sorted (map fst (win_rows B w))"
    and "(r, m) \<in> set (win_rows B w) \<Longrightarrow> 1 \<le> m"
proof -
  show rows: "fst ` set (win_rows B w) = snd ` set w"
    using win_rows_spec(1) [OF ok] by (metis finite_imageI finite_set set_map set_sorted_list_of_set)
  show "distinct (map fst (win_rows B w))" "sorted (map fst (win_rows B w))" using win_rows_spec(1) [OF ok] by simp_all
  assume m: "(r, m) \<in> set (win_rows B w)"
  then have "r \<in> snd ` set w" using rows by force
  then obtain p where "p \<in> set w" "count_list w p = row_need w r" using need_reached by blast
  then have "0 < row_need w r" by (metis count_list_0_iff gr0I)
  then show "1 \<le> m" using win_rows_spec(2) [OF ok m] by simp
qed

definition window_hits :: "int \<Rightarrow> int \<Rightarrow> burst list \<Rightarrow> int" where
  "window_hits B carry w = window_cmds B w - int (length (win_rows B w)) + (if carry \<in> snd ` set w then 1 else 0)"

lemma window_step_eq:
  "bursts_ok B w \<Longrightarrow> window_step B (c, h, carry) w = (c + window_cmds B w, h + window_hits B carry w, snd (last w))"
  using win_rows_ok [of B w] by (auto simp: window_step_def Let_def present_iff window_hits_def)

lemma window_hits_bounds:
  assumes "bursts_ok B w" and "w \<noteq> []"
  shows "0 \<le> window_hits B carry w" and "window_hits B carry w \<le> window_cmds B w"
    and "carry \<notin> snd ` set w \<Longrightarrow> window_hits B carry w < window_cmds B w"
proof -
  have "int (length gs) \<le> sum_list (map snd gs)" if "\<forall>g \<in> set gs. 1 \<le> snd g" for gs :: "(int \<times> int) list"
    using that by (induction gs) force+
  then have "int (length (win_rows B w)) \<le> window_cmds B w"
    unfolding window_cmds_def using win_rows_ok(4) [OF assms(1)] by (metis prod.collapse)
  moreover have "win_rows B w \<noteq> []" using win_rows_ok(1) [OF assms(1)] assms(2) by auto
  ultimately show "0 \<le> window_hits B carry w" "window_hits B carry w \<le> window_cmds B w"
    "carry \<notin> snd ` set w \<Longrightarrow> window_hits B carry w < window_cmds B w"
    by (cases "win_rows B w"; simp add: window_hits_def)+
qed

fun hits_of :: "int \<Rightarrow> int \<Rightarrow> burst list list \<Rightarrow> int" where
  "hits_of B carry [] = 0"
| "hits_of B carry (w # ws) = window_hits B carry w + hits_of B (snd (last w)) ws"

lemma fold_windows:
  "\<forall>w \<in> set ws. bursts_ok B w \<Longrightarrow> \<exists>c'. foldl (window_step B) (c, h, carry) ws
     = (c + sum_list (map (window_cmds B) ws), h + hits_of B carry ws, c')"
proof (induction ws arbitrary: c h carry)
  case (Cons w ws)
  obtain c' where "foldl (window_step B) (c + window_cmds B w, h + window_hits B carry w, snd (last w)) ws
      = (c + window_cmds B w + sum_list (map (window_cmds B) ws), h + window_hits B carry w + hits_of B (snd (last w)) ws, c')"
    using Cons by fastforce
  then show ?case using Cons.prems by (intro exI [of _ c']) (simp add: window_step_eq add.assoc)
qed simp

lemma hits_of_bounds:
  "\<forall>w \<in> set ws. bursts_ok B w \<and> w \<noteq> [] \<Longrightarrow> 0 \<le> hits_of B carry ws \<and> hits_of B carry ws \<le> sum_list (map (window_cmds B) ws)"
proof (induction ws arbitrary: carry)
  case (Cons w ws)
  have "bursts_ok B w" "w \<noteq> []" using Cons.prems by simp_all
  from window_hits_bounds(1,2) [OF this] Cons.IH [of "snd (last w)"] Cons.prems show ?case by (simp add: add_mono)
qed simp

text \<open>Any schedule has at most one command per burst, and at most \<open>B\<close> bursts per command.\<close>

lemma schedule_bounds:
  assumes ok: "bursts_ok B w" and s: "is_schedule w cs"
  shows "length cs \<le> length w" and "int (length w) \<le> B * int (length cs)"
proof -
  have len: "length w = sum_list (map length cs)"
    using s by (metis is_schedule_def length_concat size_mset)
  have each: "1 \<le> length c \<and> int (length c) \<le> B" if c: "c \<in> set cs" for c
  proof -
    have cok: "command_ok c" using s c by (simp add: is_schedule_def)
    have "set c \<subseteq> set w" using s c by (metis UN_upper is_schedule_def mset_eq_setD set_concat)
    then have "set (map fst c) \<subseteq> {0..<B}" using ok by (fastforce simp: bursts_ok_def)
    then have "card (set (map fst c)) \<le> card {0..<B}" by (intro card_mono) auto
    moreover have "card (set (map fst c)) = length c" using cok distinct_card [of "map fst c"] by (simp add: command_ok_def)
    ultimately have "length c \<le> nat B" by simp
    moreover have "1 \<le> length c" using cok by (cases c) (simp_all add: command_ok_def)
    ultimately show ?thesis by linarith
  qed
  have "length ds \<le> sum_list (map length ds) \<and> int (sum_list (map length ds)) \<le> B * int (length ds)"
    if "\<forall>c \<in> set ds. 1 \<le> length c \<and> int (length c) \<le> B" for ds :: "burst list list"
    using that by (induction ds) (force simp: distrib_left)+
  then show "length cs \<le> length w" "int (length w) \<le> B * int (length cs)" using each unfolding len by blast+
qed

lemma window_cmds_schedule: "bursts_ok B w \<Longrightarrow> window_cmds B w = int (length (full_schedule w))"
  using window_cmds_sum full_schedule(2) by simp

lemma window_cmds_bounds:
  assumes ok: "bursts_ok B w"
  shows "window_cmds B w \<le> int (length w)" and "int (length w) \<le> B * window_cmds B w"
  using schedule_bounds [OF ok full_schedule(1)] unfolding window_cmds_schedule [OF ok] by simp_all

section \<open>The in-order mode\<close>

text \<open>The commands it issues; \<open>cur\<close> is the command being filled, last burst first.\<close>

fun inorder_cmds :: "int \<Rightarrow> burst list \<Rightarrow> burst list \<Rightarrow> burst list list" where
  "inorder_cmds B cur [] = (if cur = [] then [] else [cur])"
| "inorder_cmds B cur (p # ps) =
     (if cur = [] then inorder_cmds B [p] ps
      else if snd p \<noteq> snd (hd cur) \<or> fst p \<in> fst ` set cur \<or> int (length cur) = B then cur # inorder_cmds B [p] ps
      else inorder_cmds B (p # cur) ps)"

text \<open>Row hits of a sequence of commands, from an open row.\<close>

fun row_hits :: "int \<Rightarrow> int list \<Rightarrow> int" where
  "row_hits opened [] = 0"
| "row_hits opened (r # rs) = (if r = opened then 1 else 0) + row_hits r rs"

definition inorder_end :: "int \<times> int \<times> int \<times> int \<times> int list \<Rightarrow> int \<times> int" where
  "inorder_end = (\<lambda>(n_cmds, n_hits, open_row, cur_row, cur_banks).
     if cur_row \<noteq> - 1 then (n_cmds + 1, n_hits + (if cur_row = open_row then 1 else 0)) else (n_cmds, n_hits))"

lemma inorder_fold:
  assumes "\<forall>p \<in> set ps. 0 \<le> snd p" and "cur \<noteq> []" and "0 \<le> snd (hd cur)"
  shows "inorder_end (foldl (inorder_step B) (c, h, opened, snd (hd cur), map fst cur) ps)
    = (c + int (length (inorder_cmds B cur ps)), h + row_hits opened (map (\<lambda>x. snd (hd x)) (inorder_cmds B cur ps)))"
  using assms
proof (induction ps arbitrary: c h opened cur)
  case Nil
  then show ?case by (simp add: inorder_end_def)
next
  case (Cons p ps)
  obtain b r where p: "p = (b, r)" by (cases p)
  show ?case
  proof (cases "r \<noteq> snd (hd cur) \<or> b \<in> fst ` set cur \<or> int (length cur) = B")
    case True
    have "inorder_step B (c, h, opened, snd (hd cur), map fst cur) p
        = (c + 1, h + (if snd (hd cur) = opened then 1 else 0), snd (hd cur), snd (hd [p]), map fst [p])"
      using True Cons.prems(3) by (auto simp: inorder_step_def p)
    moreover have "inorder_cmds B cur (p # ps) = cur # inorder_cmds B [p] ps" using True Cons.prems(2) p by auto
    ultimately show ?thesis using Cons.IH [of "[p]"] Cons.prems by (simp del: inorder_cmds.simps)
  next
    case False
    have "inorder_step B (c, h, opened, snd (hd cur), map fst cur) p = (c, h, opened, snd (hd (p # cur)), map fst (p # cur))"
      using False by (auto simp: inorder_step_def p)
    moreover have "inorder_cmds B cur (p # ps) = inorder_cmds B (p # cur) ps" using False Cons.prems(2) p by auto
    ultimately show ?thesis using Cons.IH [of "p # cur"] Cons.prems by (simp del: inorder_cmds.simps)
  qed
qed

lemma coalesce_inorder_cmds:
  assumes "\<forall>p \<in> set bursts. 0 \<le> snd p"
  shows "coalesce_inorder B bursts = (int (length (inorder_cmds B [] bursts)),
    row_hits (- 1) (map (\<lambda>x. snd (hd x)) (inorder_cmds B [] bursts)), int (length bursts))"
proof (cases bursts)
  case Nil
  then show ?thesis by (simp add: coalesce_inorder_def)
next
  case (Cons p ps)
  obtain b r where p: "p = (b, r)" by (cases p)
  have "inorder_step B (0, 0, - 1, - 1, []) p = (0, 0, - 1, snd (hd [p]), map fst [p])"
    using assms Cons p by (simp add: inorder_step_def)
  then have "inorder_end (foldl (inorder_step B) (0, 0, - 1, - 1, []) bursts)
      = (int (length (inorder_cmds B [p] ps)), row_hits (- 1) (map (\<lambda>x. snd (hd x)) (inorder_cmds B [p] ps)))"
    using inorder_fold [of ps "[p]" B 0 0 "- 1"] assms Cons by simp
  moreover have "coalesce_inorder B bursts = (fst (inorder_end (foldl (inorder_step B) (0, 0, - 1, - 1, []) bursts)),
      snd (inorder_end (foldl (inorder_step B) (0, 0, - 1, - 1, []) bursts)), int (length bursts))"
    by (auto simp: coalesce_inorder_def inorder_end_def split: prod.splits)
  ultimately show ?thesis using Cons by simp
qed

lemma inorder_schedule:
  assumes "cur = [] \<or> command_ok cur"
  shows "(\<forall>c \<in> set (inorder_cmds B cur ps). command_ok c) \<and> mset (concat (inorder_cmds B cur ps)) = mset cur + mset ps"
  using assms
proof (induction ps arbitrary: cur)
  case Nil
  then show ?case by auto
next
  case (Cons p ps)
  have single: "command_ok [p]" by (simp add: command_ok_def)
  show ?case
  proof (cases "cur = []")
    case True
    then show ?thesis using Cons.IH [of "[p]"] single by simp
  next
    case ne: False
    then have cur: "command_ok cur" using Cons.prems by simp
    show ?thesis
    proof (cases "snd p \<noteq> snd (hd cur) \<or> fst p \<in> fst ` set cur \<or> int (length cur) = B")
      case True
      then show ?thesis using Cons.IH [of "[p]"] single cur ne by simp
    next
      case False
      have "\<forall>q \<in> set cur. snd q = snd p" using cur False unfolding command_ok_def by metis
      then have "command_ok (p # cur)" using cur False by (simp add: command_ok_def)
      then show ?thesis using Cons.IH [of "p # cur"] ne False by simp
    qed
  qed
qed

section \<open>One channel\<close>

lemma row_hits_le: "0 \<le> row_hits x rs \<and> row_hits x rs \<le> int (length rs)"
  by (induction rs arbitrary: x) (auto simp: add_increasing add.commute intro: order_trans)

lemma coalesce_windows:
  assumes "bursts_ok B bs" and "bs \<noteq> []" and "0 < window"
  shows "coalesce_channel B window ''window'' bs = Inr (sum_list (map (window_cmds B) (chunks (nat window) bs)),
    hits_of B (- 1) (chunks (nat window) bs), int (length bs))"
proof -
  have "\<forall>w \<in> set (chunks (nat window) bs). bursts_ok B w" using bursts_ok_chunk [OF assms(1)] by blast
  from fold_windows [OF this, of 0 0 "- 1"] assms(2,3) show ?thesis
    by (auto simp: coalesce_channel_def windows_def)
qed

lemma coalesce_channel_ok:
  assumes ok: "bursts_ok B bs" and w: "0 < window" and mode: "mode \<in> {''window'', ''inorder''}"
  shows "\<exists>c h. coalesce_channel B window mode bs = Inr (c, h, int (length bs)) \<and> 0 \<le> h \<and> (bs \<noteq> [] \<longrightarrow> h < c)
    \<and> c \<le> int (length bs) \<and> int (length bs) \<le> B * c"
proof (cases "bs = []")
  case True
  then show ?thesis by (simp add: coalesce_channel_def)
next
  case ne: False
  show ?thesis
  proof (cases "mode = ''inorder''")
    case True
    let ?cs = "inorder_cmds B [] bs"
    have rows: "\<forall>p \<in> set bs. 0 \<le> snd p" using ok by (auto simp: bursts_ok_def)
    have s: "is_schedule bs ?cs" using inorder_schedule [of "[]" B bs] by (simp add: is_schedule_def)
    then have cs: "?cs \<noteq> []" using ne by (auto simp: is_schedule_def)
    then obtain c0 cs' where split: "?cs = c0 # cs'" by (cases ?cs) auto
    have "set (concat ?cs) = set bs" using s by (metis is_schedule_def mset_eq_setD)
    moreover have "c0 \<noteq> []" using s split by (simp add: is_schedule_def command_ok_def)
    ultimately have "c0 \<noteq> []" "set c0 \<subseteq> set bs" using split by auto
    then have "snd (hd c0) \<noteq> - 1" using rows by (cases c0) auto
    then have "row_hits (- 1) (map (\<lambda>x. snd (hd x)) ?cs) \<le> int (length cs')"
      using row_hits_le [of "snd (hd c0)" "map (\<lambda>x. snd (hd x)) cs'"] by (simp add: split)
    then have "row_hits (- 1) (map (\<lambda>x. snd (hd x)) ?cs) < int (length ?cs)" by (simp add: split)
    moreover have "0 \<le> row_hits (- 1) (map (\<lambda>x. snd (hd x)) ?cs)" using row_hits_le by blast
    ultimately show ?thesis
      using ne True coalesce_inorder_cmds [OF rows, of B] schedule_bounds [OF ok s]
      by (simp add: coalesce_channel_def)
  next
    case False
    let ?ws = "chunks (nat window) bs"
    have ws: "\<forall>w \<in> set ?ws. bursts_ok B w \<and> w \<noteq> []" using bursts_ok_chunk [OF ok] chunks_ne by blast
    have whole: "concat ?ws = bs" using w by (simp add: concat_chunks)
    have sums: "sum_list (map (window_cmds B) vs) \<le> int (length (concat vs))
        \<and> int (length (concat vs)) \<le> B * sum_list (map (window_cmds B) vs)" if "\<forall>w \<in> set vs. bursts_ok B w" for vs
      using that by (induction vs) (use window_cmds_bounds in \<open>fastforce simp: distrib_left add_mono\<close>)+
    obtain w0 ws' where split: "?ws = w0 # ws'" using whole ne by (cases ?ws) auto
    have "- 1 \<notin> snd ` set w0" using ws split by (auto simp: bursts_ok_def)
    then have "window_hits B (- 1) w0 < window_cmds B w0" using window_hits_bounds(3) ws split by simp
    moreover have "hits_of B (snd (last w0)) ws' \<le> sum_list (map (window_cmds B) ws')"
      using hits_of_bounds [of ws' B] ws split by simp
    ultimately have "hits_of B (- 1) ?ws < sum_list (map (window_cmds B) ?ws)" by (simp add: split)
    then show ?thesis
      using coalesce_windows [OF ok ne w] hits_of_bounds [OF ws, of "- 1"] sums [of ?ws] ws whole mode False by auto
  qed
qed

section \<open>All channels\<close>

lemma channel_loop_ok:
  assumes ok: "\<forall>c. bursts_ok B (map snd (filter (\<lambda>x. fst x = c) bs))" and w: "0 < window"
    and mode: "mode \<in> {''window'', ''inorder''}"
  shows "\<forall>c \<in> set cs. c \<in> fst ` set bs \<Longrightarrow> \<exists>cmds' hits'. channel_loop B window mode bs cs (cmds, hits, nb)
      = Inr (cmds + cmds', hits + hits', nb + (\<Sum>c \<leftarrow> cs. int (length (filter (\<lambda>x. fst x = c) bs))))
    \<and> 0 \<le> hits' \<and> (cs \<noteq> [] \<longrightarrow> hits' < cmds') \<and> (cs = [] \<longrightarrow> cmds' = 0 \<and> hits' = 0)
    \<and> cmds' \<le> (\<Sum>c \<leftarrow> cs. int (length (filter (\<lambda>x. fst x = c) bs)))
    \<and> (\<Sum>c \<leftarrow> cs. int (length (filter (\<lambda>x. fst x = c) bs))) \<le> B * cmds'"
proof (induction cs arbitrary: cmds hits nb)
  case Nil
  then show ?case by simp
next
  case (Cons c cs)
  let ?mine = "map snd (filter (\<lambda>x. fst x = c) bs)"
  have ne: "?mine \<noteq> []" using Cons.prems by (force simp: filter_empty_conv)
  obtain n h where one: "coalesce_channel B window mode ?mine = Inr (n, h, int (length ?mine))" "0 \<le> h" "h < n"
      "n \<le> int (length ?mine)" "int (length ?mine) \<le> B * n"
    using coalesce_channel_ok [OF _ w mode, of B ?mine] ok ne by blast
  from Cons.IH [of "cmds + n" "hits + h" "nb + int (length ?mine)"] Cons.prems obtain cmds' hits' where
    rest: "channel_loop B window mode bs cs (cmds + n, hits + h, nb + int (length ?mine))
      = Inr (cmds + n + cmds', hits + h + hits', nb + int (length ?mine) + (\<Sum>c \<leftarrow> cs. int (length (filter (\<lambda>x. fst x = c) bs))))"
    "0 \<le> hits'" "cs \<noteq> [] \<longrightarrow> hits' < cmds'" "cs = [] \<longrightarrow> cmds' = 0 \<and> hits' = 0"
    "cmds' \<le> (\<Sum>c \<leftarrow> cs. int (length (filter (\<lambda>x. fst x = c) bs)))"
    "(\<Sum>c \<leftarrow> cs. int (length (filter (\<lambda>x. fst x = c) bs))) \<le> B * cmds'" by auto
  show ?case
  proof (rule exI [of _ "n + cmds'"], rule exI [of _ "h + hits'"], intro conjI)
    show "channel_loop B window mode bs (c # cs) (cmds, hits, nb) = Inr (cmds + (n + cmds'), hits + (h + hits'),
        nb + (\<Sum>c \<leftarrow> c # cs. int (length (filter (\<lambda>x. fst x = c) bs))))"
      using one(1) rest(1) by (simp add: add.assoc)
    show "(\<Sum>c \<leftarrow> c # cs. int (length (filter (\<lambda>x. fst x = c) bs))) \<le> B * (n + cmds')"
      using one(5) rest(6) by (simp add: distrib_left)
    show "n + cmds' \<le> (\<Sum>c \<leftarrow> c # cs. int (length (filter (\<lambda>x. fst x = c) bs)))" using one(4) rest(5) by simp
    show "c # cs \<noteq> [] \<longrightarrow> h + hits' < n + cmds'" using one(3) rest(3,4) by (cases "cs = []") auto
  qed (use one(2) rest(2) in simp_all)
qed

lemma filter_partition: "distinct cs \<Longrightarrow> fst ` set bs \<subseteq> set cs \<Longrightarrow> (\<Sum>c \<leftarrow> cs. int (length (filter (\<lambda>x. fst x = c) bs))) = int (length bs)"
proof (induction bs)
  case (Cons b bs)
  have "(\<Sum>c \<leftarrow> cs. int (length (filter (\<lambda>x. fst x = c) (b # bs))))
      = (\<Sum>c \<leftarrow> cs. (if c = fst b then 1 else 0) + int (length (filter (\<lambda>x. fst x = c) bs)))"
    by (intro arg_cong [of _ _ sum_list] map_cong) auto
  also have "\<dots> = (\<Sum>c \<leftarrow> cs. if c = fst b then 1 else 0) + (\<Sum>c \<leftarrow> cs. int (length (filter (\<lambda>x. fst x = c) bs)))"
    by (rule sum_list_addf)
  also have "(\<Sum>c \<leftarrow> cs. if c = fst b then 1 else 0 :: int) = 1"
    using Cons.prems by (simp add: sum_list_distinct_conv_sum_set)
  finally show ?case using Cons by simp
qed simp

lemma sequence_metrics_ok:
  assumes banks: "0 < banks_per_channel geom"
    and ok: "\<forall>(c, b, r) \<in> set bs. 0 \<le> b \<and> b < banks_per_channel geom \<and> 0 \<le> r" and ne: "bs \<noteq> []"
    and w: "0 < window" and mode: "mode \<in> {''window'', ''inorder''}"
  shows "\<exists>m. sequence_metrics geom window mode bs = Inr m \<and> n_bursts m = int (length bs)
    \<and> n_cmds m \<le> n_bursts m \<and> n_bursts m \<le> banks_per_channel geom * n_cmds m
    \<and> 0 \<le> m1 m \<and> m1 m < 1 \<and> 1 / real_of_int (banks_per_channel geom) \<le> m2 m \<and> m2 m \<le> 1"
proof -
  let ?B = "banks_per_channel geom" and ?cs = "sort (remdups (map fst bs))"
  have "\<forall>c. bursts_ok ?B (map snd (filter (\<lambda>x. fst x = c) bs))" using ok by (fastforce simp: bursts_ok_def)
  from channel_loop_ok [OF this w mode, of ?cs 0 0 0] obtain c h where
    run: "channel_loop ?B window mode bs ?cs (0, 0, 0) = Inr (c, h, int (length bs))" "0 \<le> h" "h < c"
      "c \<le> int (length bs)" "int (length bs) \<le> ?B * c"
    using filter_partition [of ?cs bs] ne by auto
  have c: "0 < c" using run by simp
  let ?m = "\<lparr>n_bursts = int (length bs), n_cmds = c, n_hits = h, m1 = real_of_int h / real_of_int c,
    m2 = real_of_int (int (length bs)) / (real_of_int ?B * real_of_int c)\<rparr>"
  have "sequence_metrics geom window mode bs = Inr ?m" using run(1) c by (simp add: sequence_metrics_def)
  moreover have "0 \<le> real_of_int h / real_of_int c" "real_of_int h / real_of_int c < 1"
    using run(2,3) c by (simp_all add: divide_simps)
  moreover have "real_of_int (int (length bs)) / (real_of_int ?B * real_of_int c) \<le> 1"
    using run(5) c banks by (simp add: divide_simps) (metis of_int_le_iff of_int_mult of_int_of_nat_eq)
  moreover have "1 / real_of_int ?B \<le> real_of_int (int (length bs)) / (real_of_int ?B * real_of_int c)"
  proof -
    have "real_of_int c \<le> real_of_int (int (length bs))" using run(4) by (simp only: of_int_le_iff)
    then show ?thesis using c banks by (simp add: divide_simps)
  qed
  ultimately show ?thesis using run(4,5) by (intro exI [of _ ?m]) simp
qed

section \<open>Properties\<close>

text \<open>C38: The command count of a reordering window is exact: some schedule of the window's bursts into lawful
  all-bank commands (one row, pairwise different banks) has that many commands, and no schedule has fewer.\<close>

theorem window_commands_are_minimal:
  assumes "bursts_ok B w"
  shows "(\<exists>cs. is_schedule w cs \<and> int (length cs) = window_cmds B w)
    \<and> (\<forall>cs. is_schedule w cs \<longrightarrow> window_cmds B w \<le> int (length cs))"
proof (intro conjI allI impI)
  show "\<exists>cs. is_schedule w cs \<and> int (length cs) = window_cmds B w"
    using full_schedule(1) [of w] window_cmds_schedule [OF assms] by auto
  show "window_cmds B w \<le> int (length cs)" if "is_schedule w cs" for cs
    using schedule_lower [OF that] unfolding window_cmds_sum [OF assms] by (simp only: of_nat_le_iff)
qed

text \<open>C39: Reordering never costs commands: the in-order mode issues lawful commands that serve every burst once,
  and a window that holds the whole stream needs at most as many.\<close>

theorem window_beats_inorder:
  assumes "bursts_ok B bs" and "bs \<noteq> []" and "int (length bs) \<le> window"
  shows "\<exists>c h c' h'. coalesce_channel B window ''window'' bs = Inr (c, h, int (length bs))
    \<and> coalesce_channel B window ''inorder'' bs = Inr (c', h', int (length bs)) \<and> c \<le> c'"
proof -
  have rows: "\<forall>p \<in> set bs. 0 \<le> snd p" using assms(1) by (auto simp: bursts_ok_def)
  have "is_schedule bs (inorder_cmds B [] bs)" using inorder_schedule [of "[]" B bs] by (simp add: is_schedule_def)
  then have "window_cmds B bs \<le> int (length (inorder_cmds B [] bs))"
    using schedule_lower window_cmds_sum [OF assms(1)] by (metis of_nat_le_iff)
  moreover have "chunks (nat window) bs = [bs]" using assms(2,3) by (intro chunks_whole) auto
  moreover have "0 < window" using assms(2,3) by (cases bs) auto
  ultimately show ?thesis
    using coalesce_windows [OF assms(1,2)] coalesce_inorder_cmds [OF rows, of B] assms(2)
    by (simp add: coalesce_channel_def)
qed

text \<open>The metrics of a sequence are in range. In either mode and for any positive window, every burst is counted
  once; if there is one, then \<open>0 <= M1 < 1\<close> (a cold start always costs a miss) and
  \<open>1 / banks_per_channel <= M2 <= 1\<close>, the commands being between one per full row of banks and one per burst.\<close>

theorem sequence_metrics_in_range:
  assumes banks: "0 < banks_per_channel geom"
    and ok: "\<forall>(c, b, r) \<in> set bs. 0 \<le> b \<and> b < banks_per_channel geom \<and> 0 \<le> r" and ne: "bs \<noteq> []"
    and w: "0 < window" and mode: "mode \<in> {''window'', ''inorder''}"
  shows "\<exists>m. sequence_metrics geom window mode bs = Inr m \<and> n_bursts m = int (length bs)
    \<and> n_cmds m \<le> n_bursts m \<and> n_bursts m \<le> banks_per_channel geom * n_cmds m
    \<and> 0 \<le> m1 m \<and> m1 m < 1 \<and> 1 / real_of_int (banks_per_channel geom) \<le> m2 m \<and> m2 m \<le> 1"
  by (rule sequence_metrics_ok [OF assms])

text \<open>Effective bandwidth: with hits no slower than misses (\<open>0 < tCCD_ab <= tRC\<close>) and metrics in range, M3 is
  defined, at most \<open>BW_ideal * M2\<close> and at least that times \<open>tCCD_ab / tRC\<close>; and a better row-hit rate never
  lowers it.\<close>

theorem effective_bandwidth_in_range:
  assumes t: "0 < tccd_ab_ns timing" "tccd_ab_ns timing \<le> trc_ns timing"
    and m: "0 \<le> x1" "x1 \<le> y1" "y1 \<le> 1" "0 \<le> x2" and g: "0 \<le> bw_ideal geom timing"
  shows "\<exists>v v'. effective_bandwidth_gbps x1 x2 geom timing = Inr v \<and> effective_bandwidth_gbps y1 x2 geom timing = Inr v'
    \<and> bw_ideal geom timing * x2 * (tccd_ab_ns timing / trc_ns timing) \<le> v \<and> v \<le> v' \<and> v' \<le> bw_ideal geom timing * x2"
proof -
  let ?h = "tccd_ab_ns timing" and ?r = "trc_ns timing"
  let ?t = "\<lambda>x. x * ?h + (1 - x) * ?r"
  have eq: "?t x = ?r - x * (?r - ?h)" for x by (simp add: algebra_simps)
  have mono: "?t y1 \<le> ?t x1" unfolding eq using m(2) t by (simp add: mult_right_mono)
  have "y1 * (?r - ?h) \<le> 1 * (?r - ?h)" using m(3) t by (intro mult_right_mono) auto
  then have low: "?h \<le> ?t y1" unfolding eq by simp
  have "0 \<le> x1 * (?r - ?h)" using m(1) t by simp
  then have high: "?t x1 \<le> ?r" unfolding eq by simp
  have pos: "0 < ?t y1" "0 < ?t x1" using low mono t(1) by linarith+
  let ?b = "bw_ideal geom timing * x2"
  have b: "0 \<le> ?b" using g m(4) by simp
  have "?h / ?r \<le> ?h / ?t x1" using high pos t by (intro divide_left_mono) auto
  moreover have "?h / ?t x1 \<le> ?h / ?t y1" using mono pos t by (intro divide_left_mono) auto
  moreover have "?h / ?t y1 \<le> 1" using low pos by simp
  ultimately have "?b * (?h / ?r) \<le> ?b * (?h / ?t x1)" "?b * (?h / ?t x1) \<le> ?b * (?h / ?t y1)" "?b * (?h / ?t y1) \<le> ?b * 1"
    using b by (simp_all only: mult_left_mono)
  then show ?thesis using pos t(1) by (simp add: effective_bandwidth_gbps_def Let_def)
qed

section \<open>Witnesses\<close>

text \<open>Two banks; row 5 has two bursts in bank 0.\<close>

lemma window_commands_are_minimal_witness:
  "(\<exists>cs. is_schedule [(0, 5), (1, 5), (0, 5), (1, 7)] cs \<and> int (length cs) = 3)
    \<and> \<not> (\<exists>cs. is_schedule [(0, 5), (1, 5), (0, 5), (1, 7)] cs \<and> int (length cs) < 3)"
proof -
  have "bursts_ok 2 [(0, 5), (1, 5), (0, 5), (1, 7)]" by code_simp
  moreover have "window_cmds 2 [(0, 5), (1, 5), (0, 5), (1, 7)] = 3" by code_simp
  ultimately show ?thesis using window_commands_are_minimal [of 2 "[(0, 5), (1, 5), (0, 5), (1, 7)]"] by (auto simp: not_less)
qed

lemma window_beats_inorder_witness:
  "\<exists>c h c' h'. coalesce_channel 2 64 ''window'' [(0, 5), (1, 7), (1, 5), (0, 7)] = Inr (c, h, 4)
    \<and> coalesce_channel 2 64 ''inorder'' [(0, 5), (1, 7), (1, 5), (0, 7)] = Inr (c', h', 4) \<and> c \<le> c' \<and> c = 2 \<and> c' = 4"
proof -
  have "bursts_ok 2 [(0, 5), (1, 7), (1, 5), (0, 7)]" by code_simp
  from window_beats_inorder [OF this, of 64]
  have "\<exists>c h c' h'. coalesce_channel 2 64 ''window'' [(0, 5), (1, 7), (1, 5), (0, 7)] = Inr (c, h, 4)
    \<and> coalesce_channel 2 64 ''inorder'' [(0, 5), (1, 7), (1, 5), (0, 7)] = Inr (c', h', 4) \<and> c \<le> c'" by simp
  moreover have "coalesce_channel 2 64 ''window'' [(0, 5), (1, 7), (1, 5), (0, 7)] = Inr (2, 0, 4)" by code_simp
  moreover have "coalesce_channel 2 64 ''inorder'' [(0, 5), (1, 7), (1, 5), (0, 7)] = Inr (4, 0, 4)" by code_simp
  ultimately show ?thesis by simp
qed

lemma sequence_metrics_in_range_witness:
  "\<exists>m. sequence_metrics HBM3_PIM 64 ''window'' [(0, 3, 9), (0, 4, 9), (1, 3, 9)] = Inr m \<and> n_bursts m = 3
    \<and> 0 \<le> m1 m \<and> m1 m < 1 \<and> m2 m \<le> 1"
proof -
  have b: "0 < banks_per_channel HBM3_PIM" by code_simp
  have "\<forall>(c, b, r) \<in> set [(0, 3, 9), (0, 4, 9), (1, 3, 9 :: int)]. 0 \<le> b \<and> b < banks_per_channel HBM3_PIM \<and> 0 \<le> r"
    by code_simp
  from sequence_metrics_in_range [OF b this, of 64 "''window''"] show ?thesis by auto
qed

lemma effective_bandwidth_in_range_witness:
  "\<exists>v v'. effective_bandwidth_gbps 0 1 HBM3_PIM DEFAULT_TIMING = Inr v
    \<and> effective_bandwidth_gbps (1 / 2) 1 HBM3_PIM DEFAULT_TIMING = Inr v' \<and> v \<le> v'"
proof -
  have "0 < tccd_ab_ns DEFAULT_TIMING" "tccd_ab_ns DEFAULT_TIMING \<le> trc_ns DEFAULT_TIMING"
    by (simp_all add: DEFAULT_TIMING_def)
  moreover have "0 \<le> bw_ideal HBM3_PIM DEFAULT_TIMING"
    by (simp add: bw_ideal_def HBM3_PIM_def DEFAULT_TIMING_def banks_per_channel_def)
  ultimately show ?thesis using effective_bandwidth_in_range [of DEFAULT_TIMING 0 "1 / 2" 1 HBM3_PIM] by auto
qed

end
