(* ===== verification/Measure.thy ===== *)
theory Measure
  imports Pim_Metrics Addr_Map
begin

text \<open>
  The measurement of one sequence at one decode step: \<open>measure_seq\<close> and \<open>placement_diagnostics\<close> of
  \<open>pimkv/sim.py\<close>, and \<open>enumerate_bursts\<close> of \<open>pimkv/ramulator.py\<close>, which replays the same bursts. They join
  the block table, the address map and the execution model. NaN is \<open>None\<close>.
\<close>

section \<open>Results that may be errors\<close>

definition bindE :: "py_error + 'a \<Rightarrow> ('a \<Rightarrow> py_error + 'b) \<Rightarrow> py_error + 'b" where
  "bindE m f = (case m of Inl e \<Rightarrow> Inl e | Inr x \<Rightarrow> f x)"

lemma bindE_simps [simp]: "bindE (Inl e) f = Inl e" "bindE (Inr x) f = f x"
  by (simp_all add: bindE_def)

lemma bindE_Inr: "bindE m f = Inr y \<longleftrightarrow> (\<exists>x. m = Inr x \<and> f x = Inr y)"
  by (cases m) simp_all

lemma bindE_assoc: "bindE (bindE m f) g = bindE m (\<lambda>x. bindE (f x) g)"
  by (cases m) simp_all

fun mapE :: "('a \<Rightarrow> py_error + 'b) \<Rightarrow> 'a list \<Rightarrow> py_error + 'b list" where
  "mapE f [] = Inr []"
| "mapE f (x # xs) = bindE (f x) (\<lambda>y. bindE (mapE f xs) (\<lambda>ys. Inr (y # ys)))"

lemma mapE_ok: "\<forall>x \<in> set xs. f x = Inr (g x) \<Longrightarrow> mapE f xs = Inr (map g xs)"
  by (induction xs) simp_all

text \<open>Indexing an array of numpy: negative positions count from the end. A remainder by 0 is 0 there.\<close>

definition np_index :: "'a list \<Rightarrow> int \<Rightarrow> py_error + 'a" where
  "np_index xs i =
     (if 0 \<le> i \<and> i < int (length xs) then Inr (xs ! nat i)
      else if - int (length xs) \<le> i \<and> i < 0 then Inr (xs ! nat (int (length xs) + i))
      else Inl IndexError)"

definition np_mod :: "int \<Rightarrow> int \<Rightarrow> int" where
  "np_mod x y = (if y = 0 then 0 else x mod y)"

section \<open>The bursts of a sequence\<close>

text \<open>\<open>blocks[lb // bpb] * bpb + (lb % bpb)\<close> for \<open>lb\<close> in \<open>np.arange(n_bursts)\<close>.\<close>

definition linear_bursts :: "nat list \<Rightarrow> int \<Rightarrow> int \<Rightarrow> int \<Rightarrow> py_error + int list" where
  "linear_bursts table seq_len bpt block_tokens =
     (let bpb = block_tokens * bpt in
      mapE (\<lambda>lb. bindE (np_index table (lb div bpb)) (\<lambda>b. Inr (int b * bpb + np_mod lb bpb))) [0..seq_len * bpt - 1])"

definition enumerate_bursts ::
  "nat list \<Rightarrow> int \<Rightarrow> dram_geometry \<Rightarrow> model_shape \<Rightarrow> int \<Rightarrow> addr_map \<Rightarrow> py_error + coords list" where
  "enumerate_bursts table seq_len geom shape block_tokens am =
     bindE (linear_bursts table seq_len (kv_bytes_per_token shape div burst_bytes geom) block_tokens) (map_addrs am)"

section \<open>Placement diagnostics\<close>

record placement =
  blk_adj :: "real option"
  same_frame :: "real option"
  frame_spread :: "real option"

fun diffs :: "int list \<Rightarrow> int list" where
  "diffs (x # y # ys) = (y - x) # diffs (y # ys)"
| "diffs xs = []"

definition mean_true :: "bool list \<Rightarrow> real" where
  "mean_true bs = real (length (filter id bs)) / real (length bs)"

definition placement_diagnostics :: "nat list \<Rightarrow> int \<Rightarrow> placement" where
  "placement_diagnostics table frame_blocks =
     (if length table < 2 then \<lparr>blk_adj = None, same_frame = None, frame_spread = None\<rparr>
      else
        let b = map int table; adj = mean_true (map (\<lambda>d. d = 1) (diffs b)); fr = map (\<lambda>x. x div frame_blocks) b
        in if frame_blocks > 1
           then \<lparr>blk_adj = Some adj, same_frame = Some (mean_true (map (\<lambda>d. d = 0) (diffs fr))),
                 frame_spread = Some (real (length (remdups fr)) / real_of_int (ceil_div (int (length table)) frame_blocks))\<rparr>
           else \<lparr>blk_adj = Some adj, same_frame = None, frame_spread = None\<rparr>)"

section \<open>The metric row\<close>

record seq_row =
  row_seq_id :: int
  row_seq_len :: int
  row_kv_bytes :: int
  row_metrics :: seq_metrics
  row_m3_gbps :: real
  row_m4_ns :: real
  row_placement :: placement

definition measure_seq ::
  "int \<Rightarrow> int \<Rightarrow> nat list \<Rightarrow> addr_map \<Rightarrow> dram_geometry \<Rightarrow> model_shape \<Rightarrow> pim_timing \<Rightarrow> int \<Rightarrow> int \<Rightarrow> string \<Rightarrow> int
    \<Rightarrow> py_error + seq_row" where
  "measure_seq seq_id seq_len table am geom shape timing block_tokens window mode frame_blocks =
     bindE (linear_bursts table seq_len (kv_bytes_per_token shape div burst_bytes geom) block_tokens) (\<lambda>phys.
     bindE (map_addrs am phys) (\<lambda>m.
     bindE (sequence_metrics geom window mode (map (\<lambda>c. (c Fch, flat_bank am c, c Fro)) m)) (\<lambda>s.
     let kv_bytes = seq_len * kv_bytes_per_token shape in
     bindE (effective_bandwidth_gbps (m1 s) (m2 s) geom timing) (\<lambda>m3.
     bindE (decode_latency_ns (real_of_int kv_bytes) m3) (\<lambda>m4.
     Inr \<lparr>row_seq_id = seq_id, row_seq_len = seq_len, row_kv_bytes = kv_bytes, row_metrics = s,
       row_m3_gbps = m3, row_m4_ns = m4, row_placement = placement_diagnostics table frame_blocks\<rparr>)))))"

section \<open>Every burst has a place\<close>

text \<open>The place of the \<open>lb\<close>-th burst of a table, when there is one.\<close>

definition burst_place :: "nat list \<Rightarrow> int \<Rightarrow> int \<Rightarrow> int" where
  "burst_place table bpb lb = int (table ! nat (lb div bpb)) * bpb + lb mod bpb"

lemma burst_in_table:
  assumes "0 < bt" "0 < bpt" and len: "ceil_div n bt \<le> int (length table)" and lb: "0 \<le> lb" "lb < n * bpt"
  shows "0 \<le> lb div (bt * bpt) \<and> lb div (bt * bpt) < int (length table)"
proof -
  have bpb: "0 < bt * bpt" using assms(1,2) by simp
  have "n \<le> int (length table) * bt" using ceil_div_le_iff [OF assms(1)] len by blast
  then have "n * bpt \<le> int (length table) * bt * bpt" using assms(2) by simp
  then have "lb < int (length table) * (bt * bpt)" using lb(2) by (simp add: mult.assoc)
  then show ?thesis using bpb lb(1) int_div_less [OF bpb] by (simp add: pos_imp_zdiv_nonneg_iff)
qed

lemma linear_bursts_ok:
  assumes "0 < bt" "0 < bpt" and "ceil_div n bt \<le> int (length table)"
  shows "linear_bursts table n bpt bt = Inr (map (burst_place table (bt * bpt)) [0..n * bpt - 1])"
  unfolding linear_bursts_def Let_def
proof (rule mapE_ok, rule ballI)
  fix lb assume "lb \<in> set [0..n * bpt - 1]"
  then have "0 \<le> lb div (bt * bpt) \<and> lb div (bt * bpt) < int (length table)"
    using burst_in_table [OF assms] by simp
  then show "bindE (np_index table (lb div (bt * bpt))) (\<lambda>b. Inr (int b * (bt * bpt) + np_mod lb (bt * bpt)))
      = Inr (burst_place table (bt * bpt) lb)"
    using assms(1,2) by (simp add: np_index_def burst_place_def np_mod_def)
qed

lemma burst_place_range:
  assumes bpb: "0 < bpb" and i: "0 \<le> lb div bpb" "lb div bpb < int (length table)" and tab: "\<forall>b \<in> set table. b < N"
  shows "0 \<le> burst_place table bpb lb" "burst_place table bpb lb < int N * bpb"
proof -
  let ?b = "table ! nat (lb div bpb)"
  have "?b < N" using i tab by (auto intro!: nth_mem simp: nat_less_iff)
  then have "(int ?b + 1) * bpb \<le> int N * bpb" using bpb by (intro mult_right_mono) auto
  then have "int ?b * bpb + bpb \<le> int N * bpb" by (simp add: distrib_right)
  then show "burst_place table bpb lb < int N * bpb"
    unfolding burst_place_def using pos_mod_bound [OF bpb, of lb] by linarith
  show "0 \<le> burst_place table bpb lb" using bpb by (simp add: burst_place_def)
qed

text \<open>Different bursts of pairwise different blocks have different places.\<close>

lemma burst_place_split:
  "0 < bpb \<Longrightarrow> burst_place t bpb l div bpb = int (t ! nat (l div bpb)) \<and> burst_place t bpb l mod bpb = l mod bpb"
  by (simp add: burst_place_def)

lemma burst_place_eq:
  assumes bpb: "0 < bpb" and tab: "distinct table"
    and i: "0 \<le> lb div bpb" "lb div bpb < int (length table)" and j: "0 \<le> lb' div bpb" "lb' div bpb < int (length table)"
    and eq: "burst_place table bpb lb = burst_place table bpb lb'"
  shows "lb = lb'"
proof -
  have "table ! nat (lb div bpb) = table ! nat (lb' div bpb)" and m: "lb mod bpb = lb' mod bpb"
    using burst_place_split [OF bpb, of table lb] burst_place_split [OF bpb, of table lb'] eq by simp_all
  moreover have "nat (lb div bpb) < length table" "nat (lb' div bpb) < length table" using i j by linarith+
  ultimately have "nat (lb div bpb) = nat (lb' div bpb)" using nth_eq_iff_index_eq [OF tab] by blast
  then have "lb div bpb = lb' div bpb" using i j by (simp add: eq_nat_nat_iff)
  with m show ?thesis by (metis mult_div_mod_eq)
qed

lemma burst_place_neq:
  assumes bpb: "0 < bpb" and tab: "distinct (table @ table')"
    and i: "0 \<le> lb div bpb" "lb div bpb < int (length table)" and j: "0 \<le> lb' div bpb" "lb' div bpb < int (length table')"
  shows "burst_place table bpb lb \<noteq> burst_place table' bpb lb'"
proof
  assume "burst_place table bpb lb = burst_place table' bpb lb'"
  then have "table ! nat (lb div bpb) = table' ! nat (lb' div bpb)"
    using burst_place_split [OF bpb, of table lb] burst_place_split [OF bpb, of table' lb'] by simp
  moreover have "table ! nat (lb div bpb) \<in> set table" "table' ! nat (lb' div bpb) \<in> set table'"
    using i j by (auto intro!: nth_mem simp: nat_less_iff)
  ultimately show False using tab by auto
qed

lemma enumerate_bursts_ok:
  assumes g: "valid_geometry geom" "AddrMap geom scheme = Inr am" and bt: "0 < bt"
    and bpt: "burst_bytes geom \<le> kv_bytes_per_token shape"
    and tab: "ceil_div n bt \<le> int (length table)" "\<forall>b \<in> set table. b < N"
    and cap: "int N * (bt * (kv_bytes_per_token shape div burst_bytes geom)) \<le> total_bursts geom"
  defines "bpt \<equiv> kv_bytes_per_token shape div burst_bytes geom"
  shows "0 < bpt" "linear_bursts table n bpt bt = Inr (map (burst_place table (bt * bpt)) [0..n * bpt - 1])"
    "map_addrs am (map (burst_place table (bt * bpt)) [0..n * bpt - 1])
      = Inr (map (\<lambda>lb. map_burst am (burst_place table (bt * bpt) lb)) [0..n * bpt - 1])"
    "enumerate_bursts table n geom shape bt am
      = Inr (map (\<lambda>lb. map_burst am (burst_place table (bt * bpt) lb)) [0..n * bpt - 1])"
proof -
  have "0 < burst_bytes geom" using g(1) by (auto elim!: valid_geometryE)
  then show pos: "0 < bpt" unfolding bpt_def using bpt by (simp add: pos_imp_zdiv_pos_iff)
  then have bpb: "0 < bt * bpt" using bt by simp
  show lin: "linear_bursts table n bpt bt = Inr (map (burst_place table (bt * bpt)) [0..n * bpt - 1])"
    by (rule linear_bursts_ok [OF bt pos tab(1)])
  have range: "0 \<le> burst_place table (bt * bpt) lb \<and> burst_place table (bt * bpt) lb < total_bursts (am_geom am)"
    if "lb \<in> set [0..n * bpt - 1]" for lb
  proof -
    have "0 \<le> lb div (bt * bpt) \<and> lb div (bt * bpt) < int (length table)"
      using burst_in_table [OF bt pos tab(1), of lb] that by simp
    then show ?thesis
      using burst_place_range [OF bpb _ _ tab(2), of lb] cap AddrMap_InrD(2) [OF g] by (auto simp: bpt_def)
  qed
  then show mapped: "map_addrs am (map (burst_place table (bt * bpt)) [0..n * bpt - 1])
      = Inr (map (\<lambda>lb. map_burst am (burst_place table (bt * bpt) lb)) [0..n * bpt - 1])"
    by (simp add: map_addrs_Inr comp_def)
  show "enumerate_bursts table n geom shape bt am
      = Inr (map (\<lambda>lb. map_burst am (burst_place table (bt * bpt) lb)) [0..n * bpt - 1])"
    using lin mapped by (simp add: enumerate_bursts_def bpt_def)
qed

section \<open>A measurement succeeds\<close>

text \<open>Diagnostics are fractions, and no sequence touches fewer frames than it needs.\<close>

definition placement_ok :: "nat list \<Rightarrow> int \<Rightarrow> placement \<Rightarrow> bool" where
  "placement_ok table fb p \<longleftrightarrow>
     (case blk_adj p of None \<Rightarrow> length table < 2 | Some x \<Rightarrow> 0 \<le> x \<and> x \<le> 1)
     \<and> (case same_frame p of None \<Rightarrow> length table < 2 \<or> fb \<le> 1 | Some x \<Rightarrow> 0 \<le> x \<and> x \<le> 1)
     \<and> (case frame_spread p of None \<Rightarrow> length table < 2 \<or> fb \<le> 1 | Some x \<Rightarrow> 1 \<le> x)"

lemma mean_true_range: "0 \<le> mean_true bs" "mean_true bs \<le> 1"
proof -
  show "0 \<le> mean_true bs" by (simp add: mean_true_def)
  have "length (filter id bs) \<le> length bs" by (rule length_filter_le)
  then show "mean_true bs \<le> 1" by (cases bs) (auto simp: mean_true_def divide_le_eq_1)
qed

lemma frames_needed:
  assumes "distinct table" and fb: "0 < fb"
  shows "ceil_div (int (length table)) fb \<le> int (card ((\<lambda>b. int b div fb) ` set table))"
proof -
  let ?F = "(\<lambda>b. int b div fb) ` set table"
  have "inj_on (\<lambda>b. (int b div fb, int b mod fb)) (set table)"
    by (rule inj_onI) (metis mult_div_mod_eq of_nat_eq_iff prod.inject)
  moreover have "(\<lambda>b. (int b div fb, int b mod fb)) ` set table \<subseteq> ?F \<times> {0..<fb}"
    using fb by auto
  ultimately have "card (set table) \<le> card (?F \<times> {0..<fb})" by (intro card_inj_on_le) auto
  then have "length table \<le> card ?F * nat fb" by (simp add: card_cartesian_product distinct_card [OF assms(1)])
  then have "int (length table) \<le> int (card ?F) * fb" using fb by (metis int_nat_eq less_imp_le of_nat_mono of_nat_mult)
  then show ?thesis using ceil_div_le_iff [OF fb] by blast
qed

lemma placement_diagnostics_ok:
  assumes "distinct table"
  shows "placement_ok table fb (placement_diagnostics table fb)"
proof -
  have "1 \<le> real (length (remdups (map (\<lambda>x. x div fb) (map int table)))) / real_of_int (ceil_div (int (length table)) fb)"
    if "2 \<le> length table" "1 < fb"
  proof -
    have len: "length (remdups (map (\<lambda>x. x div fb) (map int table))) = card ((\<lambda>b. int b div fb) ` set table)"
      by (simp add: length_remdups_card_conv image_image)
    have "0 < ceil_div (int (length table)) fb"
      using that ceil_div_le_iff [of fb "int (length table)" 0] by (auto simp: not_le [symmetric])
    moreover have "ceil_div (int (length table)) fb \<le> int (card ((\<lambda>b. int b div fb) ` set table))"
      using that assms by (intro frames_needed) auto
    ultimately show ?thesis unfolding len by (simp add: le_divide_eq)
  qed
  then show ?thesis
    using mean_true_range by (simp add: placement_ok_def placement_diagnostics_def Let_def)
qed

definition metrics_ok :: "dram_geometry \<Rightarrow> model_shape \<Rightarrow> addr_map \<Rightarrow> pim_timing \<Rightarrow> int \<Rightarrow> string \<Rightarrow> bool" where
  "metrics_ok geom shape am timing window mode \<longleftrightarrow> valid_geometry geom \<and> (\<exists>scheme. AddrMap geom scheme = Inr am)
     \<and> burst_bytes geom \<le> kv_bytes_per_token shape \<and> 0 < tccd_ab_ns timing \<and> 0 < trc_ns timing
     \<and> 0 < window \<and> mode \<in> {''window'', ''inorder''}"

lemma measure_seq_ok:
  assumes ok: "metrics_ok geom shape am timing window mode" and bt: "0 < bt" and n: "0 < n"
    and tab: "ceil_div n bt \<le> int (length table)" "\<forall>b \<in> set table. b < N"
    and cap: "int N * (bt * (kv_bytes_per_token shape div burst_bytes geom)) \<le> total_bursts geom"
  shows "\<exists>row. measure_seq k n table am geom shape timing bt window mode fb = Inr row
    \<and> n_bursts (row_metrics row) = n * (kv_bytes_per_token shape div burst_bytes geom)
    \<and> n_cmds (row_metrics row) \<le> n_bursts (row_metrics row)
    \<and> n_bursts (row_metrics row) \<le> banks_per_channel geom * n_cmds (row_metrics row)
    \<and> 0 \<le> m1 (row_metrics row) \<and> m1 (row_metrics row) < 1
    \<and> 1 / real_of_int (banks_per_channel geom) \<le> m2 (row_metrics row) \<and> m2 (row_metrics row) \<le> 1
    \<and> 0 < row_m3_gbps row \<and> 0 < row_m4_ns row \<and> row_placement row = placement_diagnostics table fb"
proof -
  obtain scheme where g: "valid_geometry geom" "AddrMap geom scheme = Inr am"
    and bpt: "burst_bytes geom \<le> kv_bytes_per_token shape" and t: "0 < tccd_ab_ns timing" "0 < trc_ns timing"
    and w: "0 < window" "mode \<in> {''window'', ''inorder''}"
    using ok by (auto simp: metrics_ok_def)
  let ?bpt = "kv_bytes_per_token shape div burst_bytes geom" and ?B = "banks_per_channel geom"
  note bursts = enumerate_bursts_ok [OF g bt bpt tab cap]
  let ?cs = "map (\<lambda>lb. map_burst am (burst_place table (bt * ?bpt) lb)) [0..n * ?bpt - 1]"
  let ?bs = "map (\<lambda>c. (c Fch, flat_bank am c, c Fro)) ?cs"
  have B: "0 < ?B" using valid_geometry_pos [OF g(1)] by (simp add: banks_per_channel_def)
  have coord: "coord_ok geom c \<and> 0 \<le> flat_bank am c \<and> flat_bank am c < ?B" if "c \<in> set ?cs" for c
    using that map_burst_ok [OF g] flat_bank_range [OF g] by auto
  have "\<forall>(c, b, r) \<in> set ?bs. 0 \<le> b \<and> b < ?B \<and> 0 \<le> r"
  proof clarify
    fix c b r assume "(c, b, r) \<in> set ?bs"
    then obtain x where "x \<in> set ?cs" "b = flat_bank am x" "r = x Fro" by auto
    then show "0 \<le> b \<and> b < ?B \<and> 0 \<le> r" using coord [of x] by (auto simp: coord_ok_def)
  qed
  moreover have "0 < n * ?bpt" using n bursts(1) by simp
  then have "?bs \<noteq> []" and len: "int (length ?bs) = n * ?bpt" by simp_all
  ultimately obtain s where s: "sequence_metrics geom window mode ?bs = Inr s" "n_bursts s = n * ?bpt"
      "n_cmds s \<le> n_bursts s" "n_bursts s \<le> ?B * n_cmds s" "0 \<le> m1 s" "m1 s < 1"
      "1 / real_of_int ?B \<le> m2 s" "m2 s \<le> 1"
    using sequence_metrics_ok [OF B _ _ w, of ?bs] unfolding len by blast
  have t_cmd: "0 < m1 s * tccd_ab_ns timing + (1 - m1 s) * trc_ns timing"
    using s(5,6) t by (intro add_nonneg_pos) auto
  have ideal: "0 < bw_ideal geom timing"
    using valid_geometry_pos [OF g(1)] B t(1) g(1)
    by (auto simp: bw_ideal_def elim!: valid_geometryE intro!: divide_pos_pos mult_pos_pos)
  have "0 < m2 s" using s(7) B by (meson less_le_trans of_int_0_less_iff zero_less_divide_1_iff)
  define m3 where "m3 = bw_ideal geom timing * m2 s * (tccd_ab_ns timing / (m1 s * tccd_ab_ns timing + (1 - m1 s) * trc_ns timing))"
  have m3: "0 < m3" unfolding m3_def using ideal \<open>0 < m2 s\<close> t(1) t_cmd by simp
  have eff: "effective_bandwidth_gbps (m1 s) (m2 s) geom timing = Inr m3"
    using t(1) t_cmd by (simp add: effective_bandwidth_gbps_def m3_def)
  have "0 < burst_bytes geom" using g(1) by (auto elim!: valid_geometryE)
  then have kv: "0 < n * kv_bytes_per_token shape" using n bpt by (intro mult_pos_pos) auto
  show ?thesis
    using bursts(2,3) s eff m3 kv
    by (simp add: measure_seq_def comp_def decode_latency_ns_def Let_def del: of_int_mult)
qed

section \<open>Rows that were measured\<close>

text \<open>What a row says, whoever chose the table: \<open>map\<close> rejects bursts outside the geometry, so a row that was returned
  has bursts, all of them in the geometry, and its metrics are those of its bursts.\<close>

lemma map_addrs_coords:
  "valid_geometry geom \<Longrightarrow> AddrMap geom scheme = Inr am \<Longrightarrow> map_addrs am phys = Inr m \<Longrightarrow> \<forall>x \<in> set m. coord_ok geom x"
  by (auto simp: map_addrs_def map_burst_ok split: if_splits)

lemma coords_banks:
  assumes "valid_geometry geom" "AddrMap geom scheme = Inr am" and "\<forall>x \<in> set m. coord_ok geom x"
  shows "\<forall>x \<in> set m. 0 \<le> flat_bank am x \<and> flat_bank am x < banks_per_channel geom \<and> 0 \<le> x Fro"
  using assms flat_bank_range [OF assms(1,2)] by (auto simp: coord_ok_def)

lemma measured_ok:
  assumes ok: "metrics_ok geom shape am timing window mode"
    and run: "measure_seq k n table am geom shape timing bt window mode fb = Inr row"
  shows "\<exists>m. enumerate_bursts table n geom shape bt am = Inr m \<and> m \<noteq> [] \<and> (\<forall>x \<in> set m. coord_ok geom x)
    \<and> sequence_metrics geom window mode (map (\<lambda>c. (c Fch, flat_bank am c, c Fro)) m) = Inr (row_metrics row)
    \<and> effective_bandwidth_gbps (m1 (row_metrics row)) (m2 (row_metrics row)) geom timing = Inr (row_m3_gbps row)
    \<and> n_bursts (row_metrics row) = int (length m)
    \<and> 0 \<le> m1 (row_metrics row) \<and> m1 (row_metrics row) < 1
    \<and> 1 / real_of_int (banks_per_channel geom) \<le> m2 (row_metrics row) \<and> m2 (row_metrics row) \<le> 1"
proof -
  let ?B = "banks_per_channel geom" and ?bs = "map (\<lambda>c. (c Fch, flat_bank am c, c Fro))"
  obtain scheme where g: "valid_geometry geom" "AddrMap geom scheme = Inr am" and w: "0 < window" "mode \<in> {''window'', ''inorder''}"
    using ok by (auto simp: metrics_ok_def)
  obtain phys m where phys: "linear_bursts table n (kv_bytes_per_token shape div burst_bytes geom) bt = Inr phys" "map_addrs am phys = Inr m"
      and s: "sequence_metrics geom window mode (?bs m) = Inr (row_metrics row)"
      and m3: "effective_bandwidth_gbps (m1 (row_metrics row)) (m2 (row_metrics row)) geom timing = Inr (row_m3_gbps row)"
      and m4: "decode_latency_ns (real_of_int (row_kv_bytes row)) (row_m3_gbps row) = Inr (row_m4_ns row)"
    using run by (auto simp: measure_seq_def bindE_Inr Let_def)
  have B: "0 < ?B" using valid_geometry_pos [OF g(1)] by (simp add: banks_per_channel_def)
  have coords: "\<forall>x \<in> set m. coord_ok geom x" by (rule map_addrs_coords [OF g phys(2)])
  have banks: "\<forall>(c, b, r) \<in> set (?bs m). 0 \<le> b \<and> b < ?B \<and> 0 \<le> r" using coords_banks [OF g coords] by auto
  have ne: "m \<noteq> []"
  proof
    assume "m = []"
    then have "m2 (row_metrics row) = 0" using s by (simp add: sequence_metrics_def) (drule sym, simp)
    then have "row_m3_gbps row = 0" using m3 by (auto simp: effective_bandwidth_gbps_def Let_def split: if_splits)
    then show False using m4 by (simp add: decode_latency_ns_def)
  qed
  have "enumerate_bursts table n geom shape bt am = Inr m" using phys by (simp add: enumerate_bursts_def)
  with coords s m3 ne sequence_metrics_ok [OF B banks _ w] show ?thesis by auto
qed

section \<open>Properties\<close>

text \<open>C6: A measurement of a sequence that has blocks for all its tokens succeeds, for every valid geometry, every address
  map, both controller models and any positive window: every KV burst is counted, row-hit rate, bank
  parallelism and bandwidth are in range, and the placement diagnostics are fractions and a frame spread of
  at least 1.\<close>

theorem measured_metrics_in_range:
  assumes ok: "metrics_ok geom shape am timing window mode" and bt: "0 < bt" and n: "0 < n"
    and tab: "ceil_div n bt \<le> int (length table)" "\<forall>b \<in> set table. b < N" "distinct table"
    and cap: "int N * (bt * (kv_bytes_per_token shape div burst_bytes geom)) \<le> total_bursts geom"
  shows "\<exists>row. measure_seq k n table am geom shape timing bt window mode fb = Inr row
    \<and> n_bursts (row_metrics row) = n * (kv_bytes_per_token shape div burst_bytes geom)
    \<and> n_cmds (row_metrics row) \<le> n_bursts (row_metrics row)
    \<and> n_bursts (row_metrics row) \<le> banks_per_channel geom * n_cmds (row_metrics row)
    \<and> 0 \<le> m1 (row_metrics row) \<and> m1 (row_metrics row) < 1
    \<and> 1 / real_of_int (banks_per_channel geom) \<le> m2 (row_metrics row) \<and> m2 (row_metrics row) \<le> 1
    \<and> 0 < row_m3_gbps row \<and> 0 < row_m4_ns row \<and> placement_ok table fb (row_placement row)"
  using measure_seq_ok [OF ok bt n tab(1,2) cap] placement_diagnostics_ok [OF tab(3)] by metis

text \<open>C7: No two KV bursts share a place in the DRAM. For two sequences with pairwise different blocks, whose tables cover
  their tokens, each sequence's bursts go to pairwise different coordinates and no coordinate belongs to both;
  this holds for all three address maps.\<close>

theorem sequences_never_overlap:
  assumes g: "valid_geometry geom" "AddrMap geom scheme = Inr am" and bt: "0 < bt"
    and bpt: "burst_bytes geom \<le> kv_bytes_per_token shape"
    and tab: "ceil_div n bt \<le> int (length table)" "ceil_div n' bt \<le> int (length table')"
    and blocks: "distinct (table @ table')" "\<forall>b \<in> set (table @ table'). b < N"
    and cap: "int N * (bt * (kv_bytes_per_token shape div burst_bytes geom)) \<le> total_bursts geom"
  shows "\<exists>cs cs'. enumerate_bursts table n geom shape bt am = Inr cs \<and> enumerate_bursts table' n' geom shape bt am = Inr cs'
    \<and> length cs = nat (n * (kv_bytes_per_token shape div burst_bytes geom))
    \<and> distinct cs \<and> distinct cs' \<and> set cs \<inter> set cs' = {}"
proof -
  let ?bpt = "kv_bytes_per_token shape div burst_bytes geom"
  let ?place = "\<lambda>t lb. burst_place t (bt * ?bpt) lb"
  have blocks': "\<forall>b \<in> set table. b < N" "\<forall>b \<in> set table'. b < N" using blocks(2) by auto
  note e = enumerate_bursts_ok [OF g bt bpt tab(1) blocks'(1) cap] and e' = enumerate_bursts_ok [OF g bt bpt tab(2) blocks'(2) cap]
  have bpb: "0 < bt * ?bpt" using bt e(1) by simp
  have idx: "0 \<le> lb div (bt * ?bpt)" "lb div (bt * ?bpt) < int (length t)"
    if "ceil_div m bt \<le> int (length t)" "lb \<in> set [0..m * ?bpt - 1]" for m lb t
    using burst_in_table [OF bt e(1) that(1), of lb] that(2) by simp_all
  have inj: "l = l'" if "0 \<le> l" "l < total_bursts geom" "0 \<le> l'" "l' < total_bursts geom" "map_burst am l = map_burst am l'" for l l'
    using inverse_map_burst [OF g that(1,2)] inverse_map_burst [OF g that(3,4)] that(5) by metis
  have range: "0 \<le> ?place t lb \<and> ?place t lb < total_bursts geom"
    if "ceil_div m bt \<le> int (length t)" "\<forall>b \<in> set t. b < N" "lb \<in> set [0..m * ?bpt - 1]" for m t lb
  proof -
    show ?thesis using burst_place_range [OF bpb idx [OF that(1,3)] that(2)] cap by linarith
  qed
  have dist: "distinct (map (\<lambda>lb. map_burst am (?place t lb)) [0..m * ?bpt - 1])"
    if t: "ceil_div m bt \<le> int (length t)" "\<forall>b \<in> set t. b < N" "distinct t" for m t
  proof -
    have "inj_on (\<lambda>lb. map_burst am (?place t lb)) (set [0..m * ?bpt - 1])"
    proof (rule inj_onI)
      fix lb lb' assume lb: "lb \<in> set [0..m * ?bpt - 1]" "lb' \<in> set [0..m * ?bpt - 1]"
        and "map_burst am (?place t lb) = map_burst am (?place t lb')"
      then have "?place t lb = ?place t lb'" using inj range [OF t(1,2)] by blast
      then show "lb = lb'" by (rule burst_place_eq [OF bpb t(3) idx [OF t(1) lb(1)] idx [OF t(1) lb(2)]])
    qed
    then show ?thesis by (simp add: distinct_map)
  qed
  have "set (map (\<lambda>lb. map_burst am (?place table lb)) [0..n * ?bpt - 1])
      \<inter> set (map (\<lambda>lb. map_burst am (?place table' lb)) [0..n' * ?bpt - 1]) = {}"
  proof -
    have False if lb: "lb \<in> set [0..n * ?bpt - 1]" "lb' \<in> set [0..n' * ?bpt - 1]"
        "map_burst am (?place table lb) = map_burst am (?place table' lb')" for lb lb'
    proof -
      have "?place table lb = ?place table' lb'"
        using inj range [OF tab(1) blocks'(1) lb(1)] range [OF tab(2) blocks'(2) lb(2)] lb(3) by blast
      then show False
        using burst_place_neq [OF bpb blocks(1) idx [OF tab(1) lb(1)] idx [OF tab(2) lb(2)]] by simp
    qed
    then show ?thesis by force
  qed
  then show ?thesis
    using e(4) e'(4) dist [OF tab(1) blocks'(1)] dist [OF tab(2) blocks'(2)] blocks(1) by simp
qed

section \<open>Witnesses\<close>

definition tiny_shape :: model_shape where
  "tiny_shape = \<lparr>shape_name = ''tiny'', kv_heads = 1, head_dim = 8, dtype_bytes = 2\<rparr>"

lemma tiny_metrics: "metrics_ok TINY tiny_shape TINY_map DEFAULT_TIMING 64 ''window''"
proof -
  have "burst_bytes TINY \<le> kv_bytes_per_token tiny_shape" by code_simp
  then show ?thesis
    using TINY_valid TINY_map by (auto simp: metrics_ok_def DEFAULT_TIMING_def)
qed

lemma measured_metrics_in_range_witness:
  "\<exists>row. measure_seq 7 10 [3, 9, 4] TINY_map TINY tiny_shape DEFAULT_TIMING 4 64 ''window'' 16 = Inr row
    \<and> n_bursts (row_metrics row) = 10 \<and> m2 (row_metrics row) \<le> 1 \<and> placement_ok [3, 9, 4] 16 (row_placement row)"
proof -
  have "ceil_div 10 4 \<le> int (length [3, 9, 4 :: nat])" by code_simp
  moreover have "int 100 * (4 * (kv_bytes_per_token tiny_shape div burst_bytes TINY)) \<le> total_bursts TINY" by code_simp
  moreover have "10 * (kv_bytes_per_token tiny_shape div burst_bytes TINY) = 10" by code_simp
  ultimately show ?thesis
    using measured_metrics_in_range [OF tiny_metrics, of 4 10 "[3, 9, 4]" 100 7 16] by auto
qed

lemma sequences_never_overlap_witness:
  "\<exists>cs cs'. enumerate_bursts [3, 9, 4] 10 TINY tiny_shape 4 TINY_map = Inr cs
    \<and> enumerate_bursts [0, 2] 7 TINY tiny_shape 4 TINY_map = Inr cs' \<and> length cs = 10 \<and> set cs \<inter> set cs' = {}"
proof -
  have "ceil_div 10 4 \<le> int (length [3, 9, 4 :: nat])" "ceil_div 7 4 \<le> int (length [0, 2 :: nat])" by code_simp+
  moreover have "int 100 * (4 * (kv_bytes_per_token tiny_shape div burst_bytes TINY)) \<le> total_bursts TINY" by code_simp
  moreover have "burst_bytes TINY \<le> kv_bytes_per_token tiny_shape" by code_simp
  moreover have "nat (10 * (kv_bytes_per_token tiny_shape div burst_bytes TINY)) = 10" by code_simp
  ultimately show ?thesis
    using sequences_never_overlap [OF TINY_valid TINY_map, of 4 tiny_shape 10 "[3, 9, 4]" 7 "[0, 2]" 100] by auto
qed

end
