(* ===== verification/Sim.thy ===== *)
theory Sim
  imports "HOL-Library.Product_Lexorder" Measure Kv_Interface
begin

text \<open>
  The serving loop \<open>simulate\<close> of \<open>pimkv/sim.py\<close>: admission (oracle and vLLM), preemption by recompute, plain
  decode, speculative rounds, sampling, retirement and the periodic conservation check, as programs over
  the simulator's local variables. The allocator is any method table, the numpy generators are parameters.
  A sample holds the metric row and what the capture hook \<open>on_sample\<close> is called with.
\<close>

section \<open>Requests, sequences and configuration\<close>

record request =
  rid :: int
  arrival_step :: int
  prompt_len :: int
  output_len :: int
  prefix_id :: "int option"
  prefix_len :: int

record spec_params =
  sp_width :: int
  sp_depth :: int
  sp_accept :: rat
  sp_adopt :: string

definition scratch_blocks :: "spec_params \<Rightarrow> int \<Rightarrow> int" where
  "scratch_blocks sp block_tokens = ceil_div (block_tokens - 1 + sp_depth sp + 1) block_tokens"

record seq_state =
  sq_rid :: int
  sq_length :: int
  sq_total_len :: int
  sq_total_blocks :: int
  sq_scratch :: "nat list"
  sq_prefix_id :: "int option"
  sq_prefix_len :: int
  sq_preempts :: int

text \<open>The arguments of \<open>simulate\<close>. \<open>draw_random\<close>, \<open>draw_integers\<close> and \<open>draw_choice\<close> are numpy's
  \<open>random()\<close>, \<open>integers(n)\<close> and \<open>choice(n, size, replace=False)\<close> on a generator state.\<close>

record ('p, 'g) env =
  methods :: "'p allocator"
  block_tokens :: int
  max_batch :: int
  sample_every :: int
  sample_seqs :: int
  check_every :: int
  spec :: "spec_params option"
  admission :: string
  watermark :: rat
  env_geom :: dram_geometry
  env_shape :: model_shape
  env_am :: addr_map
  env_timing :: pim_timing
  env_window :: int
  env_mode :: string
  env_frame_blocks :: int
  draw_random :: "'g \<Rightarrow> rat \<times> 'g"
  draw_integers :: "'g \<Rightarrow> int \<Rightarrow> nat \<times> 'g"
  draw_choice :: "'g \<Rightarrow> nat \<Rightarrow> nat \<Rightarrow> nat list \<times> 'g"

text \<open>The local variables of \<open>simulate\<close>; \<open>pending\<close> is \<open>reqs[i:]\<close>.\<close>

record ('p, 'g) sim =
  pool :: "'p kv"
  active :: "(int, seq_state) dict"
  prefix_cache :: "(int, nat list) dict"
  pending :: "request list"
  waiting :: "seq_state list"
  clock :: int
  completed :: int
  dropped :: "int list"
  frag_failures :: int
  decode_steps :: int
  spec_stalls :: int
  copied_tokens :: int
  peak_live :: int
  preemptions :: int
  self_preemptions :: int
  samples :: "(int \<times> seq_state \<times> nat list \<times> seq_row \<times> int \<times> int) list"
  rng_metric :: 'g
  rng_spec :: 'g

definition on_pool :: "('p kv, 'a) prog \<Rightarrow> (('p, 'g) sim, 'a) prog" where
  [prog_simps]: "on_pool m = (\<lambda>s. let (r, p) = m (pool s) in (r, s\<lparr>pool := p\<rparr>))"

definition free_blocks_now :: "('p, 'g) env \<Rightarrow> (('p, 'g) sim, int) prog" where
  [prog_simps]: "free_blocks_now e = getS (\<lambda>s. m_free (methods e) (pool s))"

text \<open>\<open>try: m except AdmissionFailure: handler\<close>.\<close>

definition catch_admission :: "('s, 'a) prog \<Rightarrow> ('s, 'a) prog \<Rightarrow> ('s, 'a) prog" where
  [prog_simps]: "catch_admission m handler = (\<lambda>s. case m s of
     (Inl e, s') \<Rightarrow> if e = AdmissionFailure then handler s' else (Inl e, s')
   | (Inr x, s') \<Rightarrow> (Inr x, s'))"

definition update_seq :: "int \<Rightarrow> (seq_state \<Rightarrow> seq_state) \<Rightarrow> (('p, 'g) sim, unit) prog" where
  [prog_simps]: "update_seq k f = bindS (dget k active) (\<lambda>st.
     modifyS (\<lambda>s. s\<lparr>active := AList.update k (f st) (active s)\<rparr>))"

definition scratch_per_seq :: "('p, 'g) env \<Rightarrow> int" where
  "scratch_per_seq e = (case spec e of
     Some sp \<Rightarrow> if persistent_scratch (methods e) then scratch_blocks sp (block_tokens e) * sp_width sp else 0
   | None \<Rightarrow> 0)"

text \<open>\<open>int(watermark * alloc.num_blocks)\<close> truncates towards zero.\<close>

definition watermark_blocks :: "('p, 'g) env \<Rightarrow> ('p, 'g) sim \<Rightarrow> int" where
  "watermark_blocks e s = (let x = watermark e * of_nat (num_blocks (pool s)) in
     if x < 0 then - floor (- x) else floor x)"

section \<open>Admission\<close>

definition committed :: "('p, 'g) env \<Rightarrow> (('p, 'g) sim, int) prog" where
  "committed e = bindS (getS active) (\<lambda>act.
     foldS (\<lambda>(k, st) acc. bindS (on_pool (get_table (sq_rid st))) (\<lambda>t.
       ret (acc + (sq_total_blocks st - int (length t) - int (length (sq_scratch st)))))) act 0)"

definition prefix_gate :: "('p, 'g) env \<Rightarrow> int \<Rightarrow> int \<Rightarrow> (('p, 'g) sim, bool) prog" where
  "prefix_gate e needed prompt_blocks =
     bindS (free_blocks_now e) (\<lambda>free.
     if admission e = ''oracle'' then bindS (committed e) (\<lambda>c. ret (free - c \<ge> needed))
     else getS (\<lambda>s. free - prompt_blocks \<ge> watermark_blocks e s))"

text \<open>The prefix-cache part of \<open>try_admit\<close>: the shared blocks, or \<open>None\<close> where it returns False.\<close>

definition shared_prefix :: "('p, 'g) env \<Rightarrow> seq_state \<Rightarrow> int \<Rightarrow> int \<Rightarrow> (('p, 'g) sim, nat list option) prog" where
  "shared_prefix e st prompt_blocks total_with_scratch =
     (case sq_prefix_id st of
        None \<Rightarrow> ret (Some [])
      | Some pid \<Rightarrow>
          if supports_sharing (methods e) \<and> sq_prefix_len st \<ge> block_tokens e then
            bindS (getS (\<lambda>s. map_of (prefix_cache s) pid)) (\<lambda>cached.
            case cached of
              Some bs \<Rightarrow> ret (Some bs)
            | None \<Rightarrow>
                let n_shared = sq_prefix_len st div block_tokens e in
                bindS (prefix_gate e (n_shared + total_with_scratch) prompt_blocks) (\<lambda>ok.
                if \<not> ok then ret None
                else catch_admission
                  (bindS (on_pool (m_admit (methods e) (- 1000 - pid) n_shared n_shared)) (\<lambda>bs.
                   thenS (modifyS (\<lambda>s. s\<lparr>prefix_cache := AList.update pid bs (prefix_cache s)\<rparr>))
                   (ret (Some bs))))
                  (thenS (modifyS (\<lambda>s. s\<lparr>frag_failures := frag_failures s + 1\<rparr>)) (ret None))))
          else ret (Some []))"

definition admission_gate :: "('p, 'g) env \<Rightarrow> int \<Rightarrow> int \<Rightarrow> (('p, 'g) sim, bool) prog" where
  "admission_gate e needed n_new =
     bindS (free_blocks_now e) (\<lambda>free.
     if admission e = ''oracle'' then bindS (committed e) (\<lambda>c. ret (\<not> free - c < needed))
     else getS (\<lambda>s. \<not> free - n_new < watermark_blocks e s))"

definition enter_active :: "('p, 'g) env \<Rightarrow> seq_state \<Rightarrow> (('p, 'g) sim, unit) prog" where
  "enter_active e st =
     bindS (if scratch_per_seq e \<noteq> 0 then on_pool (m_take (methods e) (sq_rid st) (scratch_per_seq e))
            else ret (sq_scratch st)) (\<lambda>scr.
     modifyS (\<lambda>s. s\<lparr>active := AList.update (sq_rid st) (st\<lparr>sq_scratch := scr\<rparr>) (active s)\<rparr>))"

definition try_admit :: "('p, 'g) env \<Rightarrow> seq_state \<Rightarrow> (('p, 'g) sim, bool) prog" where
  "try_admit e st =
     (let total_blocks = ceil_div (sq_total_len st) (block_tokens e);
          prompt_blocks = ceil_div (sq_length st) (block_tokens e);
          total_with_scratch = total_blocks + scratch_per_seq e in
      bindS (shared_prefix e st prompt_blocks total_with_scratch) (\<lambda>r.
      case r of
        None \<Rightarrow> ret False
      | Some shared \<Rightarrow>
          let n_new = prompt_blocks - int (length shared) in
          bindS (admission_gate e (total_with_scratch - int (length shared)) n_new) (\<lambda>ok.
          if \<not> ok then ret False
          else bindS (catch_admission
                 (thenS (on_pool (if shared \<noteq> []
                            then m_admit_shared (methods e) (sq_rid st) shared n_new total_with_scratch
                            else m_admit (methods e) (sq_rid st) prompt_blocks total_with_scratch))
                  (ret True))
                 (thenS (modifyS (\<lambda>s. s\<lparr>frag_failures := frag_failures s + 1\<rparr>)) (ret False))) (\<lambda>admitted.
            if \<not> admitted then ret False
            else thenS (enter_active e (st\<lparr>sq_total_blocks := total_with_scratch\<rparr>)) (ret True)))))"

section \<open>Preemption\<close>

definition preempt :: "('p, 'g) env \<Rightarrow> int \<Rightarrow> (('p, 'g) sim, unit) prog" where
  "preempt e k =
     bindS (dget k active) (\<lambda>st.
     thenS (modifyS (\<lambda>s. s\<lparr>active := AList.delete k (active s)\<rparr>))
     (thenS (if sq_scratch st \<noteq> [] then on_pool (m_unref (methods e) (sq_scratch st)) else ret ())
     (thenS (on_pool (m_release (methods e) k))
     (modifyS (\<lambda>s. s\<lparr>preemptions := preemptions s + 1,
        waiting := st\<lparr>sq_scratch := [], sq_preempts := sq_preempts st + 1\<rparr> # waiting s\<rparr>)))))"

text \<open>The loop of \<open>ensure_free\<close>: victims from the tail of the active dictionary, other sequences only; with
  nobody else left the sequence preempts itself.\<close>

fun make_room :: "('p, 'g) env \<Rightarrow> int \<Rightarrow> int \<Rightarrow> int list \<Rightarrow> (('p, 'g) sim, bool) prog" where
  "make_room e k n [] =
     bindS (free_blocks_now e) (\<lambda>free.
     if free < n then
       thenS (modifyS (\<lambda>s. s\<lparr>self_preemptions := self_preemptions s + 1\<rparr>))
       (thenS (preempt e k) (ret False))
     else ret True)"
| "make_room e k n (v # vs) =
     bindS (free_blocks_now e) (\<lambda>free.
     if free < n then thenS (preempt e v) (make_room e k n vs) else ret True)"

definition ensure_free :: "('p, 'g) env \<Rightarrow> int \<Rightarrow> int \<Rightarrow> (('p, 'g) sim, bool) prog" where
  "ensure_free e k n =
     bindS (free_blocks_now e) (\<lambda>free.
     if admission e = ''oracle'' \<or> free \<ge> n then ret True
     else bindS (getS (\<lambda>s. rev (filter (\<lambda>r. r \<noteq> k) (map fst (active s))))) (make_room e k n))"

section \<open>One decode step of a sequence\<close>

definition advance :: "int \<Rightarrow> int \<Rightarrow> (('p, 'g) sim, unit) prog" where
  "advance k adv = update_seq k (\<lambda>st. st\<lparr>sq_length := sq_length st + adv\<rparr>)"

text \<open>Plain decode; False where the code gives the step up (\<open>continue\<close>).\<close>

definition plain_decode :: "('p, 'g) env \<Rightarrow> int \<Rightarrow> (('p, 'g) sim, bool) prog" where
  "plain_decode e k =
     bindS (dget k active) (\<lambda>st.
     bindS (on_pool (get_table k)) (\<lambda>t.
     let need = sq_length st + 1 > int (length t) * block_tokens e in
     bindS (if need then ensure_free e k 1 else ret True) (\<lambda>ok.
     if \<not> ok then ret False
     else thenS (advance k 1)
       (thenS (if need then bindS (on_pool (m_append (methods e) k)) (\<lambda>_. ret ()) else ret ())
       (ret True)))))"

text \<open>\<open>while k < spec.depth and rng.random() < spec.accept ** (k + 1): k += 1\<close>.\<close>

fun accepted_drafts :: "('g \<Rightarrow> rat \<times> 'g) \<Rightarrow> rat \<Rightarrow> nat \<Rightarrow> nat \<Rightarrow> 'g \<Rightarrow> nat \<times> 'g" where
  "accepted_drafts draw acc 0 k g = (k, g)"
| "accepted_drafts draw acc (Suc n) k g =
     (let (x, g') = draw g in
      if x < acc ^ (k + 1) then accepted_drafts draw acc n (k + 1) g' else (k, g'))"

definition append_blocks :: "('p, 'g) env \<Rightarrow> int \<Rightarrow> int \<Rightarrow> (('p, 'g) sim, unit) prog" where
  "append_blocks e k n = bindS (repeatS n (on_pool (m_append (methods e) k))) (\<lambda>_. ret ())"

definition add_copied :: "int \<Rightarrow> (('p, 'g) sim, unit) prog" where
  "add_copied n = modifyS (\<lambda>s. s\<lparr>copied_tokens := copied_tokens s + n\<rparr>)"

definition draw_round :: "('p, 'g) env \<Rightarrow> spec_params \<Rightarrow> (('p, 'g) sim, int \<times> nat) prog" where
  "draw_round e sp = (\<lambda>s.
     let (k, g) = accepted_drafts (draw_random e) (sp_accept sp) (nat (sp_depth sp)) 0 (rng_spec s) in
     if sp_width sp \<le> 0 then (Inl ValueError, s\<lparr>rng_spec := g\<rparr>)
     else let (w, g') = draw_integers e g (sp_width sp) in (Inr (int k, w), s\<lparr>rng_spec := g'\<rparr>))"

definition grow_of :: "('p, 'g) env \<Rightarrow> seq_state \<Rightarrow> int \<Rightarrow> int" where
  "grow_of e st adv = ceil_div (sq_length st + adv) (block_tokens e) - ceil_div (sq_length st) (block_tokens e)"

definition spec_in_place :: "('p, 'g) env \<Rightarrow> int \<Rightarrow> seq_state \<Rightarrow> int \<Rightarrow> (('p, 'g) sim, unit) prog" where
  "spec_in_place e k st adv =
     bindS (ensure_free e k (grow_of e st adv)) (\<lambda>ok.
     if \<not> ok then ret ()
     else thenS (append_blocks e k (grow_of e st adv)) (thenS (add_copied adv) (advance k adv)))"

definition spec_stalled :: "('p, 'g) env \<Rightarrow> int \<Rightarrow> seq_state \<Rightarrow> (('p, 'g) sim, unit) prog" where
  "spec_stalled e k st =
     thenS (modifyS (\<lambda>s. s\<lparr>spec_stalls := spec_stalls s + 1\<rparr>))
     (bindS (on_pool (get_table k)) (\<lambda>t.
     let need = sq_length st + 1 > int (length t) * block_tokens e in
     bindS (if need then ensure_free e k 1 else ret True) (\<lambda>ok.
     if \<not> ok then ret ()
     else thenS (advance k 1)
       (if need then bindS (on_pool (m_append (methods e) k)) (\<lambda>_. ret ()) else ret ()))))"

definition spec_copyback ::
  "('p, 'g) env \<Rightarrow> int \<Rightarrow> seq_state \<Rightarrow> int \<Rightarrow> nat list list \<Rightarrow> (('p, 'g) sim, unit) prog" where
  "spec_copyback e k st adv branches =
     (let grow = grow_of e st adv;
          drop_all = eachS (\<lambda>br. on_pool (m_unref (methods e) br)) branches in
      bindS (if grow \<noteq> 0 then ensure_free e k grow else ret True) (\<lambda>ok.
      if \<not> ok then drop_all
      else thenS (append_blocks e k grow) (thenS (add_copied adv) (thenS drop_all (advance k adv)))))"

definition spec_round :: "('p, 'g) env \<Rightarrow> spec_params \<Rightarrow> int \<Rightarrow> (('p, 'g) sim, unit) prog" where
  "spec_round e sp k =
     bindS (dget k active) (\<lambda>st.
     let remaining = sq_total_len st - sq_length st; bt = block_tokens e in
     bindS (draw_round e sp) (\<lambda>(kk, w_star).
     let adv = min (kk + 1) remaining in
     if persistent_scratch (methods e) then spec_in_place e k st adv
     else
       let r = sq_length st mod bt; d1 = sp_depth sp + 1;
           n_br = (if r \<noteq> 0 then ceil_div (r + d1) bt else ceil_div d1 bt) in
       bindS (free_blocks_now e) (\<lambda>free.
       if free < sp_width sp * n_br then spec_stalled e k st
       else bindS (repeatS (sp_width sp) (on_pool (m_scratch (methods e) k n_br))) (\<lambda>branches.
         thenS (if r \<noteq> 0 then add_copied (sp_width sp * r) else ret ())
         (if sp_adopt sp = ''copyback'' then spec_copyback e k st adv branches
          else let keep = (if r \<noteq> 0 then ceil_div (r + adv) bt else ceil_div adv bt) in
            thenS (on_pool (m_adopt (methods e) k (r \<noteq> 0) w_star keep branches))
            (advance k adv))))))"

text \<open>One turn of the decode loop for the sequence \<open>k\<close> of the snapshot, collecting the finished ones.\<close>

definition decode_seq :: "('p, 'g) env \<Rightarrow> int \<Rightarrow> int list \<Rightarrow> (('p, 'g) sim, int list) prog" where
  "decode_seq e k finished =
     bindS (getS (\<lambda>s. map_of (active s) k)) (\<lambda>present.
     case present of
       None \<Rightarrow> ret finished
     | Some _ \<Rightarrow>
         bindS (case spec e of Some sp \<Rightarrow> thenS (spec_round e sp k) (ret True) | None \<Rightarrow> plain_decode e k) (\<lambda>go.
         if \<not> go then ret finished
         else getS (\<lambda>s. case map_of (active s) k of
           None \<Rightarrow> finished
         | Some st \<Rightarrow> if sq_length st \<ge> sq_total_len st then finished @ [k] else finished)))"

section \<open>The main loop\<close>

definition drop_request :: "int \<Rightarrow> (('p, 'g) sim, unit) prog" where
  [prog_simps]: "drop_request k = modifyS (\<lambda>s. s\<lparr>dropped := dropped s @ [k]\<rparr>)"

text \<open>Preempted sequences first; True when the head of the queue has to wait (\<open>blocked\<close>).\<close>

fun admit_waiting :: "('p, 'g) env \<Rightarrow> seq_state list \<Rightarrow> (('p, 'g) sim, bool) prog" where
  "admit_waiting e [] = ret False"
| "admit_waiting e (st # rest) =
     bindS (getS (\<lambda>s. int (length (active s)) < max_batch e)) (\<lambda>space.
     if \<not> space then ret False
     else bindS (getS (\<lambda>s. sq_preempts st > 1000
              \<or> ceil_div (sq_length st + 1) (block_tokens e) > int (num_blocks (pool s)))) (\<lambda>hopeless.
       if hopeless then
         thenS (modifyS (\<lambda>s. s\<lparr>waiting := rest\<rparr>)) (thenS (drop_request (sq_rid st)) (admit_waiting e rest))
       else bindS (try_admit e st) (\<lambda>ok.
         if ok then thenS (modifyS (\<lambda>s. s\<lparr>waiting := rest\<rparr>)) (admit_waiting e rest)
         else bindS (getS (\<lambda>s. active s = [])) (\<lambda>idle.
           if idle then
             thenS (modifyS (\<lambda>s. s\<lparr>waiting := rest\<rparr>)) (thenS (drop_request (sq_rid st)) (admit_waiting e rest))
           else ret True))))"

definition new_seq :: "request \<Rightarrow> seq_state" where
  "new_seq r = \<lparr>sq_rid = rid r, sq_length = prompt_len r, sq_total_len = prompt_len r + output_len r,
     sq_total_blocks = 0, sq_scratch = [], sq_prefix_id = prefix_id r, sq_prefix_len = prefix_len r,
     sq_preempts = 0\<rparr>"

fun admit_arrivals :: "('p, 'g) env \<Rightarrow> request list \<Rightarrow> (('p, 'g) sim, unit) prog" where
  "admit_arrivals e [] = ret ()"
| "admit_arrivals e (r # rest) =
     bindS (getS (\<lambda>s. arrival_step r \<le> clock s \<and> int (length (active s)) < max_batch e)) (\<lambda>go.
     if \<not> go then ret ()
     else bindS (try_admit e (new_seq r)) (\<lambda>ok.
       if ok then thenS (modifyS (\<lambda>s. s\<lparr>pending := rest\<rparr>)) (admit_arrivals e rest)
       else bindS (getS (\<lambda>s. active s = [])) (\<lambda>idle.
         if idle then
           thenS (drop_request (rid r)) (thenS (modifyS (\<lambda>s. s\<lparr>pending := rest\<rparr>)) (admit_arrivals e rest))
         else ret ())))"

text \<open>The metric sample of a step.\<close>

definition sample_row :: "('p, 'g) env \<Rightarrow> int list \<Rightarrow> nat \<Rightarrow> (('p, 'g) sim, unit) prog" where
  "sample_row e ids j =
     (if length ids \<le> j then raise IndexError
      else bindS (dget (ids ! j) active) (\<lambda>st.
        bindS (on_pool (get_table (ids ! j))) (\<lambda>tab.
        case measure_seq (sq_rid st) (sq_length st) tab (env_am e) (env_geom e) (env_shape e) (env_timing e)
               (block_tokens e) (env_window e) (env_mode e) (env_frame_blocks e) of
          Inl x \<Rightarrow> raise x
        | Inr row \<Rightarrow> modifyS (\<lambda>s. s\<lparr>samples := samples s
            @ [(clock s, st, tab, row, num_live (pool s), m_free (methods e) (pool s))]\<rparr>))))"

definition draw_sample :: "('p, 'g) env \<Rightarrow> int list \<Rightarrow> (('p, 'g) sim, nat list) prog" where
  "draw_sample e ids = (\<lambda>s.
     if sample_seqs e < 0 then (Inl ValueError, s)
     else let (picked, g) = draw_choice e (rng_metric s) (length ids) (nat (min (sample_seqs e) (int (length ids)))) in
     (Inr picked, s\<lparr>rng_metric := g\<rparr>))"

definition take_samples :: "('p, 'g) env \<Rightarrow> (('p, 'g) sim, unit) prog" where
  "take_samples e =
     bindS (getS clock) (\<lambda>t.
     if sample_every e = 0 then raise ZeroDivisionError
     else if t mod sample_every e \<noteq> 0 then ret ()
     else bindS (getS (\<lambda>s. sort (map fst (active s)))) (\<lambda>ids.
       bindS (draw_sample e ids) (\<lambda>picked. eachS (sample_row e ids) (sort picked))))"

definition retire_seq :: "('p, 'g) env \<Rightarrow> int \<Rightarrow> (('p, 'g) sim, unit) prog" where
  "retire_seq e k =
     bindS (dget k active) (\<lambda>st.
     thenS (modifyS (\<lambda>s. s\<lparr>active := AList.delete k (active s)\<rparr>))
     (thenS (if sq_scratch st \<noteq> [] then on_pool (m_unref (methods e) (sq_scratch st)) else ret ())
     (thenS (on_pool (m_release (methods e) k))
     (modifyS (\<lambda>s. s\<lparr>completed := completed s + 1\<rparr>)))))"

definition periodic_check :: "('p, 'g) env \<Rightarrow> (('p, 'g) sim, unit) prog" where
  "periodic_check e =
     bindS (getS clock) (\<lambda>t.
     if check_every e \<noteq> 0 \<and> t mod check_every e = 0 then on_pool (m_check (methods e)) else ret ())"

definition decode_phase :: "('p, 'g) env \<Rightarrow> (('p, 'g) sim, unit) prog" where
  "decode_phase e =
     bindS (getS (\<lambda>s. map fst (active s))) (\<lambda>ids.
     bindS (foldS (decode_seq e) ids []) (\<lambda>finished.
     thenS (modifyS (\<lambda>s. s\<lparr>decode_steps := decode_steps s + 1, peak_live := max (peak_live s) (num_live (pool s))\<rparr>))
     (thenS (take_samples e)
     (thenS (eachS (retire_seq e) finished)
     (thenS (periodic_check e)
     (modifyS (\<lambda>s. s\<lparr>clock := clock s + 1\<rparr>)))))))"

definition admit_phase :: "('p, 'g) env \<Rightarrow> (('p, 'g) sim, unit) prog" where
  "admit_phase e =
     bindS (getS waiting) (\<lambda>ws.
     bindS (admit_waiting e ws) (\<lambda>blocked.
     if blocked then ret () else bindS (getS pending) (admit_arrivals e)))"

text \<open>One iteration of the main loop; False where it breaks.\<close>

definition sim_step :: "('p, 'g) env \<Rightarrow> (('p, 'g) sim, bool) prog" where
  "sim_step e =
     thenS (admit_phase e)
     (bindS (getS (\<lambda>s. (active s = [], pending s))) (\<lambda>(idle, todo).
     if idle then
       (case todo of
          r # _ \<Rightarrow> thenS (modifyS (\<lambda>s. s\<lparr>clock := max (clock s + 1) (arrival_step r)\<rparr>)) (ret True)
        | [] \<Rightarrow> ret False)
     else thenS (decode_phase e) (ret True)))"

text \<open>The loop with fuel: \<open>None\<close> when the fuel is used up.\<close>

fun sim_loop :: "nat \<Rightarrow> ('p, 'g) env \<Rightarrow> (('p, 'g) sim, unit option) prog" where
  "sim_loop 0 e = ret None"
| "sim_loop (Suc n) e =
     bindS (getS (\<lambda>s. pending s \<noteq> [] \<or> active s \<noteq> [] \<or> waiting s \<noteq> [])) (\<lambda>go.
     if \<not> go then ret (Some ())
     else bindS (sim_step e) (\<lambda>more. if more then sim_loop n e else ret (Some ())))"

definition sim_init :: "request list \<Rightarrow> 'p kv \<Rightarrow> 'g \<Rightarrow> 'g \<Rightarrow> ('p, 'g) sim" where
  "sim_init requests p g gs = \<lparr>pool = p, active = [], prefix_cache = [],
     pending = sort_key (\<lambda>r. (arrival_step r, rid r)) requests, waiting = [], clock = 0, completed = 0,
     dropped = [], frag_failures = 0, decode_steps = 0, spec_stalls = 0, copied_tokens = 0, peak_live = 0,
     preemptions = 0, self_preemptions = 0, samples = [], rng_metric = g, rng_spec = gs\<rparr>"

text \<open>The argument checks at the top of \<open>simulate\<close>.\<close>

definition bursts_per_block :: "('p, 'g) env \<Rightarrow> int" where
  "bursts_per_block e = block_tokens e * (kv_bytes_per_token (env_shape e) div burst_bytes (env_geom e))"

definition sim_checks :: "('p, 'g) env \<Rightarrow> (('p, 'g) sim, unit) prog" where
  "sim_checks e =
     (thenS (assertS (\<lambda>s. kv_bytes_per_token (env_shape e) mod burst_bytes (env_geom e) = 0) ValueError)
      (thenS (assertS (\<lambda>s. \<not> int (num_blocks (pool s)) * bursts_per_block e > total_bursts (env_geom e)) ValueError)
      (thenS (assertS (\<lambda>s. admission e \<in> {''oracle'', ''vllm''}) ValueError)
      (assertS (\<lambda>s. \<not> (admission e = ''vllm'' \<and> persistent_scratch (methods e))) ValueError))))"

definition sim_finish :: "('p, 'g) env \<Rightarrow> (('p, 'g) sim, unit) prog" where
  "sim_finish e =
     thenS (bindS (getS (\<lambda>s. sort (map fst (prefix_cache s)))) (\<lambda>pids.
       eachS (\<lambda>pid. on_pool (m_release (methods e) (- 1000 - pid))) pids))
     (on_pool (m_check (methods e)))"

definition simulate :: "nat \<Rightarrow> ('p, 'g) env \<Rightarrow> (('p, 'g) sim, unit option) prog" where
  "simulate fuel e =
     thenS (sim_checks e)
     (bindS (sim_loop fuel e) (\<lambda>r.
     case r of None \<Rightarrow> ret None | Some _ \<Rightarrow> thenS (sim_finish e) (ret (Some ()))))"

end
