(* ===== verification/Sim_Oracle.thy ===== *)
theory Sim_Oracle
  imports Sim
begin

text \<open>
  The serving loop under oracle admission and plain decode, on any allocator that keeps the contract: the
  admission gate reserves every sequence's future blocks, so no decode step ever runs out, the loop ends,
  every request whose footprint fits in the pool completes and exactly the others are dropped.
\<close>

section \<open>Blocks owed to a sequence\<close>

definition owed :: "int \<Rightarrow> seq_state \<Rightarrow> int" where
  "owed bt st = ceil_div (sq_total_len st) bt - ceil_div (sq_length st) bt"

lemma ceil_div_mono: "0 < b \<Longrightarrow> x \<le> y \<Longrightarrow> ceil_div x b \<le> ceil_div y b"
  using ceil_div_le_iff [of b x "ceil_div y b"] ceil_div_le_iff [of b y "ceil_div y b"] by linarith

lemma ceil_div_nonneg: "0 < b \<Longrightarrow> 0 \<le> x \<Longrightarrow> 0 \<le> ceil_div x b"
  using ceil_div_mono [of b 0 x] by (simp add: ceil_div_def)

lemma ceil_div_pos: "0 < b \<Longrightarrow> 0 < x \<Longrightarrow> 0 < ceil_div x b"
  using ceil_div_le_iff [of b x 0] by simp

text \<open>One more token needs one more block exactly when the table is full.\<close>

lemma ceil_div_Suc:
  assumes b: "0 < b"
  shows "ceil_div (x + 1) b = ceil_div x b + (if x + 1 > ceil_div x b * b then 1 else 0)"
proof -
  have x: "x \<le> ceil_div x b * b" using ceil_div_le_iff [OF b, of x "ceil_div x b"] by simp
  show ?thesis
  proof (cases "x + 1 > ceil_div x b * b")
    case True
    have "x + 1 \<le> (ceil_div x b + 1) * b" using x b by (simp add: distrib_right)
    then have "ceil_div (x + 1) b \<le> ceil_div x b + 1" using ceil_div_le_iff [OF b] by blast
    moreover have "\<not> ceil_div (x + 1) b \<le> ceil_div x b" using True ceil_div_le_iff [OF b] by (metis not_le)
    ultimately show ?thesis using True by simp
  next
    case False
    then have "ceil_div (x + 1) b \<le> ceil_div x b" using ceil_div_le_iff [OF b, of "x + 1" "ceil_div x b"] by linarith
    moreover have "ceil_div x b \<le> ceil_div (x + 1) b" using b by (intro ceil_div_mono) auto
    ultimately show ?thesis using False by simp
  qed
qed

lemma owed_nonneg: "0 < bt \<Longrightarrow> sq_length st \<le> sq_total_len st \<Longrightarrow> 0 \<le> owed bt st"
  using ceil_div_mono by (simp add: owed_def)

lemma dsum_nonneg: "\<forall>k v. map_of d k = Some v \<longrightarrow> 0 \<le> f v \<Longrightarrow> dict_ok d \<Longrightarrow> 0 \<le> dsum f d" for f :: "'v \<Rightarrow> int"
proof (induction d)
  case (Cons p d)
  obtain k v where p: "p = (k, v)" by (cases p)
  have "map_of d k = None" using Cons.prems(2) p by (simp add: map_of_eq_None_iff)
  then have "\<forall>k v. map_of d k = Some v \<longrightarrow> 0 \<le> f v" using Cons.prems(1) p
    by (metis fun_upd_other map_of_Cons_code(2) option.distinct(1))
  moreover have "map_of (p # d) k = Some v \<longrightarrow> 0 \<le> f v" using Cons.prems(1) by blast
  then have "0 \<le> f v" using p by simp
  ultimately show ?case using Cons p by simp
qed simp

lemma dsum_member_le:
  "\<forall>k v. map_of d k = Some v \<longrightarrow> 0 \<le> f v \<Longrightarrow> dict_ok d \<Longrightarrow> map_of d k = Some v \<Longrightarrow> f v \<le> dsum f d" for f :: "'v \<Rightarrow> int"
  using dsum_delete [of d k v f] dsum_nonneg [of "AList.delete k d" f] by (simp split: if_splits)

section \<open>The configuration and the invariant\<close>

definition choice_ok :: "('g \<Rightarrow> nat \<Rightarrow> nat \<Rightarrow> nat list \<times> 'g) \<Rightarrow> bool" where
  "choice_ok choice \<longleftrightarrow> (\<forall>g n k. k \<le> n \<longrightarrow> set (fst (choice g n k)) \<subseteq> {..<n})"

text \<open>The metric configuration is one that \<open>measure_seq\<close> works on.\<close>

definition measures :: "('p, 'g) env \<Rightarrow> bool" where
  "measures e \<longleftrightarrow> metrics_ok (env_geom e) (env_shape e) (env_am e) (env_timing e) (env_window e) (env_mode e)"

text \<open>Pools in the invariant fit the geometry.\<close>

definition pool_fits :: "(holdings \<Rightarrow> 'p kv \<Rightarrow> bool) \<Rightarrow> ('p, 'g) env \<Rightarrow> bool" where
  "pool_fits Inv e \<longleftrightarrow> (\<forall>H p. Inv H p \<longrightarrow> int (num_blocks p) * bursts_per_block e \<le> total_bursts (env_geom e))"

definition plain_oracle :: "('p, 'g) env \<Rightarrow> bool" where
  "plain_oracle e \<longleftrightarrow> \<not> persistent_scratch (methods e) \<and> admission e = ''oracle'' \<and> spec e = None
     \<and> 0 < block_tokens e \<and> 0 < max_batch e \<and> sample_every e \<noteq> 0 \<and> 0 \<le> sample_seqs e \<and> choice_ok (draw_choice e)
     \<and> measures e"

definition request_ok :: "request \<Rightarrow> bool" where
  "request_ok r \<longleftrightarrow> 0 < prompt_len r \<and> 0 < output_len r \<and> prefix_id r = None"

definition seq_ok :: "('p, 'g) env \<Rightarrow> ('p, 'g) sim \<Rightarrow> int \<Rightarrow> seq_state \<Rightarrow> bool" where
  "seq_ok e s k st \<longleftrightarrow> sq_rid st = k \<and> sq_scratch st = [] \<and> 0 < sq_length st \<and> sq_length st \<le> sq_total_len st
     \<and> sq_total_blocks st = ceil_div (sq_total_len st) (block_tokens e)
     \<and> (\<exists>t. map_of (tables (pool s)) k = Some t \<and> int (length t) = ceil_div (sq_length st) (block_tokens e))"

definition core_inv :: "(holdings \<Rightarrow> 'p kv \<Rightarrow> bool) \<Rightarrow> ('p, 'g) env \<Rightarrow> ('p, 'g) sim \<Rightarrow> bool" where
  "core_inv Inv e s \<longleftrightarrow> Inv {#} (pool s) \<and> dict_ok (active s)
     \<and> dom (map_of (tables (pool s))) = dom (map_of (active s))
     \<and> (\<forall>k st. map_of (active s) k = Some st \<longrightarrow> seq_ok e s k st)
     \<and> dsum (owed (block_tokens e)) (active s) \<le> m_free (methods e) (pool s)"

text \<open>What the decode phase leaves alone.\<close>

definition same_queue :: "('p, 'g) sim \<Rightarrow> ('p, 'g) sim \<Rightarrow> bool" where
  "same_queue s s' \<longleftrightarrow> pending s' = pending s \<and> waiting s' = waiting s \<and> dropped s' = dropped s
     \<and> prefix_cache s' = prefix_cache s \<and> num_blocks (pool s') = num_blocks (pool s)
     \<and> preemptions s' = preemptions s \<and> frag_failures s' = frag_failures s"

lemma same_queue_refl [simp]: "same_queue s s"
  by (simp add: same_queue_def)

lemma same_queue_trans: "same_queue s s' \<Longrightarrow> same_queue s' s'' \<Longrightarrow> same_queue s s''"
  by (simp add: same_queue_def)

context kv_contract
begin

lemma core_invD:
  assumes "core_inv Inv e s"
  shows "Inv {#} (pool s)" "dict_ok (active s)" "dom (map_of (tables (pool s))) = dom (map_of (active s))"
    "map_of (active s) k = Some st \<Longrightarrow> seq_ok e s k st"
    "dsum (owed (block_tokens e)) (active s) \<le> m_free (methods e) (pool s)"
  using assms by (simp_all add: core_inv_def)

lemma committed_ok:
  assumes inv: "core_inv Inv e s"
  shows "committed e s = (Inr (dsum (owed (block_tokens e)) (active s)), s)"
proof -
  have "foldS (\<lambda>(k, st) acc. bindS (on_pool (get_table (sq_rid st))) (\<lambda>t.
       ret (acc + (sq_total_blocks st - int (length t) - int (length (sq_scratch st)))))) d acc s
     = (Inr (acc + dsum (owed (block_tokens e)) d), s)" if "\<forall>(k, st) \<in> set d. seq_ok e s k st" for d acc
    using that
  proof (induction d arbitrary: acc)
    case Nil
    then show ?case by (simp add: prog_simps)
  next
    case (Cons p d)
    obtain k st where p: "p = (k, st)" by (cases p)
    with Cons.prems have "seq_ok e s k st" by simp
    then obtain t where "map_of (tables (pool s)) (sq_rid st) = Some t"
        "int (length t) = ceil_div (sq_length st) (block_tokens e)"
        "sq_scratch st = []" "sq_total_blocks st = ceil_div (sq_total_len st) (block_tokens e)"
      by (auto simp: seq_ok_def)
    then have "bindS (on_pool (get_table (sq_rid st))) (\<lambda>t.
       ret (acc + (sq_total_blocks st - int (length t) - int (length (sq_scratch st))))) s
       = (Inr (acc + owed (block_tokens e) st), s)"
      by (simp add: prog_simps get_table_def owed_def)
    with Cons p show ?case by (simp add: prog_simps add.assoc)
  qed
  moreover have "\<forall>(k, st) \<in> set (active s). seq_ok e s k st"
    using core_invD(2,4) [OF inv] by (auto simp: map_of_is_SomeI)
  ultimately show ?thesis by (simp add: committed_def prog_simps)
qed

text \<open>Admission under the gate: refused without effect, or admitted with its whole future reserved.\<close>

lemma try_admit_ok:
  assumes inv: "core_inv Inv e s" and e: "plain_oracle e" "methods e = A"
    and r: "request_ok r" and new: "rid r \<notin> dom (map_of (active s))"
  shows "let total = ceil_div (prompt_len r + output_len r) (block_tokens e) in
    if m_free A (pool s) - dsum (owed (block_tokens e)) (active s) < total
    then try_admit e (new_seq r) s = (Inr False, s)
    else \<exists>s' st. try_admit e (new_seq r) s = (Inr True, s') \<and> core_inv Inv e s' \<and> same_queue s s'
       \<and> active s' = AList.update (rid r) st (active s) \<and> st = (new_seq r)\<lparr>sq_total_blocks := total\<rparr>
       \<and> clock s' = clock s \<and> completed s' = completed s"
proof -
  note d = core_invD [OF inv]
  let ?bt = "block_tokens e"
  let ?total = "ceil_div (prompt_len r + output_len r) ?bt"
  let ?prompt = "ceil_div (prompt_len r) ?bt"
  let ?owe = "dsum (owed ?bt) (active s)"
  have bt: "0 < ?bt" using e by (simp add: plain_oracle_def)
  have sps: "scratch_per_seq e = 0" using e by (simp add: scratch_per_seq_def plain_oracle_def)
  have np: "\<not> persistent_scratch A" "admission e = ''oracle''" using e by (auto simp: plain_oracle_def)
  have le: "0 \<le> ?prompt" "?prompt \<le> ?total" "0 < ?total"
    using r bt by (auto simp: request_ok_def intro: ceil_div_nonneg ceil_div_mono ceil_div_pos)
  have gate: "admission_gate e ?total ?prompt s = (Inr (\<not> m_free A (pool s) - ?owe < ?total), s)"
    using committed_ok [OF inv] np e(2) by (simp add: admission_gate_def prog_simps)
  show ?thesis
  proof (cases "m_free A (pool s) - ?owe < ?total")
    case True
    then show ?thesis
      using r e(2) gate sps by (simp add: try_admit_def shared_prefix_def new_seq_def request_ok_def Let_def prog_simps)
  next
    case False
    have nonneg: "0 \<le> ?owe"
      using d(2,4) bt by (intro dsum_nonneg) (auto simp: seq_ok_def owed_nonneg)
    have none: "map_of (tables (pool s)) (rid r) = None" using new d(3) by (metis domIff)
    obtain res p' where adm: "m_admit A (rid r) ?prompt ?total (pool s) = (res, p')" by fastforce
    from admit_law [OF d(1) le, of "rid r"] obtain bs where
      bs: "res = Inr bs" "length bs = nat ?prompt" "tables p' = AList.update (rid r) bs (tables (pool s))"
        "num_blocks p' = num_blocks (pool s)" "m_free A p' = m_free A (pool s) - ?prompt" "Inv {#} p'"
      using adm none np(1) False nonneg le by (cases res) auto
    let ?st = "(new_seq r)\<lparr>sq_total_blocks := ?total\<rparr>"
    let ?s' = "s\<lparr>pool := p', active := AList.update (rid r) ?st (active s)\<rparr>"
    have "try_admit e (new_seq r) s = (Inr True, ?s')"
      using r e(2) gate sps False adm bs(1)
      by (simp add: try_admit_def shared_prefix_def new_seq_def request_ok_def Let_def prog_simps enter_active_def)
    moreover have "core_inv Inv e ?s'"
      unfolding core_inv_def
    proof (intro conjI allI impI)
      show "dom (map_of (tables (pool ?s'))) = dom (map_of (active ?s'))" using bs(3) d(3) by simp
      have "map_of (active s) (rid r) = None" using new by (simp add: domIff)
      then show "dsum (owed (block_tokens e)) (active ?s') \<le> m_free (methods e) (pool ?s')"
        using False bs(5) e(2) by (simp add: dsum_update_new owed_def new_seq_def)
      fix k st assume st: "map_of (active ?s') k = Some st"
      show "seq_ok e ?s' k st"
      proof (cases "k = rid r")
        case True
        with st bs(2,3) le r show ?thesis by (auto simp: seq_ok_def new_seq_def request_ok_def)
      next
        case False
        with st d(4) [of k st] bs(3) show ?thesis by (auto simp: seq_ok_def)
      qed
    qed (use bs d in auto)
    ultimately show ?thesis
      using False bs(4) by (auto simp: same_queue_def Let_def)
  qed
qed

text \<open>A decode step never fails: the block it may need is one of those owed to the sequence.\<close>

lemma plain_decode_ok:
  assumes inv: "core_inv Inv e s" and e: "plain_oracle e" "methods e = A"
    and st: "map_of (active s) k = Some st" "sq_length st < sq_total_len st"
  defines "st' \<equiv> st\<lparr>sq_length := sq_length st + 1\<rparr>"
  shows "\<exists>s'. plain_decode e k s = (Inr True, s') \<and> core_inv Inv e s' \<and> same_queue s s'
    \<and> active s' = AList.update k st' (active s) \<and> clock s' = clock s \<and> completed s' = completed s"
proof -
  note d = core_invD [OF inv]
  let ?bt = "block_tokens e"
  have bt: "0 < ?bt" and np: "\<not> persistent_scratch A" "admission e = ''oracle''"
    using e by (auto simp: plain_oracle_def)
  have ok: "seq_ok e s k st" by (rule d(4) [OF st(1)])
  then obtain t where t: "map_of (tables (pool s)) k = Some t" "int (length t) = ceil_div (sq_length st) ?bt"
    by (auto simp: seq_ok_def)
  have owed': "owed ?bt st = owed ?bt st' + (if sq_length st + 1 > ceil_div (sq_length st) ?bt * ?bt then 1 else 0)"
    using ceil_div_Suc [OF bt, of "sq_length st"] by (simp add: owed_def st'_def)
  have total: "dsum (owed ?bt) (AList.update k st' (active s)) + owed ?bt st = dsum (owed ?bt) (active s) + owed ?bt st'"
    by (rule dsum_update_old [OF d(2) st(1)])
  have nonneg: "\<forall>k v. map_of (active s) k = Some v \<longrightarrow> 0 \<le> owed ?bt v"
    using d(4) bt by (auto simp: seq_ok_def owed_nonneg)
  have other: "seq_ok e s' j v" if "map_of (AList.update k st' (active s)) j = Some v" and "j \<noteq> k"
      and "tables (pool s') = AList.update k t' (tables (pool s))" for s' t' j v
    using that d(4) [of j v] by (auto simp: seq_ok_def)
  show ?thesis
  proof (cases "sq_length st + 1 > int (length t) * ?bt")
    case False
    let ?s' = "s\<lparr>active := AList.update k st' (active s)\<rparr>"
    have "plain_decode e k s = (Inr True, ?s')"
      using st t False by (simp add: plain_decode_def prog_simps get_table_def Let_def advance_def st'_def)
    moreover have "core_inv Inv e ?s'"
      unfolding core_inv_def
    proof (intro conjI allI impI)
      show "dom (map_of (tables (pool ?s'))) = dom (map_of (active ?s'))" using d(3) st(1) by auto
      show "dsum (owed (block_tokens e)) (active ?s') \<le> m_free (methods e) (pool ?s')"
        using total owed' d(5) by (simp split: if_splits)
      fix j v assume j: "map_of (active ?s') j = Some v"
      show "seq_ok e ?s' j v"
      proof (cases "j = k")
        case True
        have "ceil_div (sq_length st + 1) ?bt = ceil_div (sq_length st) ?bt"
          using ceil_div_Suc [OF bt, of "sq_length st"] False t(2) by (simp split: if_splits)
        with True j ok t st(2) show ?thesis by (auto simp: seq_ok_def st'_def)
      next
        case False
        with j d(4) [of j v] show ?thesis by (auto simp: seq_ok_def)
      qed
    qed (use d in auto)
    ultimately show ?thesis by (auto simp: same_queue_def)
  next
    case True
    then have one: "owed ?bt st = owed ?bt st' + 1" using owed' t(2) by simp
    have "0 \<le> owed ?bt st'" using st(2) bt by (intro owed_nonneg) (simp_all add: st'_def)
    then have free: "0 < m_free A (pool s)"
      using one d(5) e(2) dsum_member_le [OF nonneg d(2) st(1)] by simp
    obtain res p' where app: "m_append A k (pool s) = (res, p')" by fastforce
    from append_law [OF d(1) t(1)] obtain b where
      b: "res = Inr b" "tables p' = AList.update k (t @ [b]) (tables (pool s))"
        "num_blocks p' = num_blocks (pool s)" "m_free A p' = m_free A (pool s) - 1" "Inv {#} p'"
      using app np(1) free by (cases res) auto
    let ?s' = "s\<lparr>active := AList.update k st' (active s), pool := p'\<rparr>"
    have "plain_decode e k s = (Inr True, ?s')"
      using st t True app b(1) np e(2)
      by (simp add: plain_decode_def prog_simps get_table_def Let_def advance_def st'_def ensure_free_def)
    moreover have "core_inv Inv e ?s'"
      unfolding core_inv_def
    proof (intro conjI allI impI)
      show "dom (map_of (tables (pool ?s'))) = dom (map_of (active ?s'))" using d(3) b(2) by simp
      show "dsum (owed (block_tokens e)) (active ?s') \<le> m_free (methods e) (pool ?s')"
        using total one d(5) b(4) e(2) by simp
      fix j v assume j: "map_of (active ?s') j = Some v"
      show "seq_ok e ?s' j v"
      proof (cases "j = k")
        case True
        have "ceil_div (sq_length st + 1) ?bt = ceil_div (sq_length st) ?bt + 1"
          using one by (simp add: owed_def st'_def)
        with True j ok t st(2) b(2) show ?thesis by (auto simp: seq_ok_def st'_def)
      next
        case False
        with j other [of j v ?s' "t @ [b]"] b(2) show ?thesis by simp
      qed
    qed (use b d in auto)
    ultimately show ?thesis using b(3) by (auto simp: same_queue_def)
  qed
qed

end

text \<open>Decoding the snapshot: every sequence gets one token, the finished ones are collected in order.\<close>

definition remaining :: "seq_state \<Rightarrow> int" where
  "remaining st = sq_total_len st - sq_length st"

definition one_more :: "seq_state \<Rightarrow> seq_state" where
  "one_more st = st\<lparr>sq_length := sq_length st + 1\<rparr>"

definition decoded :: "int list \<Rightarrow> ('p, 'g) sim \<Rightarrow> ('p, 'g) sim \<Rightarrow> bool" where
  "decoded ids s s' \<longleftrightarrow> map fst (active s') = map fst (active s)
     \<and> (\<forall>k. map_of (active s') k = (if k \<in> set ids then map_option one_more (map_of (active s) k) else map_of (active s) k))
     \<and> dsum remaining (active s') = dsum remaining (active s) - int (length ids)
     \<and> same_queue s s' \<and> clock s' = clock s \<and> completed s' = completed s"

context kv_contract
begin

lemma decode_seq_ok:
  assumes inv: "core_inv Inv e s" and e: "plain_oracle e" "methods e = A"
    and st: "map_of (active s) k = Some st" "sq_length st < sq_total_len st"
  shows "\<exists>s'. decode_seq e k fin s = (Inr (if remaining st = 1 then fin @ [k] else fin), s')
    \<and> core_inv Inv e s' \<and> decoded [k] s s'"
proof -
  obtain s' where s': "plain_decode e k s = (Inr True, s')" "core_inv Inv e s'" "same_queue s s'"
      "active s' = AList.update k (one_more st) (active s)" "clock s' = clock s" "completed s' = completed s"
    using plain_decode_ok [OF inv e st] unfolding one_more_def by blast
  have "spec e = None" using e(1) by (simp add: plain_oracle_def)
  then have "decode_seq e k fin s = (Inr (if remaining st = 1 then fin @ [k] else fin), s')"
    using s'(1,4) st by (auto simp: decode_seq_def prog_simps one_more_def remaining_def)
  moreover have "decoded [k] s s'"
  proof -
    have "dsum remaining (active s') + remaining st = dsum remaining (active s) + remaining (one_more st)"
      unfolding s'(4) by (rule dsum_update_old [OF core_invD(2) [OF inv] st(1)])
    moreover have "k \<in> set (map fst (active s))" using st(1) by (force dest: map_of_SomeD)
    ultimately show ?thesis
      using s' st by (auto simp: decoded_def update_keys remaining_def one_more_def)
  qed
  ultimately show ?thesis using s'(2) by blast
qed

lemma decode_all_ok:
  assumes "core_inv Inv e s" and e: "plain_oracle e" "methods e = A" and "distinct ids"
    and "\<forall>k \<in> set ids. \<exists>st. map_of (active s) k = Some st \<and> sq_length st < sq_total_len st"
  shows "\<exists>fin' s'. foldS (decode_seq e) ids fin s = (Inr (fin @ fin'), s') \<and> core_inv Inv e s' \<and> decoded ids s s'
    \<and> fin' = filter (\<lambda>k. map_option remaining (map_of (active s) k) = Some 1) ids"
  using assms(1,4,5)
proof (induction ids arbitrary: s fin)
  case Nil
  then show ?case by (auto simp: prog_simps decoded_def)
next
  case (Cons k ids)
  from Cons.prems obtain st where st: "map_of (active s) k = Some st" "sq_length st < sq_total_len st" by auto
  obtain s1 where s1: "decode_seq e k fin s = (Inr (if remaining st = 1 then fin @ [k] else fin), s1)"
      "core_inv Inv e s1" "decoded [k] s s1"
    using decode_seq_ok [OF Cons.prems(1) e st] by blast
  have others: "map_of (active s1) j = map_of (active s) j" if "j \<in> set ids" for j
    using s1(3) that Cons.prems(2) by (auto simp: decoded_def)
  have "\<forall>j \<in> set ids. \<exists>st. map_of (active s1) j = Some st \<and> sq_length st < sq_total_len st"
    using Cons.prems(3) others by simp
  from Cons.IH [OF s1(2) _ this] Cons.prems(2) obtain fin' s' where
    s': "foldS (decode_seq e) ids (if remaining st = 1 then fin @ [k] else fin) s1
        = (Inr ((if remaining st = 1 then fin @ [k] else fin) @ fin'), s')"
      "core_inv Inv e s'" "decoded ids s1 s'"
      "fin' = filter (\<lambda>k. map_option remaining (map_of (active s1) k) = Some 1) ids"
    by fastforce
  have "fin' = filter (\<lambda>k. map_option remaining (map_of (active s) k) = Some 1) ids"
    unfolding s'(4) using others by (intro filter_cong) auto
  moreover have "decoded (k # ids) s s'"
    using s1(3) s'(3) Cons.prems(2) by (auto simp: decoded_def intro: same_queue_trans)
  ultimately show ?case
    using s1(1) s'(1,2) st(1)
    by (intro exI [of _ "(if remaining st = 1 then [k] else []) @ fin'"] exI [of _ s']) (simp add: prog_simps)
qed

end

text \<open>Sampling only reads.\<close>

definition sampled :: "('p, 'g) sim \<Rightarrow> ('p, 'g) sim \<Rightarrow> bool" where
  "sampled s s' \<longleftrightarrow> pool s' = pool s \<and> active s' = active s \<and> same_queue s s' \<and> clock s' = clock s
     \<and> completed s' = completed s"

lemma sampled_trans: "sampled s s' \<Longrightarrow> sampled s' s'' \<Longrightarrow> sampled s s''"
  by (auto simp: sampled_def intro: same_queue_trans)

text \<open>Every running sequence has a measurement.\<close>

definition measurable :: "('p, 'g) env \<Rightarrow> ('p, 'g) sim \<Rightarrow> bool" where
  "measurable e s \<longleftrightarrow> (\<forall>k st. map_of (active s) k = Some st \<longrightarrow> sq_rid st = k \<and> 0 < sq_length st
     \<and> (\<exists>t. map_of (tables (pool s)) k = Some t \<and> ceil_div (sq_length st) (block_tokens e) \<le> int (length t)
          \<and> (\<forall>b \<in> set t. b < num_blocks (pool s))))
     \<and> 0 < block_tokens e \<and> measures e \<and> int (num_blocks (pool s)) * bursts_per_block e \<le> total_bursts (env_geom e)"

lemma measurable_sampled: "measurable e s \<Longrightarrow> sampled s s' \<Longrightarrow> measurable e s'"
  by (simp add: measurable_def sampled_def)

lemma sample_row_ok:
  assumes "j < length ids" and "ids ! j \<in> dom (map_of (active s))" and m: "measurable e s"
  shows "\<exists>s'. sample_row e ids j s = (Inr (), s') \<and> sampled s s'"
proof -
  obtain st where st: "map_of (active s) (ids ! j) = Some st" using assms(2) by auto
  obtain tab where tab: "map_of (tables (pool s)) (ids ! j) = Some tab" "0 < sq_length st"
      "ceil_div (sq_length st) (block_tokens e) \<le> int (length tab)" "\<forall>b \<in> set tab. b < num_blocks (pool s)"
    using m st unfolding measurable_def by blast
  have "int (num_blocks (pool s)) * (block_tokens e * (kv_bytes_per_token (env_shape e) div burst_bytes (env_geom e)))
      \<le> total_bursts (env_geom e)" and bt: "0 < block_tokens e" and me: "measures e"
    using m by (simp_all add: measurable_def bursts_per_block_def)
  then obtain row where row: "measure_seq (sq_rid st) (sq_length st) tab (env_am e) (env_geom e) (env_shape e) (env_timing e)
               (block_tokens e) (env_window e) (env_mode e) (env_frame_blocks e) = Inr row"
    using measure_seq_ok [OF me [unfolded measures_def] bt tab(2-)] by blast
  let ?s' = "s\<lparr>samples := samples s @ [(clock s, st, tab, row, num_live (pool s), m_free (methods e) (pool s))]\<rparr>"
  have "sample_row e ids j s = (Inr (), ?s')"
    using assms(1) st tab(1) row by (simp add: sample_row_def prog_simps get_table_def)
  moreover have "sampled s ?s'" by (simp add: sampled_def same_queue_def)
  ultimately show ?thesis by blast
qed

lemma sample_rows_ok:
  assumes "set js \<subseteq> {..<length ids}" and "set ids \<subseteq> dom (map_of (active s))" and "measurable e s"
  shows "\<exists>s'. eachS (sample_row e ids) js s = (Inr (), s') \<and> sampled s s'"
  using assms
proof (induction js arbitrary: s)
  case Nil
  then show ?case by (simp add: ret_def sampled_def)
next
  case (Cons j js)
  have "j < length ids" using Cons.prems(1) by simp
  moreover from this have "ids ! j \<in> dom (map_of (active s))" using Cons.prems(2) by (meson nth_mem subsetD)
  ultimately obtain s1 where s1: "sample_row e ids j s = (Inr (), s1)" "sampled s s1"
    using sample_row_ok Cons.prems(3) by blast
  have "\<exists>s'. eachS (sample_row e ids) js s1 = (Inr (), s') \<and> sampled s1 s'"
    by (rule Cons.IH) (use Cons.prems s1(2) measurable_sampled in \<open>auto simp: sampled_def\<close>)
  then show ?case using s1 by (auto simp: thenS_def bindS_def intro: sampled_trans)
qed

lemma take_samples_ok:
  assumes m: "measurable e s"
    and e: "choice_ok (draw_choice e)" "sample_every e \<noteq> 0" "0 \<le> sample_seqs e"
  shows "\<exists>s'. take_samples e s = (Inr (), s') \<and> sampled s s'"
proof (cases "clock s mod sample_every e = 0")
  case False
  then show ?thesis
    using e(2) by (simp add: take_samples_def bindS_def getS_def ret_def sampled_def)
next
  case True
  let ?ids = "sort (map fst (active s))"
  obtain picked g where draw: "draw_choice e (rng_metric s) (length ?ids)
      (nat (min (sample_seqs e) (int (length ?ids)))) = (picked, g)" by fastforce
  have "nat (min (sample_seqs e) (int (length ?ids))) \<le> length ?ids" by linarith
  then have "set (fst (draw_choice e (rng_metric s) (length ?ids)
      (nat (min (sample_seqs e) (int (length ?ids)))))) \<subseteq> {..<length ?ids}"
    using e(1) unfolding choice_ok_def by blast
  then have "set (sort picked) \<subseteq> {..<length ?ids}" unfolding draw by simp
  then obtain s' where s': "eachS (sample_row e ?ids) (sort picked) (s\<lparr>rng_metric := g\<rparr>) = (Inr (), s')"
      "sampled (s\<lparr>rng_metric := g\<rparr>) s'"
    using sample_rows_ok [of "sort picked" ?ids "s\<lparr>rng_metric := g\<rparr>" e] m
    by (auto simp: dom_map_of_conv_image_fst measurable_def)
  have "sampled s (s\<lparr>rng_metric := g\<rparr>)" by (simp add: sampled_def same_queue_def)
  then have "sampled s s'" using s'(2) by (rule sampled_trans)
  moreover have "draw_sample e ?ids s = (Inr picked, s\<lparr>rng_metric := g\<rparr>)"
    using draw e(3) by (simp add: draw_sample_def)
  then have "take_samples e s = (Inr (), s')"
    using True e(2) s'(1) by (simp add: take_samples_def bindS_def getS_def)
  ultimately show ?thesis by blast
qed

section \<open>Retirement\<close>

lemma same_shape_map_of:
  assumes "same_shape d d'"
  shows "map_option length (map_of d' k) = map_option length (map_of d k)"
proof -
  have "map_of (map (\<lambda>(k, t). (k, length t)) d') k = map_of (map (\<lambda>(k, t). (k, length t)) d) k"
    using assms by (simp add: same_shape_def)
  then show ?thesis by (simp add: map_of_map comp_def)
qed

lemma same_shape_dom:
  assumes "same_shape d d'"
  shows "dom (map_of d') = dom (map_of d)"
proof -
  have "map_of d' k = None \<longleftrightarrow> map_of d k = None" for k
    using same_shape_map_of [OF assms, of k] by (metis option.map_disc_iff)
  then show ?thesis by (simp add: dom_def)
qed

definition retired :: "int list \<Rightarrow> ('p, 'g) sim \<Rightarrow> ('p, 'g) sim \<Rightarrow> bool" where
  "retired ids s s' \<longleftrightarrow> (\<forall>k. map_of (active s') k = (if k \<in> set ids then None else map_of (active s) k))
     \<and> completed s' + int (length (active s')) = completed s + int (length (active s))
     \<and> dsum remaining (active s') = dsum remaining (active s) \<and> same_queue s s' \<and> clock s' = clock s"

context kv_contract
begin

lemma retire_seq_ok:
  assumes inv: "core_inv Inv e s" and e: "plain_oracle e" "methods e = A"
    and st: "map_of (active s) k = Some st" "remaining st = 0"
  shows "\<exists>s'. retire_seq e k s = (Inr (), s') \<and> core_inv Inv e s' \<and> retired [k] s s'"
proof -
  note d = core_invD [OF inv]
  have bt: "0 < block_tokens e" and np: "\<not> persistent_scratch A" using e by (auto simp: plain_oracle_def)
  have ok: "seq_ok e s k st" by (rule d(4) [OF st(1)])
  then have none: "map_of (tables (pool s)) k \<noteq> None" and scr: "sq_scratch st = []" by (auto simp: seq_ok_def)
  obtain res p' where rel: "m_release A k (pool s) = (res, p')" by fastforce
  with release_law [OF np d(1), of k] none have
    res: "res = Inr ()" and shape: "same_shape (AList.delete k (tables (pool s))) (tables p')"
    and p': "num_blocks p' = num_blocks (pool s)" "m_free A (pool s) \<le> m_free A p'" "Inv {#} p'"
    by (cases res; simp)+
  let ?s' = "s\<lparr>pool := p', active := AList.delete k (active s), completed := completed s + 1\<rparr>"
  have sum: "dsum f (active s) = dsum f (AList.delete k (active s)) + f st" for f :: "seq_state \<Rightarrow> int"
    by (rule dsum_delete [OF d(2) st(1)])
  have "retire_seq e k s = (Inr (), ?s')"
    using st(1) scr rel res e(2) by (simp add: retire_seq_def prog_simps)
  moreover have "core_inv Inv e ?s'"
    unfolding core_inv_def
  proof (intro conjI allI impI)
    show "dom (map_of (tables (pool ?s'))) = dom (map_of (active ?s'))"
      using same_shape_dom [OF shape] d(3) by simp
    have "0 \<le> owed (block_tokens e) st" using ok bt by (simp add: seq_ok_def owed_nonneg)
    then show "dsum (owed (block_tokens e)) (active ?s') \<le> m_free (methods e) (pool ?s')"
      using sum [of "owed (block_tokens e)"] d(5) p'(2) e(2) by simp
    fix j v assume j: "map_of (active ?s') j = Some v"
    then have jk: "j \<noteq> k" and v: "map_of (active s) j = Some v" by (auto split: if_splits)
    from d(4) [OF v] obtain t where t: "map_of (tables (pool s)) j = Some t"
        "int (length t) = ceil_div (sq_length v) (block_tokens e)" by (auto simp: seq_ok_def)
    from same_shape_map_of [OF shape, of j] jk t(1) obtain t' where
      "map_of (tables p') j = Some t'" "length t' = length t" by auto
    then show "seq_ok e ?s' j v" using d(4) [OF v] t(2) by (simp add: seq_ok_def)
  qed (use d p' in auto)
  moreover have "retired [k] s ?s'"
    using sum [of remaining] st(2) p'(1) length_delete [OF d(2) st(1)]
    by (auto simp: retired_def same_queue_def)
  ultimately show ?thesis by blast
qed

lemma retire_all_ok:
  assumes "core_inv Inv e s" and e: "plain_oracle e" "methods e = A" and "distinct ids"
    and "\<forall>k \<in> set ids. \<exists>st. map_of (active s) k = Some st \<and> remaining st = 0"
  shows "\<exists>s'. eachS (retire_seq e) ids s = (Inr (), s') \<and> core_inv Inv e s' \<and> retired ids s s'"
  using assms(1,4,5)
proof (induction ids arbitrary: s)
  case Nil
  then show ?case by (simp add: ret_def retired_def)
next
  case (Cons k ids)
  then obtain s1 where s1: "retire_seq e k s = (Inr (), s1)" "core_inv Inv e s1" "retired [k] s s1"
    using retire_seq_ok [OF _ e] by (metis list.set_intros(1))
  have "\<forall>j \<in> set ids. \<exists>st. map_of (active s1) j = Some st \<and> remaining st = 0"
    using Cons.prems s1(3) by (auto simp: retired_def)
  with Cons.IH [OF s1(2)] Cons.prems(2) obtain s' where
    s': "eachS (retire_seq e) ids s1 = (Inr (), s')" "core_inv Inv e s'" "retired ids s1 s'" by auto
  have "retired (k # ids) s s'"
    using s1(3) s'(3) unfolding retired_def by (auto intro: same_queue_trans)
  with s1(1) s'(1,2) show ?case by (auto simp: thenS_def bindS_def)
qed

end

end
