(* ===== verification/Sim_Run.thy ===== *)
theory Sim_Run
  imports Sim_Oracle
begin

text \<open>
  Whole runs of the serving loop under oracle admission and plain decode: the invariant of the main loop, the
  measure that bounds its iterations, and what a finished run has done with every request.
\<close>

section \<open>One decode phase\<close>

definition running :: "('p, 'g) sim \<Rightarrow> bool" where
  "running s \<longleftrightarrow> (\<forall>k st. map_of (active s) k = Some st \<longrightarrow> 0 < remaining st)"

definition decode_done :: "('p, 'g) sim \<Rightarrow> ('p, 'g) sim \<Rightarrow> bool" where
  "decode_done s s' \<longleftrightarrow> same_queue s s' \<and> running s' \<and> clock s' = clock s + 1
     \<and> dom (map_of (active s')) \<subseteq> dom (map_of (active s))
     \<and> completed s' + int (length (active s')) = completed s + int (length (active s))
     \<and> dsum remaining (active s') = dsum remaining (active s) - int (length (active s))"

lemma core_inv_cong:
  "core_inv Inv e s \<Longrightarrow> pool s' = pool s \<Longrightarrow> active s' = active s \<Longrightarrow> core_inv Inv e s'"
  by (simp add: core_inv_def seq_ok_def)

context kv_contract
begin

lemma core_inv_measurable:
  assumes inv: "core_inv Inv e s" and e: "plain_oracle e" and fit: "pool_fits Inv e"
  shows "measurable e s"
  unfolding measurable_def
proof (intro conjI allI impI)
  fix k st assume "map_of (active s) k = Some st"
  then have ok: "seq_ok e s k st" by (rule core_invD(4) [OF inv])
  then show "sq_rid st = k" "0 < sq_length st" by (simp_all add: seq_ok_def)
  from ok obtain t where t: "map_of (tables (pool s)) k = Some t" "int (length t) = ceil_div (sq_length st) (block_tokens e)"
    by (auto simp: seq_ok_def)
  then have "ceil_div (sq_length st) (block_tokens e) \<le> int (length t)" by simp
  with t(1) show "\<exists>t. map_of (tables (pool s)) k = Some t \<and> ceil_div (sq_length st) (block_tokens e) \<le> int (length t)
      \<and> (\<forall>b \<in> set t. b < num_blocks (pool s))"
    using table_range [OF core_invD(1) [OF inv]] by blast
qed (use e fit core_invD(1) [OF inv] in \<open>auto simp: plain_oracle_def pool_fits_def\<close>)

lemma decode_phase_ok:
  assumes inv: "core_inv Inv e s" and e: "plain_oracle e" "methods e = A" and run: "running s" and fit: "pool_fits Inv e"
  shows "\<exists>s'. decode_phase e s = (Inr (), s') \<and> core_inv Inv e s' \<and> decode_done s s'"
proof -
  let ?ids = "map fst (active s)"
  have each: "\<forall>k \<in> set ?ids. \<exists>st. map_of (active s) k = Some st \<and> sq_length st < sq_total_len st"
  proof
    fix k assume "k \<in> set ?ids"
    then obtain st where st: "map_of (active s) k = Some st" by (metis map_of_eq_None_iff not_None_eq set_map)
    with run have "0 < remaining st" by (simp add: running_def)
    with st show "\<exists>st. map_of (active s) k = Some st \<and> sq_length st < sq_total_len st" by (simp add: remaining_def)
  qed
  obtain fin s1 where fold: "foldS (decode_seq e) ?ids [] s = (Inr fin, s1)" and inv1: "core_inv Inv e s1"
    and dec: "decoded ?ids s s1"
    and fin: "fin = filter (\<lambda>k. map_option remaining (map_of (active s) k) = Some 1) ?ids"
    using decode_all_ok [OF inv e core_invD(2) [OF inv] each, of "[]"] by auto
  let ?s2 = "s1\<lparr>decode_steps := decode_steps s1 + 1, peak_live := max (peak_live s1) (num_live (pool s1))\<rparr>"
  have inv2: "core_inv Inv e ?s2" by (rule core_inv_cong [OF inv1]) simp_all
  obtain s3 where s3: "take_samples e ?s2 = (Inr (), s3)" "sampled ?s2 s3"
    using take_samples_ok [OF core_inv_measurable [OF inv2 e(1) fit]] e(1) unfolding plain_oracle_def by blast
  have a3: "active s3 = active s1" "pool s3 = pool s1" using s3(2) by (simp_all add: sampled_def)
  have inv3: "core_inv Inv e s3" by (rule core_inv_cong [OF inv1 a3(2,1)])
  have after: "map_of (active s1) k = map_option one_more (map_of (active s) k)" for k
  proof (cases "k \<in> set ?ids")
    case True
    then show ?thesis using dec by (simp add: decoded_def)
  next
    case False
    then have "map_of (active s) k = None" by (simp add: map_of_eq_None_iff)
    then show ?thesis using dec False by (simp add: decoded_def)
  qed
  have "\<forall>k \<in> set fin. \<exists>st. map_of (active s3) k = Some st \<and> remaining st = 0"
    unfolding a3 after fin by (auto simp: one_more_def remaining_def)
  moreover have "distinct fin" unfolding fin using core_invD(2) [OF inv] by simp
  ultimately obtain s4 where s4: "eachS (retire_seq e) fin s3 = (Inr (), s4)" "core_inv Inv e s4" "retired fin s3 s4"
    using retire_all_ok [OF inv3 e] by blast
  let ?s' = "s4\<lparr>clock := clock s4 + 1\<rparr>"
  have "m_check (methods e) (pool s4) = (Inr (), pool s4)"
    using check_law [OF core_invD(1) [OF s4(2)]] e(2) by simp
  then have check: "periodic_check e s4 = (Inr (), s4)" by (simp add: periodic_check_def prog_simps)
  have "decode_phase e s = (Inr (), ?s')"
    using fold s3(1) s4(1) check by (simp add: decode_phase_def bindS_def thenS_def getS_def modifyS_def)
  moreover have "core_inv Inv e ?s'" by (rule core_inv_cong [OF s4(2)]) simp_all
  moreover have "decode_done s ?s'"
    unfolding decode_done_def
  proof (intro conjI)
    have q: "same_queue s s1" "same_queue ?s2 s3" "same_queue s3 s4"
      using dec s3(2) s4(3) by (simp_all add: decoded_def sampled_def retired_def)
    show "same_queue s ?s'" using q by (simp add: same_queue_def)
    have left: "map_of (active s4) k = (if k \<in> set fin then None else map_option one_more (map_of (active s) k))" for k
      using s4(3) after a3 by (simp add: retired_def)
    show "running ?s'"
      unfolding running_def
    proof (intro allI impI)
      fix k st assume "map_of (active ?s') k = Some st"
      then obtain st0 where st0: "map_of (active s) k = Some st0" "st = one_more st0" "k \<notin> set fin"
        using left [of k] by (auto split: if_splits)
      then have "k \<in> set ?ids" by (force dest: map_of_SomeD)
      with st0 have "remaining st0 \<noteq> 1" unfolding fin by simp
      moreover have "0 < remaining st0" using run st0(1) by (simp add: running_def)
      ultimately show "0 < remaining st" using st0(2) by (simp add: one_more_def remaining_def)
    qed
    show "dom (map_of (active ?s')) \<subseteq> dom (map_of (active s))" using left by (auto split: if_splits)
    have "length (active s1) = length (active s)" using dec unfolding decoded_def by (metis length_map)
    then show "completed ?s' + int (length (active ?s')) = completed s + int (length (active s))"
      using dec s3(2) s4(3) by (simp add: decoded_def sampled_def retired_def)
    show "dsum remaining (active ?s') = dsum remaining (active s) - int (length (active s))"
      using dec s4(3) a3 by (simp add: decoded_def retired_def)
    show "clock ?s' = clock s + 1" using dec s3(2) s4(3) by (simp add: decoded_def sampled_def retired_def)
  qed
  ultimately show ?thesis by blast
qed

end

section \<open>The invariant and the measure of the main loop\<close>

definition footprint :: "('p, 'g) env \<Rightarrow> request \<Rightarrow> int" where
  "footprint e r = ceil_div (prompt_len r + output_len r) (block_tokens e)"

definition settled :: "(holdings \<Rightarrow> 'p kv \<Rightarrow> bool) \<Rightarrow> ('p, 'g) env \<Rightarrow> nat \<Rightarrow> request list \<Rightarrow> ('p, 'g) sim \<Rightarrow> bool" where
  "settled Inv e n gone s \<longleftrightarrow> core_inv Inv e s \<and> running s \<and> num_blocks (pool s) = n
     \<and> waiting s = [] \<and> prefix_cache s = [] \<and> preemptions s = 0 \<and> frag_failures s = 0
     \<and> dropped s = map rid (filter (\<lambda>r. footprint e r > int n) gone)
     \<and> completed s + int (length (active s)) = int (length (filter (\<lambda>r. footprint e r \<le> int n) gone))
     \<and> (\<forall>r \<in> set (pending s). request_ok r) \<and> distinct (map rid (pending s))
     \<and> dom (map_of (active s)) \<inter> rid ` set (pending s) = {}"

definition mass :: "('p, 'g) sim \<Rightarrow> int" where
  "mass s = sum_list (map (\<lambda>r. output_len r + 1) (pending s)) + dsum remaining (active s)"

definition idle_wait :: "('p, 'g) sim \<Rightarrow> int" where
  "idle_wait s = (case pending s of r # _ \<Rightarrow> if active s = [] \<and> clock s < arrival_step r then 1 else 0 | [] \<Rightarrow> 0)"

lemma mass_nonneg:
  assumes "settled Inv e n gone s"
  shows "int (length (active s)) \<le> mass s" and "0 \<le> mass s"
proof -
  have "dict_ok (active s)" using assms by (simp add: settled_def core_inv_def)
  moreover have "\<forall>k st. map_of (active s) k = Some st \<longrightarrow> 0 < remaining st"
    using assms by (simp add: settled_def running_def)
  ultimately have "\<forall>(k, st) \<in> set (active s). 0 < remaining st" by (auto simp: map_of_is_SomeI)
  moreover have "int (length d) \<le> dsum remaining d" if "\<forall>(k, st) \<in> set d. 0 < remaining st" for d :: "(int, seq_state) dict"
    using that by (induction d) force+
  ultimately have "int (length (active s)) \<le> dsum remaining (active s)" by blast
  moreover have "0 \<le> sum_list (map (\<lambda>r. output_len r + 1) (pending s))"
    using assms by (intro sum_list_nonneg) (auto simp: settled_def request_ok_def)
  ultimately show "int (length (active s)) \<le> mass s" "0 \<le> mass s" by (simp_all add: mass_def)
qed

context kv_contract
begin

text \<open>Settling the head of the queue: a drop needs an empty pool that is still too small.\<close>

lemma drop_settled:
  assumes set: "settled Inv e n gone s" and e: "plain_oracle e" "methods e = A"
    and p: "pending s = r # rest" and idle: "active s = []"
    and refused: "m_free A (pool s) - dsum (owed (block_tokens e)) (active s) < footprint e r"
  shows "settled Inv e n (gone @ [r]) (s\<lparr>dropped := dropped s @ [rid r], pending := rest\<rparr>)"
proof -
  have inv: "core_inv Inv e s" and n: "num_blocks (pool s) = n" using set by (simp_all add: settled_def)
  have "tables (pool s) = []" using core_invD(3) [OF inv] idle by simp
  then have "m_free A (pool s) = int n" using idle_law core_invD(1) [OF inv] n by blast
  then have "footprint e r > int n" using refused idle by simp
  moreover have "core_inv Inv e (s\<lparr>dropped := dropped s @ [rid r], pending := rest\<rparr>)"
    by (rule core_inv_cong [OF inv]) simp_all
  ultimately show ?thesis using set p by (auto simp: settled_def running_def)
qed

lemma admit_settled:
  assumes set: "settled Inv e n gone s" and e: "plain_oracle e" "methods e = A"
    and p: "pending s = r # rest"
    and room: "\<not> m_free A (pool s) - dsum (owed (block_tokens e)) (active s) < footprint e r"
  shows "\<exists>s'. try_admit e (new_seq r) s = (Inr True, s') \<and> clock s' = clock s \<and> pending s' = pending s
    \<and> active s' \<noteq> [] \<and> settled Inv e n (gone @ [r]) (s'\<lparr>pending := rest\<rparr>)
    \<and> mass (s'\<lparr>pending := rest\<rparr>) < mass s"
proof -
  have inv: "core_inv Inv e s" and n: "num_blocks (pool s) = n" and r: "request_ok r"
    and new: "rid r \<notin> dom (map_of (active s))"
    using set p by (auto simp: settled_def)
  have bt: "0 < block_tokens e" using e by (simp add: plain_oracle_def)
  obtain s' st where s': "try_admit e (new_seq r) s = (Inr True, s')" "core_inv Inv e s'" "same_queue s s'"
      "active s' = AList.update (rid r) st (active s)" "st = (new_seq r)\<lparr>sq_total_blocks := footprint e r\<rparr>"
      "clock s' = clock s" "completed s' = completed s"
    using try_admit_ok [OF inv e r new] room by (auto simp: footprint_def Let_def)
  have rem: "remaining st = output_len r" unfolding s'(5) by (simp add: remaining_def new_seq_def)
  have none: "map_of (active s) (rid r) = None" using new by blast
  have "0 \<le> dsum (owed (block_tokens e)) (active s)"
    using core_invD(2,4) [OF inv] bt by (intro dsum_nonneg) (auto simp: seq_ok_def owed_nonneg)
  moreover have "m_free A (pool s) \<le> int n" using free_law core_invD(1) [OF inv] n by blast
  ultimately have fits: "footprint e r \<le> int n" using room by linarith
  have q: "pending s' = pending s" "waiting s' = waiting s" "dropped s' = dropped s" "prefix_cache s' = prefix_cache s"
      "num_blocks (pool s') = num_blocks (pool s)" "preemptions s' = preemptions s" "frag_failures s' = frag_failures s"
    using s'(3) by (simp_all add: same_queue_def)
  have "settled Inv e n (gone @ [r]) (s'\<lparr>pending := rest\<rparr>)"
    unfolding settled_def
  proof (intro conjI)
    show "core_inv Inv e (s'\<lparr>pending := rest\<rparr>)" by (rule core_inv_cong [OF s'(2)]) simp_all
    show "running (s'\<lparr>pending := rest\<rparr>)"
      using set rem r by (auto simp: running_def settled_def s'(4) request_ok_def)
    show "completed (s'\<lparr>pending := rest\<rparr>) + int (length (active (s'\<lparr>pending := rest\<rparr>)))
        = int (length (filter (\<lambda>r. footprint e r \<le> int n) (gone @ [r])))"
      using set fits s'(7) none by (simp add: settled_def s'(4) length_update_new)
    show "dropped (s'\<lparr>pending := rest\<rparr>) = map rid (filter (\<lambda>r. footprint e r > int n) (gone @ [r]))"
      using set fits q by (simp add: settled_def)
    show "dom (map_of (active (s'\<lparr>pending := rest\<rparr>))) \<inter> rid ` set (pending (s'\<lparr>pending := rest\<rparr>)) = {}"
      using set p by (auto simp: settled_def s'(4))
  qed (use set p q n in \<open>auto simp: settled_def\<close>)
  moreover have "mass (s'\<lparr>pending := rest\<rparr>) < mass s"
    using none p rem by (simp add: mass_def s'(4) dsum_update_new)
  moreover have "active s' \<noteq> []" unfolding s'(4) by (simp add: update_nonempty)
  ultimately show ?thesis using s'(1,6) q(1) by blast
qed

text \<open>All the arrivals of a step.\<close>

lemma admit_arrivals_ok:
  assumes "settled Inv e n gone s" and e: "plain_oracle e" "methods e = A" and "pending s = todo"
  shows "\<exists>gone' s'. admit_arrivals e todo s = (Inr (), s') \<and> settled Inv e n gone' s' \<and> gone' @ pending s' = gone @ todo
    \<and> clock s' = clock s \<and> (s' = s \<or> mass s' < mass s)
    \<and> (active s' = [] \<longrightarrow> (case pending s' of r # _ \<Rightarrow> clock s' < arrival_step r | [] \<Rightarrow> True))"
  using assms(1,4)
proof (induction todo arbitrary: gone s)
  case Nil
  then show ?case by (auto simp: ret_def)
next
  case (Cons r rest)
  show ?case
  proof (cases "arrival_step r \<le> clock s \<and> int (length (active s)) < max_batch e")
    case False
    then have "admit_arrivals e (r # rest) s = (Inr (), s)" by (simp add: bindS_def getS_def ret_def)
    moreover have "active s = [] \<longrightarrow> clock s < arrival_step r" using False e by (auto simp: plain_oracle_def)
    ultimately show ?thesis using Cons.prems by auto
  next
    case go: True
    let ?refused = "m_free A (pool s) - dsum (owed (block_tokens e)) (active s) < footprint e r"
    show ?thesis
    proof (cases ?refused)
      case True
      have r: "request_ok r" and new: "rid r \<notin> dom (map_of (active s))" and inv: "core_inv Inv e s"
        using Cons.prems by (auto simp: settled_def)
      have no: "try_admit e (new_seq r) s = (Inr False, s)"
        using try_admit_ok [OF inv e r new] True by (simp add: footprint_def Let_def)
      show ?thesis
      proof (cases "active s = []")
        case False
        with go no have "admit_arrivals e (r # rest) s = (Inr (), s)" by (simp add: bindS_def getS_def ret_def)
        with Cons.prems False show ?thesis by auto
      next
        case idle: True
        let ?s1 = "s\<lparr>dropped := dropped s @ [rid r], pending := rest\<rparr>"
        have "settled Inv e n (gone @ [r]) ?s1" by (rule drop_settled [OF Cons.prems(1) e Cons.prems(2) idle True])
        from Cons.IH [OF this] obtain gone' s' where
          s': "admit_arrivals e rest ?s1 = (Inr (), s')" "settled Inv e n gone' s'"
            "gone' @ pending s' = (gone @ [r]) @ rest" "clock s' = clock ?s1" "s' = ?s1 \<or> mass s' < mass ?s1"
            "active s' = [] \<longrightarrow> (case pending s' of r # _ \<Rightarrow> clock s' < arrival_step r | [] \<Rightarrow> True)"
          by auto
        have "mass ?s1 < mass s" using Cons.prems(2) r by (simp add: mass_def request_ok_def)
        moreover have "admit_arrivals e (r # rest) s = (Inr (), s')"
          using go no idle s'(1) by (simp add: bindS_def thenS_def getS_def modifyS_def drop_request_def)
        ultimately show ?thesis using s' by fastforce
      qed
    next
      case room: False
      from admit_settled [OF Cons.prems(1) e Cons.prems(2) room] obtain s1 where
        s1: "try_admit e (new_seq r) s = (Inr True, s1)" "clock s1 = clock s"
          "settled Inv e n (gone @ [r]) (s1\<lparr>pending := rest\<rparr>)" "mass (s1\<lparr>pending := rest\<rparr>) < mass s" by blast
      let ?s1 = "s1\<lparr>pending := rest\<rparr>"
      from Cons.IH [OF s1(3)] obtain gone' s' where
        s': "admit_arrivals e rest ?s1 = (Inr (), s')" "settled Inv e n gone' s'"
          "gone' @ pending s' = (gone @ [r]) @ rest" "clock s' = clock ?s1" "s' = ?s1 \<or> mass s' < mass ?s1"
          "active s' = [] \<longrightarrow> (case pending s' of r # _ \<Rightarrow> clock s' < arrival_step r | [] \<Rightarrow> True)"
        by auto
      have "admit_arrivals e (r # rest) s = (Inr (), s')"
        using go s1(1) s'(1) by (simp add: bindS_def thenS_def getS_def modifyS_def)
      moreover have "mass s' < mass s" using s'(5) s1(4) by auto
      ultimately show ?thesis using s' s1(2) by fastforce
    qed
  qed
qed

text \<open>One iteration: either the loop is over, or twice the mass plus the idle bit went down.\<close>

lemma sim_step_ok:
  assumes set: "settled Inv e n gone s" and e: "plain_oracle e" "methods e = A" and fit: "pool_fits Inv e"
    and todo: "pending s \<noteq> [] \<or> active s \<noteq> []"
  shows "\<exists>more gone' s'. sim_step e s = (Inr more, s') \<and> settled Inv e n gone' s' \<and> gone' @ pending s' = gone @ pending s
    \<and> (if more then 2 * mass s' + idle_wait s' < 2 * mass s + idle_wait s else pending s' = [] \<and> active s' = [])"
proof -
  have wait: "waiting s = []" using set by (simp add: settled_def)
  obtain gone1 s1 where s1: "admit_arrivals e (pending s) s = (Inr (), s1)" "settled Inv e n gone1 s1"
      "gone1 @ pending s1 = gone @ pending s" "s1 = s \<or> mass s1 < mass s"
      "active s1 = [] \<longrightarrow> (case pending s1 of r # _ \<Rightarrow> clock s1 < arrival_step r | [] \<Rightarrow> True)"
    using admit_arrivals_ok [OF set e refl] by blast
  have admit: "admit_phase e s = (Inr (), s1)"
    using s1(1) wait by (simp add: admit_phase_def bindS_def getS_def ret_def)
  have bit: "0 \<le> idle_wait s" "idle_wait s \<le> 1" for s :: "('p, 'a) sim"
    by (simp_all add: idle_wait_def split: list.split)
  show ?thesis
  proof (cases "active s1 = []")
    case False
    obtain s2 where s2: "decode_phase e s1 = (Inr (), s2)" "core_inv Inv e s2" "decode_done s1 s2"
      using decode_phase_ok [OF _ e _ fit, of s1] s1(2) by (auto simp: settled_def)
    have "settled Inv e n gone1 s2"
      using s1(2) s2(2,3) unfolding settled_def decode_done_def same_queue_def by auto
    moreover have "mass s2 < mass s1"
      using s2(3) False by (simp add: mass_def decode_done_def same_queue_def)
    moreover have "sim_step e s = (Inr True, s2)"
      using admit s2(1) False by (simp add: sim_step_def thenS_def bindS_def getS_def ret_def)
    moreover have "pending s2 = pending s1" using s2(3) by (simp add: decode_done_def same_queue_def)
    ultimately show ?thesis
      using s1(3,4) bit(1) [of s] bit(2) [of s2] by (intro exI [of _ True] exI [of _ gone1] exI [of _ s2]) auto
  next
    case idle: True
    show ?thesis
    proof (cases "pending s1")
      case Nil
      then have "sim_step e s = (Inr False, s1)"
        using admit idle by (simp add: sim_step_def thenS_def bindS_def getS_def ret_def)
      with s1 idle Nil show ?thesis by (intro exI [of _ False] exI [of _ gone1] exI [of _ s1]) auto
    next
      case (Cons r rest)
      let ?s2 = "s1\<lparr>clock := max (clock s1 + 1) (arrival_step r)\<rparr>"
      have inv1: "core_inv Inv e s1" using s1(2) by (simp add: settled_def)
      have "core_inv Inv e ?s2" by (rule core_inv_cong [OF inv1]) simp_all
      then have "settled Inv e n gone1 ?s2" using s1(2) by (simp add: settled_def running_def)
      moreover have "sim_step e s = (Inr True, ?s2)"
        using admit idle Cons by (simp add: sim_step_def thenS_def bindS_def getS_def modifyS_def ret_def)
      moreover have "2 * mass ?s2 + idle_wait ?s2 < 2 * mass s + idle_wait s"
      proof -
        have late: "clock s1 < arrival_step r" using s1(5) idle Cons by simp
        have zero: "mass ?s2 = mass s1" "idle_wait ?s2 = 0" using Cons by (simp_all add: mass_def idle_wait_def)
        from s1(4) show ?thesis
        proof
          assume "s1 = s"
          then have "idle_wait s = 1" using idle Cons late by (simp add: idle_wait_def)
          with \<open>s1 = s\<close> zero show ?thesis by simp
        qed (use zero bit(1) [of s] in linarith)
      qed
      ultimately show ?thesis
        using s1(3) by (intro exI [of _ True] exI [of _ gone1] exI [of _ ?s2]) simp
    qed
  qed
qed

lemma sim_loop_ok:
  assumes "settled Inv e n gone s" and e: "plain_oracle e" "methods e = A" and fit: "pool_fits Inv e"
    and "2 * mass s + idle_wait s < int fuel"
  shows "\<exists>s'. sim_loop fuel e s = (Inr (Some ()), s') \<and> settled Inv e n (gone @ pending s) s'
    \<and> pending s' = [] \<and> active s' = []"
  using assms(1,5)
proof (induction fuel arbitrary: gone s)
  case 0
  moreover have "0 \<le> idle_wait s" by (simp add: idle_wait_def split: list.split)
  ultimately show ?case using mass_nonneg(2) [OF 0(1)] by linarith
next
  case (Suc fuel)
  have wait: "waiting s = []" using Suc.prems by (simp add: settled_def)
  show ?case
  proof (cases "pending s \<noteq> [] \<or> active s \<noteq> []")
    case False
    with Suc.prems wait show ?thesis by (intro exI [of _ s]) (simp add: bindS_def getS_def ret_def)
  next
    case True
    from sim_step_ok [OF Suc.prems(1) e fit True] obtain more gone' s' where
      s': "sim_step e s = (Inr more, s')" "settled Inv e n gone' s'" "gone' @ pending s' = gone @ pending s"
        "if more then 2 * mass s' + idle_wait s' < 2 * mass s + idle_wait s else pending s' = [] \<and> active s' = []"
      by blast
    have step: "sim_loop (Suc fuel) e s = (if more then sim_loop fuel e s' else (Inr (Some ()), s'))"
      using s'(1) True wait by (cases "pending s = []") (simp_all add: bindS_def getS_def ret_def)
    show ?thesis
    proof (cases more)
      case True
      then have "2 * mass s' + idle_wait s' < int fuel" using s'(4) Suc.prems(2) by simp
      from Suc.IH [OF s'(2) this] show ?thesis using step True s'(3) by auto
    next
      case False
      with s' step show ?thesis by (intro exI [of _ s']) auto
    qed
  qed
qed

end

section \<open>A whole simulation\<close>

definition loop_fuel :: "request list \<Rightarrow> nat" where
  "loop_fuel rs = nat (2 * sum_list (map (\<lambda>r. output_len r + 1) rs)) + 2"

definition checks_pass :: "('p, 'g) env \<Rightarrow> 'p kv \<Rightarrow> bool" where
  "checks_pass e p \<longleftrightarrow> kv_bytes_per_token (env_shape e) mod burst_bytes (env_geom e) = 0
     \<and> int (num_blocks p) * bursts_per_block e \<le> total_bursts (env_geom e)"

lemma pool_fits_fixed: "checks_pass e p \<Longrightarrow> pool_fits (\<lambda>H s. Inv H s \<and> num_blocks s = num_blocks p) e"
  by (simp add: pool_fits_def checks_pass_def)

text \<open>What a run of the loop on requests \<open>rs\<close> has to deliver.\<close>

definition all_served :: "('p, 'g) env \<Rightarrow> 'p kv \<Rightarrow> request list \<Rightarrow> ('p, 'g) sim \<Rightarrow> bool" where
  "all_served e p rs s' \<longleftrightarrow>
     completed s' = int (length (filter (\<lambda>r. footprint e r \<le> int (num_blocks p)) rs))
     \<and> dropped s' = map rid (filter (\<lambda>r. footprint e r > int (num_blocks p)) (sort_key (\<lambda>r. (arrival_step r, rid r)) rs))
     \<and> preemptions s' = 0 \<and> frag_failures s' = 0 \<and> active s' = [] \<and> tables (pool s') = []
     \<and> m_free (methods e) (pool s') = int (num_blocks p) \<and> num_blocks (pool s') = num_blocks p"

context kv_contract
begin

lemma simulate_oracle_fits:
  assumes p: "Inv {#} p" "tables p = []" and e: "plain_oracle e" "methods e = A" and fit: "pool_fits Inv e"
    and rs: "\<forall>r \<in> set rs. request_ok r" "distinct (map rid rs)"
    and chk: "checks_pass e p" and fuel: "loop_fuel rs \<le> fuel"
  shows "\<exists>s'. simulate fuel e (sim_init rs p g gs) = (Inr (Some ()), s') \<and> all_served e p rs s'"
proof -
  let ?s = "sim_init rs p g gs" and ?reqs = "sort_key (\<lambda>r. (arrival_step r, rid r)) rs"
  have free: "m_free A p = int (num_blocks p)" by (rule idle_law [OF p])
  have "distinct (map rid ?reqs)"
    using rs(2) by (metis mset_map mset_sort mset_eq_imp_distinct_iff)
  then have start: "settled Inv e (num_blocks p) [] ?s"
    using p free rs e by (simp add: settled_def sim_init_def core_inv_def running_def)
  have "mset (map (\<lambda>r. output_len r + 1) ?reqs) = mset (map (\<lambda>r. output_len r + 1) rs)" by simp
  then have "sum_list (map (\<lambda>r. output_len r + 1) ?reqs) = sum_list (map (\<lambda>r. output_len r + 1) rs)"
    by (metis sum_mset_sum_list)
  then have "mass ?s = sum_list (map (\<lambda>r. output_len r + 1) rs)" by (simp add: mass_def sim_init_def)
  moreover have "idle_wait ?s \<le> 1" by (simp add: idle_wait_def split: list.split)
  ultimately have "2 * mass ?s + idle_wait ?s < int fuel" using fuel unfolding loop_fuel_def by linarith
  from sim_loop_ok [OF start e fit this] obtain s' where
    s': "sim_loop fuel e ?s = (Inr (Some ()), s')" "settled Inv e (num_blocks p) ?reqs s'" "active s' = []"
    by (auto simp: sim_init_def)
  have inv: "core_inv Inv e s'" using s'(2) by (simp add: settled_def)
  then have none: "tables (pool s') = []" using core_invD(3) [OF inv] s'(3) by simp
  have "sim_checks e ?s = (Inr (), ?s)"
    using chk e(1) by (simp add: sim_checks_def checks_pass_def plain_oracle_def sim_init_def prog_simps Let_def not_less)
  moreover have "sim_finish e s' = (Inr (), s')"
    using s'(2) check_law [OF core_invD(1) [OF inv]] e(2) by (simp add: sim_finish_def settled_def prog_simps)
  ultimately have "simulate fuel e ?s = (Inr (Some ()), s')"
    using s'(1) by (simp add: simulate_def thenS_def bindS_def ret_def)
  moreover have "all_served e p rs s'"
  proof -
    have "size (filter_mset (\<lambda>r. footprint e r \<le> int (num_blocks p)) (mset ?reqs))
        = size (filter_mset (\<lambda>r. footprint e r \<le> int (num_blocks p)) (mset rs))" by simp
    then have "length (filter (\<lambda>r. footprint e r \<le> int (num_blocks p)) ?reqs)
        = length (filter (\<lambda>r. footprint e r \<le> int (num_blocks p)) rs)" by (metis mset_filter size_mset)
    moreover have "m_free A (pool s') = int (num_blocks p)"
      using idle_law [OF core_invD(1) [OF inv] none] s'(2) by (simp add: settled_def)
    ultimately show ?thesis
      using s'(2,3) none e(2) unfolding all_served_def settled_def by simp
  qed
  ultimately show ?thesis by blast
qed

end

text \<open>The pool keeps its size, so the check at the start is enough for every measurement.\<close>

lemma simulate_oracle:
  fixes p :: "'p kv" and e :: "('p, 'g) env"
  assumes A: "kv_contract A Inv" and p: "Inv {#} p" "tables p = []" and e: "plain_oracle e" "methods e = A"
    and rs: "\<forall>r \<in> set rs. request_ok r" "distinct (map rid rs)"
    and chk: "checks_pass e p" and fuel: "loop_fuel rs \<le> fuel"
  shows "\<exists>s'. simulate fuel e (sim_init rs p g gs) = (Inr (Some ()), s') \<and> all_served e p rs s'"
  using p(1)
  by (intro kv_contract.simulate_oracle_fits [OF kv_contract.fixed_pool [OF A, of "num_blocks p"] _ p(2) e
        pool_fits_fixed [OF chk] rs chk fuel]) simp

end
