(* ===== verification/Sim_Safety.thy ===== *)
theory Sim_Safety
  imports Sim_Run
begin

text \<open>
  Safety of the serving loop in every mode: oracle or vLLM admission, plain or speculative decoding with
  either adoption policy, with preemption. Every running sequence's block table has exactly the blocks its
  tokens need, whatever happens the allocator is left in a state of its contract, and the only errors a run
  can end with are the two the loop really has.
\<close>

section \<open>Configurations and the invariant\<close>

definition draws_ok :: "('p, 'g) env \<Rightarrow> bool" where
  "draws_ok e \<longleftrightarrow> choice_ok (draw_choice e) \<and> (\<forall>g n. 0 < n \<longrightarrow> int (fst (draw_integers e g n)) < n)"

definition good_env :: "('p, 'g) env \<Rightarrow> bool" where
  "good_env e \<longleftrightarrow> \<not> persistent_scratch (methods e) \<and> 0 < block_tokens e \<and> sample_every e \<noteq> 0
     \<and> 0 \<le> sample_seqs e \<and> draws_ok e \<and> measures e
     \<and> (case spec e of Some sp \<Rightarrow> 0 < sp_width sp \<and> 0 \<le> sp_depth sp | None \<Rightarrow> True)"

text \<open>A sequence in the system; \<open>fin\<close> are those that may have produced their last token.\<close>

definition seq_fine :: "int set \<Rightarrow> seq_state \<Rightarrow> bool" where
  "seq_fine fin st \<longleftrightarrow> sq_scratch st = [] \<and> sq_prefix_id st = None \<and> 0 < sq_length st
     \<and> sq_length st \<le> sq_total_len st \<and> 0 < sq_total_len st
     \<and> (sq_rid st \<in> fin \<or> sq_length st < sq_total_len st)"

definition rids_of :: "('p, 'g) sim \<Rightarrow> int list" where
  "rids_of s = map fst (active s) @ map sq_rid (waiting s) @ map rid (pending s)"

text \<open>The table of \<open>k\<close> has \<open>n\<close> blocks.\<close>

definition tab_len :: "int \<Rightarrow> int \<Rightarrow> ('p, 'g) sim \<Rightarrow> bool" where
  "tab_len k n s \<longleftrightarrow> map_option (\<lambda>t. int (length t)) (map_of (tables (pool s)) k) = Some n"

text \<open>The invariant; the sequences in \<open>X\<close> are being worked on and their tables may be off.\<close>

definition safe_inv ::
  "(holdings \<Rightarrow> 'p kv \<Rightarrow> bool) \<Rightarrow> int \<Rightarrow> holdings \<Rightarrow> int set \<Rightarrow> int set \<Rightarrow> ('p, 'g) sim \<Rightarrow> bool" where
  "safe_inv Inv bt H X fin s \<longleftrightarrow> Inv H (pool s) \<and> dom (map_of (tables (pool s))) = dom (map_of (active s))
     \<and> distinct (rids_of s) \<and> prefix_cache s = []
     \<and> (\<forall>(k, st) \<in> set (active s). sq_rid st = k \<and> seq_fine fin st \<and> (k \<in> X \<or> tab_len k (ceil_div (sq_length st) bt) s))
     \<and> (\<forall>st \<in> set (waiting s). seq_fine fin st)
     \<and> (\<forall>r \<in> set (pending s). request_ok r)"

text \<open>How a run may fail, and what is then still true.\<close>

definition may_fail :: "(holdings \<Rightarrow> 'p kv \<Rightarrow> bool) \<Rightarrow> ('p, 'g) env \<Rightarrow> py_error \<Rightarrow> ('p, 'g) sim \<Rightarrow> bool" where
  "may_fail Inv e x s \<longleftrightarrow> (\<exists>H. Inv H (pool s)) \<and> (x = KeyError \<or> x = AdmissionFailure \<and> admission e = ''oracle'')"

text \<open>The sequence \<open>k\<close> is running, in the state \<open>st\<close>, with a table of \<open>n\<close> blocks.\<close>

definition runs :: "int \<Rightarrow> seq_state \<Rightarrow> int \<Rightarrow> ('p, 'g) sim \<Rightarrow> bool" where
  "runs k st n s \<longleftrightarrow> map_of (active s) k = Some st \<and> tab_len k n s"

lemma seq_fine_mono: "seq_fine fin st \<Longrightarrow> fin \<subseteq> fin' \<Longrightarrow> seq_fine fin' st"
  by (auto simp: seq_fine_def)

lemma safe_mono:
  assumes "safe_inv Inv bt H X fin s" and sub: "X \<subseteq> X'" "fin \<subseteq> fin'"
  shows "safe_inv Inv bt H X' fin' s"
proof -
  have "\<forall>(k, st) \<in> set (active s). sq_rid st = k \<and> seq_fine fin' st \<and> (k \<in> X' \<or> tab_len k (ceil_div (sq_length st) bt) s)"
    using assms(1) seq_fine_mono [OF _ sub(2)] sub(1) by (auto simp: safe_inv_def)
  moreover have "\<forall>st \<in> set (waiting s). seq_fine fin' st"
    using assms(1) seq_fine_mono [OF _ sub(2)] by (auto simp: safe_inv_def)
  ultimately show ?thesis using assms(1) by (simp add: safe_inv_def)
qed

lemma safe_dict: "safe_inv Inv bt H X fin s \<Longrightarrow> dict_ok (active s)"
  by (simp add: safe_inv_def rids_of_def)

lemma safe_cong:
  assumes "safe_inv Inv bt H X fin s" and "pool s' = pool s" "active s' = active s" "waiting s' = waiting s"
    "pending s' = pending s" "prefix_cache s' = prefix_cache s"
  shows "safe_inv Inv bt H X fin s'"
  using assms by (simp add: safe_inv_def rids_of_def tab_len_def)

lemma safe_seq:
  "safe_inv Inv bt H X fin s \<Longrightarrow> map_of (active s) k = Some st \<Longrightarrow>
     sq_rid st = k \<and> seq_fine fin st \<and> (k \<in> X \<or> tab_len k (ceil_div (sq_length st) bt) s)"
  unfolding safe_inv_def by (auto dest!: map_of_SomeD)

text \<open>A change of the pool that keeps the shape of the tables outside \<open>X\<close>.\<close>

lemma safe_pool:
  assumes s: "safe_inv Inv bt H X fin s" and p: "Inv H' p" "dom (map_of (tables p)) = dom (map_of (tables (pool s)))"
    and len: "\<And>j. j \<notin> X \<Longrightarrow> map_option length (map_of (tables p) j) = map_option length (map_of (tables (pool s)) j)"
  shows "safe_inv Inv bt H' X fin (s\<lparr>pool := p\<rparr>)"
proof -
  have "tab_len j m (s\<lparr>pool := p\<rparr>) = tab_len j m s" if "j \<notin> X" for j m
    using len [OF that] by (cases "map_of (tables p) j"; cases "map_of (tables (pool s)) j") (simp_all add: tab_len_def)
  then have "\<forall>(k, st) \<in> set (active s). sq_rid st = k \<and> seq_fine fin st
      \<and> (k \<in> X \<or> tab_len k (ceil_div (sq_length st) bt) (s\<lparr>pool := p\<rparr>))"
    using s by (fastforce simp: safe_inv_def)
  then show ?thesis using s p by (simp add: safe_inv_def rids_of_def)
qed

lemma keys_delete: "map fst (AList.delete k d) = filter (\<lambda>j. j \<noteq> k) (map fst d)"
  by (induction d) (auto simp: AList.delete_eq)

lemma distinct_drop_key: "distinct (xs @ ys) \<Longrightarrow> distinct (filter (\<lambda>j. j \<noteq> k) xs @ ys)"
  by auto

lemma distinct_move_key: "distinct (xs @ ys @ zs) \<Longrightarrow> k \<in> set xs \<Longrightarrow> distinct (filter (\<lambda>j. j \<noteq> k) xs @ (k # ys) @ zs)"
  by auto

text \<open>Taking a sequence out of the active set and, optionally, putting it at the head of the queue.\<close>

lemma safe_remove:
  assumes s: "safe_inv Inv bt H X fin s" and k: "map_of (active s) k = Some st"
    and p: "Inv H' p" "same_shape (AList.delete k (tables (pool s))) (tables p)"
    and s': "pool s' = p" "active s' = AList.delete k (active s)" "pending s' = pending s" "prefix_cache s' = prefix_cache s"
    and w: "waiting s' = waiting s \<or> (\<exists>st'. waiting s' = st' # waiting s \<and> sq_rid st' = k \<and> seq_fine fin st')"
  shows "safe_inv Inv bt H' (X - {k}) fin s'"
  unfolding safe_inv_def
proof (intro conjI)
  have km: "k \<in> set (map fst (active s))" using map_of_SomeD [OF k] by force
  have d: "distinct (map fst (active s) @ map sq_rid (waiting s) @ map rid (pending s))"
    using s by (simp add: safe_inv_def rids_of_def)
  have "distinct (filter (\<lambda>j. j \<noteq> k) (map fst (active s)) @ map sq_rid (waiting s') @ map rid (pending s))"
    using w
  proof
    assume "waiting s' = waiting s"
    then show ?thesis using distinct_drop_key [OF d, of k] by (simp only:)
  next
    assume "\<exists>st'. waiting s' = st' # waiting s \<and> sq_rid st' = k \<and> seq_fine fin st'"
    then obtain st' where "waiting s' = st' # waiting s" "sq_rid st' = k" by blast
    then show ?thesis using distinct_move_key [OF d km] by (simp only: list.map)
  qed
  then show "distinct (rids_of s')" by (simp only: rids_of_def s' keys_delete)
  show "dom (map_of (tables (pool s'))) = dom (map_of (active s'))"
    using same_shape_dom [OF p(2)] s unfolding s' by (auto simp: safe_inv_def)
  have "tab_len j m s' = tab_len j m s" if "j \<noteq> k" for j m
    using same_shape_map_of [OF p(2), of j] that unfolding tab_len_def s'
    by (cases "map_of (tables p) j"; cases "map_of (tables (pool s)) j") simp_all
  then show "\<forall>(j, v) \<in> set (active s'). sq_rid v = j \<and> seq_fine fin v \<and> (j \<in> X - {k} \<or> tab_len j (ceil_div (sq_length v) bt) s')"
    using s unfolding s'(2) safe_inv_def by (fastforce simp: AList.delete_eq)
  show "\<forall>v \<in> set (waiting s'). seq_fine fin v" using s w by (auto simp: safe_inv_def)
qed (use s p s' in \<open>auto simp: safe_inv_def\<close>)

text \<open>Rewriting the state of one running sequence.\<close>

lemma safe_update:
  assumes s: "safe_inv Inv bt H X fin s" and k: "map_of (active s) k = Some st" and st': "sq_rid st' = k" "seq_fine fin st'"
    and x: "k \<in> X' \<or> tab_len k (ceil_div (sq_length st') bt) s" and sub: "X - {k} \<subseteq> X'"
  shows "safe_inv Inv bt H X' fin (s\<lparr>active := AList.update k st' (active s)\<rparr>)"
proof -
  have km: "k \<in> fst ` set (active s)" using map_of_SomeD [OF k] by force
  then have keys: "map fst (AList.update k st' (active s)) = map fst (active s)" by (simp add: update_keys)
  have "\<forall>(j, v) \<in> set (AList.update k st' (active s)). sq_rid v = j \<and> seq_fine fin v
      \<and> (j \<in> X' \<or> tab_len j (ceil_div (sq_length v) bt) s)"
    unfolding update_present [OF safe_dict [OF s] k]
  proof clarify
    fix j v assume "(j, v) \<in> set (map (\<lambda>(k', x). (k', if k' = k then st' else x)) (active s))"
    then obtain v0 where v0: "(j, v0) \<in> set (active s)" "v = (if j = k then st' else v0)" by auto
    then have "sq_rid v0 = j \<and> seq_fine fin v0 \<and> (j \<in> X \<or> tab_len j (ceil_div (sq_length v0) bt) s)"
      using s by (auto simp: safe_inv_def)
    with v0(2) st' x sub show "sq_rid v = j \<and> seq_fine fin v \<and> (j \<in> X' \<or> tab_len j (ceil_div (sq_length v) bt) s)"
      by auto
  qed
  moreover have "dom (map_of (AList.update k st' (active s))) = dom (map_of (active s))" using k by auto
  ultimately show ?thesis using s by (simp add: safe_inv_def rids_of_def keys tab_len_def)
qed

section \<open>Preemption and growth\<close>

definition enough :: "('p, 'g) env \<Rightarrow> int \<Rightarrow> ('p, 'g) sim \<Rightarrow> bool" where
  "enough e n s \<longleftrightarrow> admission e = ''oracle'' \<or> n \<le> m_free (methods e) (pool s)"

text \<open>The sequence \<open>k\<close> in the middle of its decode step, with a table of \<open>n\<close> blocks.\<close>

definition midway ::
  "(holdings \<Rightarrow> 'p kv \<Rightarrow> bool) \<Rightarrow> int \<Rightarrow> holdings \<Rightarrow> int set \<Rightarrow> int \<Rightarrow> seq_state \<Rightarrow> int \<Rightarrow> ('p, 'g) sim \<Rightarrow> bool" where
  "midway Inv bt H fin k st n s \<longleftrightarrow> safe_inv Inv bt H {k} fin s \<and> runs k st n s"

lemma midway_cong:
  assumes "midway Inv bt H fin k st n s" and "pool s' = pool s" "active s' = active s" "waiting s' = waiting s"
    "pending s' = pending s" "prefix_cache s' = prefix_cache s"
  shows "midway Inv bt H fin k st n s'"
  using assms safe_cong [of Inv bt H "{k}" fin s s'] by (simp add: midway_def runs_def tab_len_def)

lemma may_failI: "Inv H (pool s) \<Longrightarrow> x = KeyError \<or> x = AdmissionFailure \<and> admission e = ''oracle'' \<Longrightarrow> may_fail Inv e x s"
  by (auto simp: may_fail_def)

lemma safe_Inv: "safe_inv Inv bt H X fin s \<Longrightarrow> Inv H (pool s)"
  by (simp add: safe_inv_def)

context kv_contract
begin

lemma preempt_ok:
  assumes np: "\<not> persistent_scratch A" and e: "methods e = A"
    and s: "safe_inv Inv bt H X fin s" and v: "map_of (active s) v = Some sv"
  shows "\<exists>s'. preempt e v s = (Inr (), s') \<and> safe_inv Inv bt H (X - {v}) fin s' \<and> active s' = AList.delete v (active s)
    \<and> same_shape (AList.delete v (tables (pool s))) (tables (pool s'))"
proof -
  have sv: "sq_rid sv = v" "seq_fine fin sv" using safe_seq [OF s v] by simp_all
  have inv: "Inv H (pool s)" by (rule safe_Inv [OF s])
  have "map_of (tables (pool s)) v \<noteq> None" using s v by (auto simp: safe_inv_def)
  moreover obtain res p' where rel: "m_release A v (pool s) = (res, p')" by fastforce
  ultimately have res: "res = Inr ()" and shape: "same_shape (AList.delete v (tables (pool s))) (tables p')"
    and p': "Inv H p'"
    using release_law [OF np inv, of v] by (cases res; simp)+
  let ?sv = "sv\<lparr>sq_scratch := [], sq_preempts := sq_preempts sv + 1\<rparr>"
  let ?s' = "s\<lparr>pool := p', active := AList.delete v (active s), preemptions := preemptions s + 1,
     waiting := ?sv # waiting s\<rparr>"
  have "preempt e v s = (Inr (), ?s')"
    using v sv(2) rel res e by (simp add: preempt_def prog_simps seq_fine_def)
  moreover have "safe_inv Inv bt H (X - {v}) fin ?s'"
  proof (rule safe_remove [OF s v p' shape])
    show "waiting ?s' = waiting s \<or> (\<exists>st'. waiting ?s' = st' # waiting s \<and> sq_rid st' = v \<and> seq_fine fin st')"
      using sv by (auto simp: seq_fine_def)
  qed simp_all
  ultimately show ?thesis using shape by simp
qed

lemma preempt_missing: "map_of (active s) v = None \<Longrightarrow> preempt e v s = (Inl KeyError, s)"
  by (simp add: preempt_def prog_simps)

lemma preempt_self:
  assumes "\<not> persistent_scratch A" and "methods e = A"
  shows "triple (safe_inv Inv bt H {k} fin) (preempt e k) (\<lambda>_. safe_inv Inv bt H {} fin) (may_fail Inv e)"
proof (rule tripleI)
  fix s x s' assume s: "safe_inv Inv bt H {k} fin s" and fail: "preempt e k s = (Inl x, s')"
  then have "map_of (active s) k = None" using preempt_ok [OF assms s, of k] by (cases "map_of (active s) k") auto
  with fail have "x = KeyError" "s' = s" using preempt_missing [of s k e] by simp_all
  with safe_Inv [OF s] show "may_fail Inv e x s'" by (auto simp: may_fail_def)
next
  fix s u s' assume s: "safe_inv Inv bt H {k} fin s" and ok: "preempt e k s = (Inr u, s')"
  then obtain sv where "map_of (active s) k = Some sv" using preempt_missing [of s k e] by (cases "map_of (active s) k") auto
  with preempt_ok [OF assms s] ok show "safe_inv Inv bt H {} fin s'" by fastforce
qed

lemma preempt_other:
  assumes "\<not> persistent_scratch A" and "methods e = A" and "v \<noteq> k"
  shows "triple (midway Inv bt H fin k st n) (preempt e v) (\<lambda>_. midway Inv bt H fin k st n) (may_fail Inv e)"
proof (rule tripleI)
  fix s x s' assume "midway Inv bt H fin k st n s" and fail: "preempt e v s = (Inl x, s')"
  then have s: "safe_inv Inv bt H {k} fin s" by (simp add: midway_def)
  then have "map_of (active s) v = None" using preempt_ok [OF assms(1,2) s, of v] fail by (cases "map_of (active s) v") auto
  with fail have "x = KeyError" "s' = s" using preempt_missing [of s v e] by simp_all
  with safe_Inv [OF s] show "may_fail Inv e x s'" by (auto simp: may_fail_def)
next
  fix s u s' assume m: "midway Inv bt H fin k st n s" and ok: "preempt e v s = (Inr u, s')"
  then have s: "safe_inv Inv bt H {k} fin s" by (simp add: midway_def)
  obtain sv where v: "map_of (active s) v = Some sv"
    using ok preempt_missing [of s v e] by (cases "map_of (active s) v") auto
  have s': "safe_inv Inv bt H ({k} - {v}) fin s'" "active s' = AList.delete v (active s)"
      "same_shape (AList.delete v (tables (pool s))) (tables (pool s'))"
    using preempt_ok [OF assms(1,2) s v] ok by auto
  have "tab_len k n s'"
    using m same_shape_map_of [OF s'(3), of k] assms(3) unfolding midway_def runs_def tab_len_def
    by (cases "map_of (tables (pool s')) k"; cases "map_of (tables (pool s)) k") simp_all
  moreover have "safe_inv Inv bt H {k} fin s'" by (rule safe_mono [OF s'(1)]) auto
  ultimately show "midway Inv bt H fin k st n s'" using m s'(2) assms(3) by (simp add: midway_def runs_def)
qed

lemma make_room_triple:
  assumes "\<not> persistent_scratch A" and "methods e = A"
  shows "k \<notin> set vs \<Longrightarrow> triple (midway Inv bt H fin k st m) (make_room e k n vs)
    (\<lambda>ok s. if ok then midway Inv bt H fin k st m s \<and> n \<le> m_free A (pool s) else safe_inv Inv bt H {} fin s) (may_fail Inv e)"
proof (induction vs)
  case Nil
  have self: "triple (safe_inv Inv bt H {k} fin) (thenS (preempt e k) (ret False))
    (\<lambda>ok s. if ok then midway Inv bt H fin k st m s \<and> n \<le> m_free A (pool s) else safe_inv Inv bt H {} fin s) (may_fail Inv e)"
    by (rule triple_then [OF preempt_self [OF assms]]) (simp add: triple_def ret_def)
  have "case make_room e k n [] s of (Inl x, s') \<Rightarrow> may_fail Inv e x s'
      | (Inr ok, s') \<Rightarrow> (if ok then midway Inv bt H fin k st m s' \<and> n \<le> m_free A (pool s') else safe_inv Inv bt H {} fin s')"
    if s: "midway Inv bt H fin k st m s" for s
  proof (cases "m_free A (pool s) < n")
    case True
    have "safe_inv Inv bt H {k} fin (s\<lparr>self_preemptions := self_preemptions s + 1\<rparr>)"
      by (rule safe_cong [of _ _ _ _ _ s]) (use s in \<open>simp_all add: midway_def\<close>)
    with self True assms(2) show ?thesis
      by (simp add: triple_def free_blocks_now_def bindS_def getS_def thenS_def modifyS_def)
  qed (use s assms(2) in \<open>simp add: free_blocks_now_def bindS_def getS_def ret_def\<close>)
  then show ?case by (simp add: triple_def)
next
  case (Cons v vs)
  have "v \<noteq> k" "k \<notin> set vs" using Cons.prems by auto
  then have next_one: "triple (midway Inv bt H fin k st m) (thenS (preempt e v) (make_room e k n vs))
    (\<lambda>ok s. if ok then midway Inv bt H fin k st m s \<and> n \<le> m_free A (pool s) else safe_inv Inv bt H {} fin s) (may_fail Inv e)"
    using triple_then [OF preempt_other [OF assms] Cons.IH] by blast
  have "case make_room e k n (v # vs) s of (Inl x, s') \<Rightarrow> may_fail Inv e x s'
      | (Inr ok, s') \<Rightarrow> (if ok then midway Inv bt H fin k st m s' \<and> n \<le> m_free A (pool s') else safe_inv Inv bt H {} fin s')"
    if s: "midway Inv bt H fin k st m s" for s
    using next_one s assms(2)
    by (cases "m_free A (pool s) < n") (simp_all add: triple_def free_blocks_now_def bindS_def getS_def ret_def)
  then show ?case by (simp add: triple_def)
qed

lemma ensure_free_triple:
  assumes "\<not> persistent_scratch A" and "methods e = A"
  shows "triple (midway Inv bt H fin k st m) (ensure_free e k n)
    (\<lambda>ok s. if ok then midway Inv bt H fin k st m s \<and> enough e n s else safe_inv Inv bt H {} fin s) (may_fail Inv e)"
proof -
  have "case ensure_free e k n s of (Inl x, s') \<Rightarrow> may_fail Inv e x s'
      | (Inr ok, s') \<Rightarrow> (if ok then midway Inv bt H fin k st m s' \<and> enough e n s' else safe_inv Inv bt H {} fin s')"
    if s: "midway Inv bt H fin k st m s" for s
  proof (cases "admission e = ''oracle'' \<or> m_free A (pool s) \<ge> n")
    case True
    then show ?thesis
      using s assms(2) by (auto simp: ensure_free_def free_blocks_now_def bindS_def getS_def ret_def enough_def)
  next
    case False
    let ?vs = "rev (filter (\<lambda>r. r \<noteq> k) (map fst (active s)))"
    have eq: "ensure_free e k n s = make_room e k n ?vs s"
      using False assms(2) by (simp add: ensure_free_def free_blocks_now_def bindS_def getS_def)
    have "k \<notin> set ?vs" by simp
    then have "triple (midway Inv bt H fin k st m) (make_room e k n ?vs)
      (\<lambda>ok s. if ok then midway Inv bt H fin k st m s \<and> enough e n s else safe_inv Inv bt H {} fin s) (may_fail Inv e)"
      by (rule triple_weaken [OF make_room_triple [OF assms]]) (auto simp: enough_def assms(2) split: if_splits)
    then show ?thesis using s eq by (simp add: triple_def)
  qed
  then show ?thesis by (simp add: triple_def)
qed

text \<open>Appending blocks to a running sequence.\<close>

lemma append_triple:
  assumes "\<not> persistent_scratch A" and "methods e = A" and "0 < n"
  shows "triple (\<lambda>s. midway Inv bt H fin k st m s \<and> enough e n s) (on_pool (m_append (methods e) k))
    (\<lambda>_ s. midway Inv bt H fin k st (m + 1) s \<and> enough e (n - 1) s) (may_fail Inv e)"
proof -
  have "case on_pool (m_append (methods e) k) s of (Inl x, s') \<Rightarrow> may_fail Inv e x s'
      | (Inr ok, s') \<Rightarrow> midway Inv bt H fin k st (m + 1) s' \<and> enough e (n - 1) s'"
    if s: "midway Inv bt H fin k st m s" "enough e n s" for s
  proof -
    have safe: "safe_inv Inv bt H {k} fin s" using s by (simp add: midway_def)
    have inv: "Inv H (pool s)" by (rule safe_Inv [OF safe])
    obtain t where t: "map_of (tables (pool s)) k = Some t" "int (length t) = m"
      using s(1) unfolding midway_def runs_def tab_len_def by auto
    obtain res p' where app: "m_append A k (pool s) = (res, p')" by fastforce
    show ?thesis
    proof (cases res)
      case (Inl x)
      with append_law [OF inv t(1)] app assms(1) have "x = AdmissionFailure" "p' = pool s" "m_free A (pool s) = 0"
        by simp_all
      moreover from this have "admission e = ''oracle''" using s(2) assms(2,3) by (simp add: enough_def)
      ultimately show ?thesis
        using Inl app assms(2) inv by (auto simp: on_pool_def intro: may_failI)
    next
      case (Inr b)
      with append_law [OF inv t(1)] app have p': "Inv H p'" "tables p' = AList.update k (t @ [b]) (tables (pool s))"
          "m_free A p' = m_free A (pool s) - 1" by simp_all
      have "safe_inv Inv bt H {k} fin (s\<lparr>pool := p'\<rparr>)"
        by (rule safe_pool [OF safe p'(1)]) (use t in \<open>auto simp: p'(2)\<close>)
      moreover have "runs k st (m + 1) (s\<lparr>pool := p'\<rparr>)"
        using s(1) t(2) by (simp add: midway_def runs_def tab_len_def p'(2))
      ultimately show ?thesis
        using Inr app assms(2) s(2) p'(3) by (auto simp: on_pool_def midway_def enough_def)
    qed
  qed
  then show ?thesis by (simp add: triple_def)
qed

lemma append_blocks_triple:
  assumes "\<not> persistent_scratch A" and "methods e = A" and n: "0 \<le> n"
  shows "triple (\<lambda>s. midway Inv bt H fin k st m s \<and> enough e n s) (append_blocks e k n)
    (\<lambda>_. midway Inv bt H fin k st (m + n)) (may_fail Inv e)"
proof -
  have "triple (\<lambda>s. midway Inv bt H fin k st m s \<and> enough e (int i) s) (repeatN i (on_pool (m_append (methods e) k)))
    (\<lambda>_. midway Inv bt H fin k st (m + int i)) (may_fail Inv e)" for i m
  proof (induction i arbitrary: m)
    case 0
    then show ?case by (simp add: triple_def ret_def)
  next
    case (Suc i)
    have "triple (\<lambda>s. midway Inv bt H fin k st m s \<and> enough e (int (Suc i)) s) (on_pool (m_append (methods e) k))
      (\<lambda>_ s. midway Inv bt H fin k st (m + 1) s \<and> enough e (int i) s) (may_fail Inv e)"
      using append_triple [OF assms(1,2), of "int (Suc i)"] by simp
    then show ?case
      unfolding repeatN.simps
      by (rule triple_bind) (rule triple_bind [OF Suc], rule triple_ret, simp add: add.commute add.left_commute)
  qed
  from this [of m "nat n"] show ?thesis
    unfolding append_blocks_def repeatS_def using n by (intro triple_bind) (auto simp: triple_def ret_def)
qed

end

section \<open>Plain decoding\<close>

text \<open>After one turn of the decode loop the sequence \<open>k\<close> is still running, now perhaps complete, or it was
  preempted before it advanced.\<close>

definition took_turn :: "(holdings \<Rightarrow> 'p kv \<Rightarrow> bool) \<Rightarrow> int \<Rightarrow> int \<Rightarrow> int set \<Rightarrow> ('p, 'g) sim \<Rightarrow> bool" where
  "took_turn Inv bt k fin s \<longleftrightarrow> safe_inv Inv bt {#} {} fin s
     \<or> safe_inv Inv bt {#} {} (insert k fin) s \<and> k \<in> dom (map_of (active s))"

lemma thenS_unit: "thenS m (ret ()) = m"
  by (auto simp: thenS_def bindS_def ret_def fun_eq_iff split: prod.splits sum.splits)

lemma triple_pure: "(c \<Longrightarrow> triple P m Q E) \<Longrightarrow> triple (\<lambda>s. c \<and> P s) m Q E"
  by (auto simp: triple_def)

lemma dget_midway:
  "triple (midway Inv bt H fin k st n) (dget k active) (\<lambda>v s. v = st \<and> midway Inv bt H fin k st n s) E"
  by (auto simp: triple_def dget_def midway_def runs_def)

lemma table_midway:
  "triple (midway Inv bt H fin k st n) (on_pool (get_table k)) (\<lambda>t s. int (length t) = n \<and> midway Inv bt H fin k st n s) E"
proof -
  have "\<exists>t. map_of (tables (pool s)) k = Some t \<and> int (length t) = n" if "midway Inv bt H fin k st n s" for s :: "('a, 'b) sim"
    using that by (auto simp: midway_def runs_def tab_len_def)
  then show ?thesis by (fastforce simp: triple_def on_pool_def get_table_def dget_def)
qed

lemma modify_midway:
  assumes "\<And>s. pool (f s) = pool s" "\<And>s. active (f s) = active s" "\<And>s. waiting (f s) = waiting s"
    "\<And>s. pending (f s) = pending s" "\<And>s. prefix_cache (f s) = prefix_cache s"
  shows "triple (midway Inv bt H fin k st n) (modifyS f) (\<lambda>_. midway Inv bt H fin k st n) E"
  using assms by (auto simp: triple_def modifyS_def intro: midway_cong)

lemma add_copied_midway:
  "triple (midway Inv bt H fin k st n) (add_copied c) (\<lambda>_. midway Inv bt H fin k st n) E"
  unfolding add_copied_def by (rule modify_midway) simp_all

lemma midwayI:
  assumes "safe_inv Inv bt H {} fin s" and "map_of (active s) k = Some st"
  shows "midway Inv bt H fin k st (ceil_div (sq_length st) bt) s"
  using assms safe_seq [OF assms] safe_mono [OF assms(1), of "{k}" fin] by (simp add: midway_def runs_def)

lemma midway_done:
  assumes "midway Inv bt {#} (insert k fin) k st (ceil_div (sq_length st) bt) s"
  shows "took_turn Inv bt k fin s"
proof -
  have s: "safe_inv Inv bt {#} {k} (insert k fin) s" and k: "map_of (active s) k = Some st"
      "tab_len k (ceil_div (sq_length st) bt) s"
    using assms by (simp_all add: midway_def runs_def)
  have "v = st" if "(k, v) \<in> set (active s)" for v
    using map_of_is_SomeI [OF safe_dict [OF s] that] k(1) by simp
  then have "safe_inv Inv bt {#} {} (insert k fin) s" using s k(2) by (fastforce simp: safe_inv_def)
  then show ?thesis using k(1) by (auto simp: took_turn_def)
qed

lemma midway_done_len:
  "midway Inv bt {#} (insert k fin) k st n s \<Longrightarrow> n = ceil_div (sq_length st) bt \<Longrightarrow> took_turn Inv bt k fin s"
  using midway_done by blast

lemma advance_run:
  assumes s: "midway Inv bt H fin k st n s" and adv: "0 \<le> adv" "sq_length st + adv \<le> sq_total_len st"
  defines "st' \<equiv> st\<lparr>sq_length := sq_length st + adv\<rparr>"
  shows "\<exists>s'. advance k adv s = (Inr (), s') \<and> midway Inv bt H (insert k fin) k st' n s' \<and> pool s' = pool s"
proof -
  have safe: "safe_inv Inv bt H {k} (insert k fin) s"
    by (rule safe_mono [where X = "{k}" and fin = fin]) (use s in \<open>simp_all add: midway_def subset_insertI\<close>)
  have st: "map_of (active s) k = Some st" using s by (simp add: midway_def runs_def)
  have fine: "sq_rid st = k \<and> seq_fine (insert k fin) st" using safe_seq [OF safe st] by simp
  let ?s' = "s\<lparr>active := AList.update k st' (active s)\<rparr>"
  have "safe_inv Inv bt H {k} (insert k fin) ?s'"
  proof (rule safe_update [OF safe st])
    show "sq_rid st' = k" using fine by (simp add: st'_def)
    show "seq_fine (insert k fin) st'" using fine adv by (simp add: seq_fine_def st'_def)
  qed simp_all
  moreover have "advance k adv s = (Inr (), ?s')"
    using st by (simp add: advance_def update_seq_def dget_def bindS_def modifyS_def st'_def)
  ultimately show ?thesis using s by (intro exI [of _ ?s']) (simp add: midway_def runs_def tab_len_def)
qed

lemma advance_triple:
  assumes "0 \<le> adv" and "sq_length st + adv \<le> sq_total_len st"
  shows "triple (midway Inv bt H fin k st n) (advance k adv)
    (\<lambda>_. midway Inv bt H (insert k fin) k (st\<lparr>sq_length := sq_length st + adv\<rparr>) n) E"
  unfolding triple_def using advance_run [OF _ assms] by fastforce

lemma advance_enough:
  assumes "0 \<le> adv" and "sq_length st + adv \<le> sq_total_len st"
  shows "triple (\<lambda>s. midway Inv bt H fin k st n s \<and> enough e m s) (advance k adv)
    (\<lambda>_ s. midway Inv bt H (insert k fin) k (st\<lparr>sq_length := sq_length st + adv\<rparr>) n s \<and> enough e m s) E"
  unfolding triple_def enough_def using advance_run [OF _ assms] by fastforce

context kv_contract
begin

text \<open>Making room for one more token, and storing it.\<close>

lemma one_token_triple:
  fixes e :: "('p, 'b) env"
  assumes np: "\<not> persistent_scratch A" and e: "methods e = A" and bt: "0 < bt"
    and len: "sq_length st < sq_total_len st"
    and n: "n = ceil_div (sq_length st) bt" and need: "need \<longleftrightarrow> sq_length st + 1 > n * bt"
  shows "triple (midway Inv bt {#} fin k st n)
     (bindS (if need then ensure_free e k 1 else ret True) (\<lambda>ok.
      if \<not> ok then ret x
      else thenS (advance k 1) (thenS (if need then bindS (on_pool (m_append (methods e) k)) (\<lambda>_. ret ()) else ret ()) (ret y))))
     (\<lambda>v s. if v = y then took_turn Inv bt k fin s else safe_inv Inv bt {#} {} fin s) (may_fail Inv e)"
proof -
  let ?Q = "\<lambda>v s. if v = y then took_turn Inv bt k fin s else safe_inv Inv bt {#} {} fin s"
  let ?st = "st\<lparr>sq_length := sq_length st + 1\<rparr>"
  have grown: "ceil_div (sq_length ?st) bt = n + (if need then 1 else 0)"
    using ceil_div_Suc [OF bt, of "sq_length st"] n need by simp
  have over: "took_turn Inv bt k fin s" if "midway Inv bt {#} (insert k fin) k ?st (n + (if need then 1 else 0)) s" for s :: "('p, 'b) sim"
    using that grown by (intro midway_done [of _ _ _ _ ?st]) simp
  show ?thesis
  proof (cases need)
    case False
    have "triple (midway Inv bt {#} fin k st n) (thenS (advance k 1) (thenS (ret ()) (ret y)))
      ?Q (may_fail Inv e)"
    proof (rule triple_then [OF advance_triple [of 1 st]])
      show "triple (midway Inv bt {#} (insert k fin) k ?st n) (thenS (ret ()) (ret y)) ?Q (may_fail Inv e)"
        using over False by (simp add: triple_def thenS_def bindS_def ret_def)
    qed (use len in simp_all)
    then show ?thesis using False by (simp add: triple_def bindS_def ret_def)
  next
    case True
    have app: "triple (\<lambda>s. midway Inv bt {#} (insert k fin) k ?st n s \<and> enough e 1 s)
        (thenS (bindS (on_pool (m_append (methods e) k)) (\<lambda>_. ret ())) (ret y)) ?Q (may_fail Inv e)"
    proof (rule triple_then [OF triple_bind [OF append_triple [OF np e]]])
      show "triple (\<lambda>s. midway Inv bt {#} (insert k fin) k ?st (n + 1) s \<and> enough e (1 - 1) s) (ret ())
        (\<lambda>_. midway Inv bt {#} (insert k fin) k ?st (n + 1)) (may_fail Inv e)" by (simp add: triple_def ret_def)
      show "triple (midway Inv bt {#} (insert k fin) k ?st (n + 1)) (ret y) ?Q (may_fail Inv e)"
        using over True by (simp add: triple_def ret_def)
    qed simp
    have "triple (midway Inv bt {#} fin k st n) (bindS (ensure_free e k 1) (\<lambda>ok.
        if \<not> ok then ret x
        else thenS (advance k 1) (thenS (bindS (on_pool (m_append (methods e) k)) (\<lambda>_. ret ())) (ret y))))
       ?Q (may_fail Inv e)"
    proof (rule triple_bind [OF ensure_free_triple [OF np e]])
      fix ok
      show "triple (\<lambda>s. if ok then midway Inv bt {#} fin k st n s \<and> enough e 1 s else safe_inv Inv bt {#} {} fin s)
        (if \<not> ok then ret x
         else thenS (advance k 1) (thenS (bindS (on_pool (m_append (methods e) k)) (\<lambda>_. ret ())) (ret y)))
        ?Q (may_fail Inv e)"
      proof (cases ok)
        case False
        then show ?thesis by (simp add: triple_def ret_def took_turn_def)
      next
        case True
        have "triple (\<lambda>s. midway Inv bt {#} fin k st n s \<and> enough e 1 s) (advance k 1)
          (\<lambda>_ s. midway Inv bt {#} (insert k fin) k ?st n s \<and> enough e 1 s) (may_fail Inv e)"
          by (rule advance_enough) (use len in simp_all)
        from triple_then [OF this app] True show ?thesis by simp
      qed
    qed
    then show ?thesis using True by simp
  qed
qed

lemma plain_decode_triple:
  assumes np: "\<not> persistent_scratch A" and e: "methods e = A" and bt: "0 < block_tokens e"
    and len: "sq_length st < sq_total_len st"
  defines "n \<equiv> ceil_div (sq_length st) (block_tokens e)"
  shows "triple (midway Inv (block_tokens e) {#} fin k st n) (plain_decode e k)
    (\<lambda>go s. if go then took_turn Inv (block_tokens e) k fin s else safe_inv Inv (block_tokens e) {#} {} fin s) (may_fail Inv e)"
  unfolding plain_decode_def Let_def
proof (rule triple_bind [OF dget_midway], rule triple_pure, rule triple_bind [OF table_midway], rule triple_pure)
  fix v t assume v: "v = st" and t: "int (length t) = n"
  show "triple (midway Inv (block_tokens e) {#} fin k st n)
     (bindS (if int (length t) * block_tokens e < sq_length v + 1 then ensure_free e k 1 else ret True) (\<lambda>ok.
      if \<not> ok then ret False
      else thenS (advance k 1)
        (thenS (if int (length t) * block_tokens e < sq_length v + 1
                then bindS (on_pool (m_append (methods e) k)) (\<lambda>_. ret ()) else ret ()) (ret True))))
     (\<lambda>go s. if go then took_turn Inv (block_tokens e) k fin s else safe_inv Inv (block_tokens e) {#} {} fin s) (may_fail Inv e)"
    by (rule one_token_triple [where x = False and y = True, OF np e bt len, unfolded eq_True]) (simp_all add: v t n_def)
qed

end

section \<open>Speculative rounds\<close>

lemma accepted_drafts_bound: "fst (accepted_drafts draw acc n k g) \<le> k + n"
proof (induction n arbitrary: k g)
  case (Suc n)
  then show ?case by (simp split: prod.split) (metis add_Suc)
qed simp

lemma draw_round_triple:
  fixes e :: "('p, 'b) env" and E :: "py_error \<Rightarrow> ('p, 'b) sim \<Rightarrow> bool"
  assumes "0 < sp_width sp" and "0 \<le> sp_depth sp" and "draws_ok e"
  shows "triple (midway Inv bt H fin k st n) (draw_round e sp)
    (\<lambda>(kk, w) s. (0 \<le> kk \<and> kk \<le> sp_depth sp \<and> int w < sp_width sp) \<and> midway Inv bt H fin k st n s) E"
proof -
  have "case draw_round e sp s of (Inl x, s') \<Rightarrow> E x s'
      | (Inr (kk, w), s') \<Rightarrow> (0 \<le> kk \<and> kk \<le> sp_depth sp \<and> int w < sp_width sp) \<and> midway Inv bt H fin k st n s'"
    if s: "midway Inv bt H fin k st n s" for s :: "('p, 'b) sim"
  proof -
    obtain j g where j: "accepted_drafts (draw_random e) (sp_accept sp) (nat (sp_depth sp)) 0 (rng_spec s) = (j, g)" by fastforce
    obtain w g' where w: "draw_integers e g (sp_width sp) = (w, g')" by fastforce
    have "j \<le> nat (sp_depth sp)" using accepted_drafts_bound [of "draw_random e" "sp_accept sp" "nat (sp_depth sp)" 0 "rng_spec s"] j by simp
    then have "int j \<le> sp_depth sp" using assms(2) by linarith
    moreover have "int w < sp_width sp" using assms(1,3) w unfolding draws_ok_def by (metis fst_conv)
    moreover have "midway Inv bt H fin k st n (s\<lparr>rng_spec := g'\<rparr>)" by (rule midway_cong [OF s]) simp_all
    ultimately show ?thesis using j w assms(1) by (simp add: draw_round_def)
  qed
  note run = this
  show ?thesis
    unfolding triple_def
  proof (intro allI impI)
    fix s :: "('p, 'b) sim"
    assume "midway Inv bt H fin k st n s"
    from run [OF this]
    show "case draw_round e sp s of (Inl x, s') \<Rightarrow> E x s'
        | (Inr x, s') \<Rightarrow> (case x of (kk, w) \<Rightarrow> \<lambda>s. (0 \<le> kk \<and> kk \<le> sp_depth sp \<and> int w < sp_width sp) \<and> midway Inv bt H fin k st n s) s'"
      by (cases "draw_round e sp s"; cases "fst (draw_round e sp s)") (auto split: prod.splits)
  qed
qed

lemma ceil_div_shift: "0 < b \<Longrightarrow> ceil_div (q * b + x) b = q + ceil_div x b"
proof -
  assume "0 < b"
  moreover have "- (q * b + x) = - x + (- q) * b" by simp
  ultimately show ?thesis unfolding ceil_div_def by (metis add.commute add.inverse_inverse div_mult_self1 less_irrefl minus_add_distrib)
qed

text \<open>The blocks a round has to reserve, keep and end with.\<close>

lemma adopted_length:
  assumes b: "0 < b" and l: "0 \<le> l" and a: "0 \<le> a"
  defines "r \<equiv> l mod b"
  shows "(if r \<noteq> 0 then ceil_div l b - 1 else ceil_div l b) + (if r \<noteq> 0 then ceil_div (r + a) b else ceil_div a b)
    = ceil_div (l + a) b"
proof -
  have l': "l = (l div b) * b + r" by (simp add: r_def)
  have r: "0 \<le> r" "r < b" using b by (simp_all add: r_def)
  have whole: "ceil_div l b = l div b + ceil_div r b" by (subst l') (rule ceil_div_shift [OF b])
  have "ceil_div (l + a) b = ceil_div ((l div b) * b + (r + a)) b" by (subst (1) l') (simp add: add.assoc)
  also have "\<dots> = l div b + ceil_div (r + a) b" by (rule ceil_div_shift [OF b])
  finally have "ceil_div (l + a) b = l div b + ceil_div (r + a) b" .
  moreover have "ceil_div r b = 1" if "r \<noteq> 0"
  proof -
    have "ceil_div r b \<le> 1" using ceil_div_le_iff [OF b, of r 1] r by simp
    moreover have "0 < ceil_div r b" using ceil_div_pos b r that by simp
    ultimately show ?thesis by simp
  qed
  moreover have "ceil_div 0 b = 0" by (simp add: ceil_div_def)
  ultimately show ?thesis using whole by simp
qed

context kv_contract
begin

lemma scratch_triple:
  assumes np: "\<not> persistent_scratch A" and e: "methods e = A" and nb: "0 \<le> nb"
  shows "triple (\<lambda>s. midway Inv bt H fin k st n s \<and> int i * nb \<le> m_free A (pool s))
    (repeatN i (on_pool (m_scratch (methods e) k nb)))
    (\<lambda>brs s. (length brs = i \<and> (\<forall>b \<in> set brs. length b = nat nb)) \<and> midway Inv bt (H + tag k (concat brs)) fin k st n s)
    (may_fail Inv e)"
proof (induction i arbitrary: H)
  case 0
  then show ?case by (simp add: triple_def ret_def)
next
  case (Suc i)
  have one: "triple (\<lambda>s. midway Inv bt H fin k st n s \<and> int (Suc i) * nb \<le> m_free A (pool s))
    (on_pool (m_scratch (methods e) k nb))
    (\<lambda>b s. length b = nat nb \<and> (midway Inv bt (H + tag k b) fin k st n s \<and> int i * nb \<le> m_free A (pool s)))
    (may_fail Inv e)"
  proof -
    have "case on_pool (m_scratch (methods e) k nb) s of (Inl x, s') \<Rightarrow> may_fail Inv e x s'
        | (Inr b, s') \<Rightarrow> length b = nat nb \<and> (midway Inv bt (H + tag k b) fin k st n s' \<and> int i * nb \<le> m_free A (pool s'))"
      if s: "midway Inv bt H fin k st n s" and free: "int (Suc i) * nb \<le> m_free A (pool s)" for s
    proof -
      have safe: "safe_inv Inv bt H {k} fin s" using s by (simp add: midway_def)
      obtain res p' where scr: "m_scratch A k nb (pool s) = (res, p')" by fastforce
      have "nb \<le> m_free A (pool s)" using free nb by (simp add: distrib_right) (smt (verit) mult_nonneg_nonneg of_nat_0_le_iff)
      with scratch_law [OF np safe_Inv [OF safe] nb, of k] scr obtain b where
        b: "res = Inr b" "length b = nat nb" "same_tables (pool s) p'" "m_free A p' = m_free A (pool s) - nb" "Inv (H + tag k b) p'"
        by (cases res) auto
      have tabs: "tables p' = tables (pool s)" using b(3) by (simp add: same_tables_def)
      have "safe_inv Inv bt (H + tag k b) {k} fin (s\<lparr>pool := p'\<rparr>)"
        by (rule safe_pool [OF safe b(5)]) (simp_all add: tabs)
      with s scr b(1,2,4) e free tabs show ?thesis
        by (simp add: on_pool_def midway_def runs_def tab_len_def distrib_right)
    qed
    then show ?thesis by (simp add: triple_def)
  qed
  show ?case
    unfolding repeatN.simps
  proof (rule triple_bind [OF one], rule triple_pure)
    fix b :: "nat list" assume b: "length b = nat nb"
    show "triple (\<lambda>s. midway Inv bt (H + tag k b) fin k st n s \<and> int i * nb \<le> m_free A (pool s))
      (bindS (repeatN i (on_pool (m_scratch (methods e) k nb))) (\<lambda>ys. ret (b # ys)))
      (\<lambda>brs s. (length brs = Suc i \<and> (\<forall>b \<in> set brs. length b = nat nb)) \<and> midway Inv bt (H + tag k (concat brs)) fin k st n s)
      (may_fail Inv e)"
    proof (rule triple_bind [OF Suc], rule triple_ret, elim conjE)
      fix ys s assume "length ys = i" "\<forall>b \<in> set ys. length b = nat nb" "midway Inv bt (H + tag k b + tag k (concat ys)) fin k st n s"
      moreover have "H + tag k b + tag k (concat ys) = H + tag k (concat (b # ys))" by (simp add: tag_def add.assoc)
      ultimately show "(length (b # ys) = Suc i \<and> (\<forall>b \<in> set (b # ys). length b = nat nb)) \<and> midway Inv bt (H + tag k (concat (b # ys))) fin k st n s"
        using b by simp
    qed
  qed
qed

text \<open>Dropping all branches.\<close>

lemma drop_run:
  assumes np: "\<not> persistent_scratch A" and e: "methods e = A"
    and "safe_inv Inv bt (tag k (concat brs)) X fin s"
  shows "\<exists>s'. eachS (\<lambda>br. on_pool (m_unref (methods e) br)) brs s = (Inr (), s') \<and> safe_inv Inv bt {#} X fin s'
    \<and> active s' = active s \<and> tables (pool s') = tables (pool s)"
  using assms(3)
proof (induction brs arbitrary: s)
  case Nil
  then show ?case by (simp add: ret_def)
next
  case (Cons b brs)
  have split: "tag k (concat (b # brs)) - tag k b = tag k (concat brs)" "tag k b \<subseteq># tag k (concat (b # brs))"
    by (simp_all add: tag_def)
  obtain p' where p': "m_unref A b (pool s) = (Inr (), p')" "same_tables (pool s) p'" "Inv (tag k (concat brs)) p'"
    using unref_law [OF np safe_Inv [OF Cons.prems] split(2)] unfolding split(1) by blast
  have tabs: "tables p' = tables (pool s)" using p'(2) by (simp add: same_tables_def)
  have "safe_inv Inv bt (tag k (concat brs)) X fin (s\<lparr>pool := p'\<rparr>)"
    by (rule safe_pool [OF Cons.prems p'(3)]) (simp_all add: tabs)
  from Cons.IH [OF this] tabs p'(1) e show ?case by (simp add: thenS_def bindS_def on_pool_def)
qed

lemma drop_midway:
  fixes e :: "('p, 'b) env" and E :: "py_error \<Rightarrow> ('p, 'b) sim \<Rightarrow> bool"
  assumes "\<not> persistent_scratch A" and "methods e = A"
  shows "triple (midway Inv bt (tag k (concat brs)) fin k st n) (eachS (\<lambda>br. on_pool (m_unref (methods e) br)) brs)
    (\<lambda>_. midway Inv bt {#} fin k st n) E"
  unfolding triple_def
proof (intro allI impI)
  fix s :: "('p, 'b) sim"
  assume s: "midway Inv bt (tag k (concat brs)) fin k st n s"
  then have "safe_inv Inv bt (tag k (concat brs)) {k} fin s" by (simp add: midway_def)
  from drop_run [OF assms this] s
  show "case eachS (\<lambda>br. on_pool (m_unref (methods e) br)) brs s of (Inl x, s') \<Rightarrow> E x s'
      | (Inr _, s') \<Rightarrow> midway Inv bt {#} fin k st n s'"
    by (auto simp: midway_def runs_def tab_len_def)
qed

lemma drop_safe:
  assumes "\<not> persistent_scratch A" and "methods e = A"
  shows "triple (safe_inv Inv bt (tag k (concat brs)) X fin) (eachS (\<lambda>br. on_pool (m_unref (methods e) br)) brs)
    (\<lambda>_. safe_inv Inv bt {#} X fin) E"
  unfolding triple_def using drop_run [OF assms] by fastforce

text \<open>Adopting the winning branch.\<close>

lemma adopt_triple:
  fixes e :: "('p, 'b) env" and E :: "py_error \<Rightarrow> ('p, 'b) sim \<Rightarrow> bool"
  assumes np: "\<not> persistent_scratch A" and e: "methods e = A"
    and w: "w < length brs" and nb: "\<forall>b \<in> set brs. length b = nat nb" and keep: "0 \<le> keep" "keep \<le> nb"
    and n: "replace_tail \<longrightarrow> 0 < n"
  shows "triple (midway Inv bt (tag k (concat brs)) fin k st n)
    (on_pool (m_adopt (methods e) k replace_tail w keep brs))
    (\<lambda>_. midway Inv bt {#} fin k st ((if replace_tail then n - 1 else n) + keep)) E"
  unfolding triple_def
proof (intro allI impI)
  fix s :: "('p, 'b) sim"
  assume s: "midway Inv bt (tag k (concat brs)) fin k st n s"
  then have safe: "safe_inv Inv bt (tag k (concat brs)) {k} fin s" by (simp add: midway_def)
  obtain t where t: "map_of (tables (pool s)) k = Some t" "int (length t) = n"
    using s by (auto simp: midway_def runs_def tab_len_def)
  have "replace_tail \<longrightarrow> t \<noteq> []" using t(2) n by auto
  from adopt_law [OF np safe_Inv [OF safe] t(1) w subset_mset.order_refl this] obtain p' where
    p': "m_adopt A k replace_tail w keep brs (pool s) = (Inr (), p')"
      "tables p' = AList.update k ((if replace_tail then butlast t else t) @ slice_to keep (brs ! w)) (tables (pool s))"
      "Inv {#} p'" by fastforce
  have "length (brs ! w) = nat nb" using nb w by simp
  then have "int (length (slice_to keep (brs ! w))) = keep"
    using keep by (auto simp: slice_to_def slice_pos_def min_def)
  moreover have "int (length (if replace_tail then butlast t else t)) = (if replace_tail then n - 1 else n)"
    using t(2) n by (auto simp: of_nat_diff Suc_leI)
  ultimately have "tab_len k ((if replace_tail then n - 1 else n) + keep) (s\<lparr>pool := p'\<rparr>)"
    by (simp add: tab_len_def p'(2))
  moreover have "safe_inv Inv bt {#} {k} fin (s\<lparr>pool := p'\<rparr>)"
    by (rule safe_pool [OF safe p'(3)]) (use t(1) in \<open>auto simp: p'(2)\<close>)
  ultimately show "case on_pool (m_adopt (methods e) k replace_tail w keep brs) s of (Inl x, s') \<Rightarrow> E x s'
      | (Inr _, s') \<Rightarrow> midway Inv bt {#} fin k st ((if replace_tail then n - 1 else n) + keep) s'"
    using s p'(1) e by (simp add: on_pool_def midway_def runs_def)
qed

lemma enough_zero: "midway Inv bt H fin k st n s \<Longrightarrow> methods e = A \<Longrightarrow> enough e 0 s"
  using free_law by (auto simp: enough_def midway_def safe_inv_def)

lemma spec_stalled_triple:
  fixes e :: "('p, 'b) env"
  assumes np: "\<not> persistent_scratch A" and e: "methods e = A" and bt: "0 < block_tokens e"
    and len: "sq_length st < sq_total_len st"
  defines "n \<equiv> ceil_div (sq_length st) (block_tokens e)"
  shows "triple (midway Inv (block_tokens e) {#} fin k st n) (spec_stalled e k st)
    (\<lambda>_. took_turn Inv (block_tokens e) k fin) (may_fail Inv e)"
proof -
  show ?thesis
    unfolding spec_stalled_def Let_def
  proof (rule triple_then)
    show "triple (midway Inv (block_tokens e) {#} fin k st n) (modifyS (\<lambda>s. s\<lparr>spec_stalls := spec_stalls s + 1\<rparr>))
      (\<lambda>_. midway Inv (block_tokens e) {#} fin k st n) (may_fail Inv e)"
      by (rule modify_midway) simp_all
  next
    show "triple (midway Inv (block_tokens e) {#} fin k st n)
     (bindS (on_pool (get_table k)) (\<lambda>t.
      bindS (if sq_length st + 1 > int (length t) * block_tokens e then ensure_free e k 1 else ret True) (\<lambda>ok.
      if \<not> ok then ret ()
      else thenS (advance k 1) (if sq_length st + 1 > int (length t) * block_tokens e
                then bindS (on_pool (m_append (methods e) k)) (\<lambda>_. ret ()) else ret ()))))
     (\<lambda>_. took_turn Inv (block_tokens e) k fin) (may_fail Inv e)"
    proof (rule triple_bind [OF table_midway], rule triple_pure)
    fix t assume t: "int (length t) = n"
    show "triple (midway Inv (block_tokens e) {#} fin k st n)
     (bindS (if int (length t) * block_tokens e < sq_length st + 1 then ensure_free e k 1 else ret True) (\<lambda>ok.
      if \<not> ok then ret ()
      else thenS (advance k 1) (if int (length t) * block_tokens e < sq_length st + 1
                then bindS (on_pool (m_append (methods e) k)) (\<lambda>_. ret ()) else ret ())))
     (\<lambda>_. took_turn Inv (block_tokens e) k fin) (may_fail Inv e)"
      by (rule triple_weaken [OF one_token_triple [where x = "()" and y = "()", unfolded thenS_unit, OF np e bt len]]) (simp_all add: t n_def)
    qed
  qed
qed

lemma spec_copyback_triple:
  fixes e :: "('p, 'b) env"
  assumes np: "\<not> persistent_scratch A" and e: "methods e = A" and bt: "0 < block_tokens e"
    and adv: "0 \<le> adv" "sq_length st + adv \<le> sq_total_len st"
  defines "n \<equiv> ceil_div (sq_length st) (block_tokens e)"
  shows "triple (midway Inv (block_tokens e) (tag k (concat brs)) fin k st n) (spec_copyback e k st adv brs)
    (\<lambda>_. took_turn Inv (block_tokens e) k fin) (may_fail Inv e)"
proof -
  let ?bt = "block_tokens e" and ?H = "tag k (concat brs)"
  let ?grow = "grow_of e st adv"
  have grow: "0 \<le> ?grow" "n + ?grow = ceil_div (sq_length st + adv) ?bt"
    using ceil_div_mono [OF bt, of "sq_length st" "sq_length st + adv"] adv(1) by (simp_all add: grow_of_def n_def)
  have rest: "triple (\<lambda>s. midway Inv ?bt ?H fin k st n s \<and> enough e ?grow s)
    (thenS (append_blocks e k ?grow) (thenS (add_copied adv)
      (thenS (eachS (\<lambda>br. on_pool (m_unref (methods e) br)) brs) (advance k adv))))
    (\<lambda>_. took_turn Inv ?bt k fin) (may_fail Inv e)"
  proof (rule triple_then [OF append_blocks_triple [OF np e grow(1)] triple_then [OF add_copied_midway
      triple_then [OF drop_midway [OF np e]]]])
    show "triple (midway Inv ?bt {#} fin k st (n + ?grow)) (advance k adv) (\<lambda>_. took_turn Inv ?bt k fin) (may_fail Inv e)"
      by (rule triple_weaken [OF advance_triple [OF adv]]) (auto elim!: midway_done_len simp: grow(2))
  qed
  have make: "triple (midway Inv ?bt ?H fin k st n) (if ?grow \<noteq> 0 then ensure_free e k ?grow else ret True)
    (\<lambda>ok s. if ok then midway Inv ?bt ?H fin k st n s \<and> enough e ?grow s else safe_inv Inv ?bt ?H {} fin s) (may_fail Inv e)"
  proof (cases "?grow = 0")
    case True
    then show ?thesis using enough_zero [OF _ e] by (auto simp: triple_def ret_def)
  next
    case False
    then show ?thesis using ensure_free_triple [OF np e] by simp
  qed
  show ?thesis
    unfolding spec_copyback_def Let_def
  proof (rule triple_bind [OF make])
    fix ok
    show "triple (\<lambda>s. if ok then midway Inv ?bt ?H fin k st n s \<and> enough e ?grow s else safe_inv Inv ?bt ?H {} fin s)
      (if \<not> ok then eachS (\<lambda>br. on_pool (m_unref (methods e) br)) brs
       else thenS (append_blocks e k ?grow) (thenS (add_copied adv)
         (thenS (eachS (\<lambda>br. on_pool (m_unref (methods e) br)) brs) (advance k adv))))
      (\<lambda>_. took_turn Inv ?bt k fin) (may_fail Inv e)"
    proof (cases ok)
      case False
      have "triple (safe_inv Inv ?bt ?H {} fin) (eachS (\<lambda>br. on_pool (m_unref (methods e) br)) brs)
        (\<lambda>_. took_turn Inv ?bt k fin) (may_fail Inv e)"
        by (rule triple_weaken [OF drop_safe [OF np e]]) (auto simp: took_turn_def)
      with False show ?thesis by simp
    qed (use rest in simp)
  qed
qed

lemma spec_round_triple:
  fixes e :: "('p, 'b) env"
  assumes e: "good_env e" "methods e = A" and sp: "spec e = Some sp"
    and len: "0 < sq_length st" "sq_length st < sq_total_len st"
  defines "n \<equiv> ceil_div (sq_length st) (block_tokens e)"
  shows "triple (midway Inv (block_tokens e) {#} fin k st n) (spec_round e sp k)
    (\<lambda>_. took_turn Inv (block_tokens e) k fin) (may_fail Inv e)"
proof -
  have np: "\<not> persistent_scratch A" and bt: "0 < block_tokens e" and draws: "draws_ok e"
    and width: "0 < sp_width sp" "0 \<le> sp_depth sp" using e sp by (auto simp: good_env_def)
  let ?bt = "block_tokens e" and ?r = "sq_length st mod block_tokens e"
  let ?nb = "if ?r \<noteq> 0 then ceil_div (?r + (sp_depth sp + 1)) ?bt else ceil_div (sp_depth sp + 1) ?bt"
  have r: "0 \<le> ?r" using bt by simp
  have nb: "0 \<le> ?nb" using r width(2) bt by (auto intro!: ceil_div_nonneg)
  show ?thesis
    unfolding spec_round_def Let_def
  proof (rule triple_bind [OF dget_midway], rule triple_pure, rule triple_bind [OF draw_round_triple [OF width draws]],
      clarify, rule triple_pure)
    fix kk w assume kk: "0 \<le> kk \<and> kk \<le> sp_depth sp \<and> int w < sp_width sp"
    let ?adv = "min (kk + 1) (sq_total_len st - sq_length st)"
    let ?keep = "if ?r \<noteq> 0 then ceil_div (?r + ?adv) ?bt else ceil_div ?adv ?bt"
    have adv: "0 \<le> ?adv" "sq_length st + ?adv \<le> sq_total_len st" "?adv \<le> sp_depth sp + 1" using kk len by auto
    have keep: "0 \<le> ?keep" "?keep \<le> ?nb"
      using r adv bt by (auto intro!: ceil_div_nonneg ceil_div_mono)
    have final: "(if ?r \<noteq> 0 then n - 1 else n) + ?keep = ceil_div (sq_length st + ?adv) ?bt"
      unfolding n_def by (rule adopted_length [OF bt less_imp_le [OF len(1)] adv(1)])
    have n: "?r \<noteq> 0 \<longrightarrow> 0 < n"
    proof
      assume "?r \<noteq> 0"
      then have "sq_length st \<noteq> 0" by auto
      then show "0 < n" unfolding n_def using len(1) by (intro ceil_div_pos [OF bt]) simp
    qed
    have commit: "triple (midway Inv ?bt (tag k (concat brs)) fin k st n)
        (thenS (if ?r \<noteq> 0 then add_copied (sp_width sp * ?r) else ret ())
         (if sp_adopt sp = ''copyback'' then spec_copyback e k st ?adv brs
          else thenS (on_pool (m_adopt (methods e) k (?r \<noteq> 0) w ?keep brs)) (advance k ?adv)))
        (\<lambda>_. took_turn Inv ?bt k fin) (may_fail Inv e)"
      if brs: "length brs = nat (sp_width sp)" "\<forall>b \<in> set brs. length b = nat ?nb" for brs
    proof (rule triple_then)
      show "triple (midway Inv ?bt (tag k (concat brs)) fin k st n)
        (if ?r \<noteq> 0 then add_copied (sp_width sp * ?r) else ret ())
        (\<lambda>_. midway Inv ?bt (tag k (concat brs)) fin k st n) (may_fail Inv e)"
        by (simp add: add_copied_midway) (simp add: triple_def ret_def)
      have w: "w < length brs" using kk brs(1) by linarith
      have splice: "triple (midway Inv ?bt (tag k (concat brs)) fin k st n)
        (thenS (on_pool (m_adopt (methods e) k (?r \<noteq> 0) w ?keep brs)) (advance k ?adv))
        (\<lambda>_. took_turn Inv ?bt k fin) (may_fail Inv e)"
      proof (rule triple_then [OF adopt_triple [OF np e(2) w brs(2) keep n]])
        show "triple (midway Inv ?bt {#} fin k st ((if ?r \<noteq> 0 then n - 1 else n) + ?keep)) (advance k ?adv)
          (\<lambda>_. took_turn Inv ?bt k fin) (may_fail Inv e)"
          unfolding final by (rule triple_weaken [OF advance_triple [OF adv(1,2)]]) (auto elim!: midway_done_len)
      qed
      show "triple (midway Inv ?bt (tag k (concat brs)) fin k st n)
        (if sp_adopt sp = ''copyback'' then spec_copyback e k st ?adv brs
         else thenS (on_pool (m_adopt (methods e) k (?r \<noteq> 0) w ?keep brs)) (advance k ?adv))
        (\<lambda>_. took_turn Inv ?bt k fin) (may_fail Inv e)"
        using spec_copyback_triple [OF np e(2) bt adv(1,2)] splice by (simp add: n_def)
    qed
    let ?branch = "bindS (repeatS (sp_width sp) (on_pool (m_scratch (methods e) k ?nb))) (\<lambda>brs.
         thenS (if ?r \<noteq> 0 then add_copied (sp_width sp * ?r) else ret ())
         (if sp_adopt sp = ''copyback'' then spec_copyback e k st ?adv brs
          else thenS (on_pool (m_adopt (methods e) k (?r \<noteq> 0) w ?keep brs)) (advance k ?adv)))"
    have branch: "triple (\<lambda>s. midway Inv ?bt {#} fin k st n s \<and> sp_width sp * ?nb \<le> m_free A (pool s)) ?branch
        (\<lambda>_. took_turn Inv ?bt k fin) (may_fail Inv e)"
    proof (rule triple_bind)
      show "triple (\<lambda>s. midway Inv ?bt {#} fin k st n s \<and> sp_width sp * ?nb \<le> m_free A (pool s))
        (repeatS (sp_width sp) (on_pool (m_scratch (methods e) k ?nb)))
        (\<lambda>brs s. (length brs = nat (sp_width sp) \<and> (\<forall>b \<in> set brs. length b = nat ?nb)) \<and> midway Inv ?bt (tag k (concat brs)) fin k st n s)
        (may_fail Inv e)"
        using scratch_triple [OF np e(2) nb, where i = "nat (sp_width sp)" and H = "{#}" and bt = ?bt and fin = fin
            and k = k and st = st and n = n] width(1)
        by (simp add: repeatS_def)
    qed (rule triple_pure, rule commit, auto)
    have "case (if m_free (methods e) (pool s) < sp_width sp * ?nb then spec_stalled e k st else ?branch) s of
        (Inl x, s') \<Rightarrow> may_fail Inv e x s' | (Inr _, s') \<Rightarrow> took_turn Inv ?bt k fin s'"
      if s: "midway Inv ?bt {#} fin k st n s" for s
    proof (cases "m_free A (pool s) < sp_width sp * ?nb")
      case True
      then show ?thesis
        using spec_stalled_triple [OF np e(2) bt len(2)] s e(2) by (simp add: triple_def n_def)
    next
      case False
      then show ?thesis using branch s e(2) by (simp add: triple_def)
    qed
    then show "triple (midway Inv ?bt {#} fin k st n)
       (if persistent_scratch (methods e) then spec_in_place e k st ?adv
        else bindS (free_blocks_now e) (\<lambda>free.
          if free < sp_width sp * ?nb then spec_stalled e k st else ?branch))
       (\<lambda>_. took_turn Inv ?bt k fin) (may_fail Inv e)"
      using np e(2) by (simp add: triple_def free_blocks_now_def bindS_def getS_def)
  qed
qed

end

end
