(* ===== verification/Sim_Modes.thy ===== *)
theory Sim_Modes
  imports Sim_Safety
begin

text \<open>
  From one decode turn to whole runs of \<open>simulate\<close>, in every mode: the decode phase, retirement, sampling,
  admission from the waiting queue and from the arrivals, the main loop and the final check.
\<close>

section \<open>The decode phase\<close>

lemma then_modify: "thenS (modifyS f) m s = m (f s)"
  by (simp add: thenS_def bindS_def modifyS_def)

lemma bind_get: "bindS (getS f) k s = k (f s) s"
  by (simp add: bindS_def getS_def)

lemma finished_turn:
  assumes turn: "took_turn Inv bt k (set fin) s"
  shows "safe_inv Inv bt {#} {} (set (case map_of (active s) k of None \<Rightarrow> fin
    | Some st \<Rightarrow> if sq_length st \<ge> sq_total_len st then fin @ [k] else fin)) s"
proof (cases "safe_inv Inv bt {#} {} (set fin) s")
  case True
  then show ?thesis by (rule safe_mono) (auto split: option.split)
next
  case False
  then have s: "safe_inv Inv bt {#} {} (insert k (set fin)) s" and k: "k \<in> dom (map_of (active s))"
    using turn by (auto simp: took_turn_def)
  then obtain st where st: "map_of (active s) k = Some st" by blast
  show ?thesis
  proof (cases "sq_length st \<ge> sq_total_len st")
    case True
    then show ?thesis using s st by simp
  next
    case less: False
    have d: "distinct (rids_of s)" using s by (simp add: safe_inv_def)
    have km: "k \<in> fst ` set (active s)" using map_of_SomeD [OF st] by force
    have "\<forall>(j, v) \<in> set (active s). sq_rid v = j \<and> seq_fine (set fin) v \<and> (j \<in> {} \<or> tab_len j (ceil_div (sq_length v) bt) s)"
    proof clarify
      fix j v assume jv: "(j, v) \<in> set (active s)"
      have "map_of (active s) j = Some v" using map_of_is_SomeI [OF safe_dict [OF s] jv] .
      then have "j = k \<longrightarrow> v = st" using st by auto
      then show "sq_rid v = j \<and> seq_fine (set fin) v \<and> (j \<in> {} \<or> tab_len j (ceil_div (sq_length v) bt) s)"
        using s jv less by (auto simp: safe_inv_def seq_fine_def)
    qed
    moreover have "\<forall>v \<in> set (waiting s). seq_fine (set fin) v"
    proof
      fix v assume v: "v \<in> set (waiting s)"
      then have "sq_rid v \<noteq> k" using d km by (auto simp: rids_of_def)
      then show "seq_fine (set fin) v" using s v by (auto simp: safe_inv_def seq_fine_def)
    qed
    ultimately show ?thesis using s st less by (simp add: safe_inv_def)
  qed
qed

context kv_contract
begin

lemma decode_seq_triple:
  fixes e :: "('p, 'b) env"
  assumes e: "good_env e" "methods e = A" and k: "k \<notin> set fin"
  shows "triple (safe_inv Inv (block_tokens e) {#} {} (set fin)) (decode_seq e k fin)
    (\<lambda>fin' s. (fin' = fin \<or> fin' = fin @ [k]) \<and> safe_inv Inv (block_tokens e) {#} {} (set fin') s) (may_fail Inv e)"
proof -
  let ?bt = "block_tokens e"
  have np: "\<not> persistent_scratch A" and bt: "0 < ?bt" using e by (auto simp: good_env_def)
  let ?body = "case spec e of Some sp \<Rightarrow> thenS (spec_round e sp k) (ret True) | None \<Rightarrow> plain_decode e k"
  let ?last = "\<lambda>s. case map_of (active s) k of None \<Rightarrow> fin | Some st \<Rightarrow> if sq_length st \<ge> sq_total_len st then fin @ [k] else fin"
  have body: "triple (midway Inv ?bt {#} (set fin) k st (ceil_div (sq_length st) ?bt)) ?body
      (\<lambda>go s. if go then took_turn Inv ?bt k (set fin) s else safe_inv Inv ?bt {#} {} (set fin) s) (may_fail Inv e)"
    if len: "0 < sq_length st" "sq_length st < sq_total_len st" for st
  proof (cases "spec e")
    case None
    then show ?thesis using plain_decode_triple [OF np e(2) bt len(2)] by simp
  next
    case (Some sp)
    have "triple (midway Inv ?bt {#} (set fin) k st (ceil_div (sq_length st) ?bt)) (thenS (spec_round e sp k) (ret True))
      (\<lambda>go s. if go then took_turn Inv ?bt k (set fin) s else safe_inv Inv ?bt {#} {} (set fin) s) (may_fail Inv e)"
      by (rule triple_then [OF spec_round_triple [OF e Some len]], rule triple_ret) simp
    with Some show ?thesis by simp
  qed
  have tail: "triple (\<lambda>s. if go then took_turn Inv ?bt k (set fin) s else safe_inv Inv ?bt {#} {} (set fin) s)
      (if \<not> go then ret fin else getS ?last)
      (\<lambda>fin' s. (fin' = fin \<or> fin' = fin @ [k]) \<and> safe_inv Inv ?bt {#} {} (set fin') s) (may_fail Inv e)" for go
  proof (cases go)
    case True
    have "?last s = fin \<or> ?last s = fin @ [k]" for s :: "('p, 'b) sim" by (auto split: option.split)
    moreover have "safe_inv Inv ?bt {#} {} (set (?last s)) s" if "took_turn Inv ?bt k (set fin) s" for s :: "('p, 'b) sim"
      by (rule finished_turn [OF that])
    ultimately show ?thesis using True by (simp add: triple_def getS_def)
  qed (simp add: triple_def ret_def)
  show ?thesis
    unfolding triple_def
  proof (intro allI impI)
    fix s :: "('p, 'b) sim"
    assume s: "safe_inv Inv ?bt {#} {} (set fin) s"
    show "case decode_seq e k fin s of (Inl x, s') \<Rightarrow> may_fail Inv e x s'
        | (Inr fin', s') \<Rightarrow> (fin' = fin \<or> fin' = fin @ [k]) \<and> safe_inv Inv ?bt {#} {} (set fin') s'"
    proof (cases "map_of (active s) k")
      case None
      with s show ?thesis by (simp add: decode_seq_def bindS_def getS_def ret_def)
    next
      case (Some st)
      have "sq_rid st = k" "seq_fine (set fin) st" using safe_seq [OF s Some] by simp_all
      then have "0 < sq_length st" "sq_length st < sq_total_len st" using k by (auto simp: seq_fine_def)
      from triple_bind [OF body [OF this] tail] midwayI [OF s Some] Some
      show ?thesis by (simp add: triple_def decode_seq_def bind_get)
    qed
  qed
qed

lemma decode_all_triple:
  fixes e :: "('p, 'b) env"
  assumes e: "good_env e" "methods e = A"
  shows "distinct (fin @ ids) \<Longrightarrow> triple (safe_inv Inv (block_tokens e) {#} {} (set fin)) (foldS (decode_seq e) ids fin)
    (\<lambda>fin' s. distinct fin' \<and> safe_inv Inv (block_tokens e) {#} {} (set fin') s) (may_fail Inv e)"
proof (induction ids arbitrary: fin)
  case Nil
  then show ?case by (simp add: triple_def ret_def)
next
  case (Cons k ids)
  have "k \<notin> set fin" using Cons.prems by simp
  show ?case
    unfolding foldS.simps
  proof (rule triple_bind [OF decode_seq_triple [OF e \<open>k \<notin> set fin\<close>]], rule triple_pure)
    fix fin' assume "fin' = fin \<or> fin' = fin @ [k]"
    then have "distinct (fin' @ ids)" using Cons.prems by auto
    then show "triple (safe_inv Inv (block_tokens e) {#} {} (set fin')) (foldS (decode_seq e) ids fin')
      (\<lambda>fin' s. distinct fin' \<and> safe_inv Inv (block_tokens e) {#} {} (set fin') s) (may_fail Inv e)"
      by (rule Cons.IH)
  qed
qed

lemma retire_triple:
  fixes e :: "('p, 'b) env"
  assumes e: "good_env e" "methods e = A"
  shows "triple (safe_inv Inv bt {#} {} (insert k fin)) (retire_seq e k) (\<lambda>_. safe_inv Inv bt {#} {} fin) (may_fail Inv e)"
  unfolding triple_def
proof (intro allI impI)
  fix s :: "('p, 'b) sim"
  assume s: "safe_inv Inv bt {#} {} (insert k fin) s"
  have np: "\<not> persistent_scratch A" using e by (auto simp: good_env_def)
  show "case retire_seq e k s of (Inl x, s') \<Rightarrow> may_fail Inv e x s' | (Inr _, s') \<Rightarrow> safe_inv Inv bt {#} {} fin s'"
  proof (cases "map_of (active s) k")
    case None
    then show ?thesis using safe_Inv [OF s] by (auto simp: retire_seq_def prog_simps may_fail_def)
  next
    case (Some st)
    have fine: "seq_fine (insert k fin) st" using safe_seq [OF s Some] by simp
    obtain res p' where rel: "m_release A k (pool s) = (res, p')" by fastforce
    have "map_of (tables (pool s)) k \<noteq> None" using s Some by (auto simp: safe_inv_def)
    with release_law [OF np safe_Inv [OF s], of k] rel have res: "res = Inr ()"
      and p': "Inv {#} p'" "same_shape (AList.delete k (tables (pool s))) (tables p')" by (cases res; simp)+
    let ?s' = "s\<lparr>pool := p', active := AList.delete k (active s), completed := completed s + 1\<rparr>"
    have "retire_seq e k s = (Inr (), ?s')"
      using Some fine rel res e(2) by (simp add: retire_seq_def prog_simps seq_fine_def)
    moreover have safe: "safe_inv Inv bt {#} ({} - {k}) (insert k fin) ?s'"
      by (rule safe_remove [OF s Some p']) simp_all
    moreover have "safe_inv Inv bt {#} {} fin ?s'"
    proof -
      have km: "k \<in> set (map fst (active s))" using map_of_SomeD [OF Some] by force
      have "distinct (rids_of s)" using s by (simp add: safe_inv_def)
      then have w: "\<forall>v \<in> set (waiting s). sq_rid v \<noteq> k" using km by (auto simp: rids_of_def)
      have a: "\<forall>(j, v) \<in> set (AList.delete k (active s)). j \<noteq> k" by (auto simp: AList.delete_eq)
      have shrink: "seq_fine (insert k fin) v \<Longrightarrow> sq_rid v \<noteq> k \<Longrightarrow> seq_fine fin v" for v by (auto simp: seq_fine_def)
      have "\<forall>v \<in> set (waiting ?s'). seq_fine fin v" using safe w shrink by (simp add: safe_inv_def)
      moreover have "\<forall>(j, v) \<in> set (active ?s'). sq_rid v = j \<and> seq_fine fin v
          \<and> (j \<in> {} \<or> tab_len j (ceil_div (sq_length v) bt) ?s')"
      proof clarify
        fix j v assume jv: "(j, v) \<in> set (active ?s')"
        have "j \<noteq> k" using a jv by auto
        moreover have "sq_rid v = j \<and> seq_fine (insert k fin) v \<and> tab_len j (ceil_div (sq_length v) bt) ?s'"
          using safe jv unfolding safe_inv_def by fast
        ultimately show "sq_rid v = j \<and> seq_fine fin v \<and> (j \<in> {} \<or> tab_len j (ceil_div (sq_length v) bt) ?s')"
          using shrink by blast
      qed
      ultimately show ?thesis using safe by (simp add: safe_inv_def)
    qed
    ultimately show ?thesis by simp
  qed
qed

lemma retire_all_triple:
  fixes e :: "('p, 'b) env"
  assumes "good_env e" "methods e = A"
  shows "triple (safe_inv Inv bt {#} {} (set ids)) (eachS (retire_seq e) ids) (\<lambda>_. safe_inv Inv bt {#} {} {}) (may_fail Inv e)"
proof (induction ids)
  case Nil
  then show ?case by (simp add: triple_def ret_def)
next
  case (Cons k ids)
  show ?case
    unfolding eachS.simps list.set by (rule triple_then [OF retire_triple [OF assms] Cons])
qed

text \<open>Sampling, the counters and the periodic check do not touch what the invariant reads.\<close>

lemma safe_measurable:
  fixes e :: "('p, 'b) env"
  assumes e: "good_env e" and fit: "pool_fits Inv e" and s: "safe_inv Inv (block_tokens e) {#} {} fin s"
  shows "measurable e s"
  unfolding measurable_def
proof (intro conjI allI impI)
  fix k st assume "map_of (active s) k = Some st"
  then have ok: "sq_rid st = k" "seq_fine fin st" "tab_len k (ceil_div (sq_length st) (block_tokens e)) s"
    using safe_seq [OF s] by auto
  then show "sq_rid st = k" "0 < sq_length st" by (simp_all add: seq_fine_def)
  from ok(3) obtain t where t: "map_of (tables (pool s)) k = Some t" "int (length t) = ceil_div (sq_length st) (block_tokens e)"
    by (auto simp: tab_len_def)
  then have "ceil_div (sq_length st) (block_tokens e) \<le> int (length t)" by simp
  with t(1) show "\<exists>t. map_of (tables (pool s)) k = Some t \<and> ceil_div (sq_length st) (block_tokens e) \<le> int (length t)
      \<and> (\<forall>b \<in> set t. b < num_blocks (pool s))"
    using table_range [OF safe_Inv [OF s]] by blast
qed (use e fit safe_Inv [OF s] in \<open>auto simp: good_env_def pool_fits_def\<close>)

lemma samples_triple:
  fixes e :: "('p, 'b) env"
  assumes e: "good_env e" and fit: "pool_fits Inv e"
  shows "triple (safe_inv Inv (block_tokens e) {#} {} fin) (take_samples e) (\<lambda>_. safe_inv Inv (block_tokens e) {#} {} fin) (may_fail Inv e)"
  unfolding triple_def
proof (intro allI impI)
  fix s :: "('p, 'b) sim"
  let ?I = "safe_inv Inv (block_tokens e) {#} {} fin"
  assume s: "?I s"
  then have "measurable e s" by (rule safe_measurable [OF e fit])
  moreover have "choice_ok (draw_choice e)" "sample_every e \<noteq> 0" "0 \<le> sample_seqs e"
    using e by (auto simp: good_env_def draws_ok_def)
  ultimately obtain s' where s': "take_samples e s = (Inr (), s')" "sampled s s'"
    using take_samples_ok by blast
  have "?I s'"
    by (rule safe_cong [OF s]) (use s'(2) in \<open>simp_all add: sampled_def same_queue_def\<close>)
  with s'(1) show "case take_samples e s of (Inl x, s') \<Rightarrow> may_fail Inv e x s' | (Inr _, s') \<Rightarrow> ?I s'"
    by simp
qed

lemma modify_safe:
  assumes "\<And>s. pool (f s) = pool s" "\<And>s. active (f s) = active s" "\<And>s. waiting (f s) = waiting s"
    "\<And>s. pending (f s) = pending s" "\<And>s. prefix_cache (f s) = prefix_cache s"
  shows "triple (safe_inv Inv bt H X fin) (modifyS f) (\<lambda>_. safe_inv Inv bt H X fin) E"
  using assms by (auto simp: triple_def modifyS_def intro: safe_cong)

lemma check_triple:
  fixes e :: "('p, 'b) env" and E :: "py_error \<Rightarrow> ('p, 'b) sim \<Rightarrow> bool"
  assumes e: "methods e = A"
  shows "triple (safe_inv Inv bt {#} X fin) (on_pool (m_check (methods e))) (\<lambda>_. safe_inv Inv bt {#} X fin) E"
  unfolding triple_def
proof (intro allI impI)
  fix s :: "('p, 'b) sim"
  assume s: "safe_inv Inv bt {#} X fin s"
  from check_law [OF safe_Inv [OF s]] s e
  show "case on_pool (m_check (methods e)) s of (Inl x, s') \<Rightarrow> E x s' | (Inr _, s') \<Rightarrow> safe_inv Inv bt {#} X fin s'"
    by (simp add: on_pool_def)
qed

lemma decode_phase_triple:
  fixes e :: "('p, 'b) env"
  assumes e: "good_env e" "methods e = A" and fit: "pool_fits Inv e"
  shows "triple (safe_inv Inv (block_tokens e) {#} {} {}) (decode_phase e)
    (\<lambda>_. safe_inv Inv (block_tokens e) {#} {} {}) (may_fail Inv e)"
proof -
  let ?I = "safe_inv Inv (block_tokens e) {#} {}"
  have periodic: "triple (?I {}) (periodic_check e) (\<lambda>_. ?I {}) (may_fail Inv e)"
    unfolding periodic_check_def
    by (intro triple_bind [where R = "\<lambda>_. ?I {}"] triple_get triple_if check_triple [OF e(2)] triple_ret)
  have after: "triple (?I (set fin))
     (thenS (modifyS (\<lambda>s. s\<lparr>decode_steps := decode_steps s + 1, peak_live := max (peak_live s) (num_live (pool s))\<rparr>))
     (thenS (take_samples e)
     (thenS (eachS (retire_seq e) fin)
     (thenS (periodic_check e)
     (modifyS (\<lambda>s. s\<lparr>clock := clock s + 1\<rparr>))))))
     (\<lambda>_. ?I {}) (may_fail Inv e)" for fin
    by (rule triple_then [OF modify_safe triple_then [OF samples_triple [OF e(1) fit]
        triple_then [OF retire_all_triple [OF e] triple_then [OF periodic modify_safe]]]]) simp_all
  show ?thesis
    unfolding triple_def
  proof (intro allI impI)
    fix s :: "('p, 'b) sim"
    assume s: "?I {} s"
    have "distinct ([] @ map fst (active s))" using safe_dict [OF s] by simp
    from triple_bind [OF decode_all_triple [OF e this] triple_pure [OF after]] s
    show "case decode_phase e s of (Inl x, s') \<Rightarrow> may_fail Inv e x s' | (Inr _, s') \<Rightarrow> ?I {} s'"
      by (simp add: decode_phase_def triple_def bind_get)
  qed
qed

end

section \<open>Admission\<close>

text \<open>What an admission that succeeded did: the new sequence is the youngest active one, with a table for its
  prompt.\<close>

definition entered :: "(holdings \<Rightarrow> 'p kv \<Rightarrow> bool) \<Rightarrow> int \<Rightarrow> seq_state \<Rightarrow> ('p, 'g) sim \<Rightarrow> ('p, 'g) sim \<Rightarrow> bool" where
  "entered Inv bt st s s' \<longleftrightarrow> Inv {#} (pool s') \<and> prefix_cache s' = prefix_cache s
     \<and> (\<exists>bs n. tables (pool s') = AList.update (sq_rid st) bs (tables (pool s)) \<and> int (length bs) = ceil_div (sq_length st) bt
          \<and> active s' = active s @ [(sq_rid st, st\<lparr>sq_total_blocks := n\<rparr>)])"

lemma in_dom: "(k, v) \<in> set d \<Longrightarrow> k \<in> dom (map_of d)"
  by (metis domIff fst_conv image_eqI map_of_eq_None_iff)

lemma entered_safe:
  assumes s: "safe_inv Inv bt {#} {} {} s" and st: "seq_fine {} st" "sq_rid st \<notin> dom (map_of (active s))"
    and ent: "entered Inv bt st s s'"
    and queue: "set (waiting s'') \<subseteq> set (waiting s)" "set (pending s'') \<subseteq> set (pending s)"
      "distinct (map fst (active s) @ sq_rid st # map sq_rid (waiting s'') @ map rid (pending s''))"
    and same: "pool s'' = pool s'" "active s'' = active s'" "prefix_cache s'' = prefix_cache s'"
  shows "safe_inv Inv bt {#} {} {} s''"
proof -
  obtain bs n where bs: "tables (pool s') = AList.update (sq_rid st) bs (tables (pool s))"
      "int (length bs) = ceil_div (sq_length st) bt" "active s' = active s @ [(sq_rid st, st\<lparr>sq_total_blocks := n\<rparr>)]"
    using ent by (auto simp: entered_def)
  have inv: "Inv {#} (pool s')" "prefix_cache s' = []" using ent s by (simp_all add: entered_def safe_inv_def)
  have old: "tab_len j m s'' = tab_len j m s" if "j \<noteq> sq_rid st" for j m
    using that by (simp add: tab_len_def same bs(1))
  have "\<forall>(j, v) \<in> set (active s''). sq_rid v = j \<and> seq_fine {} v \<and> (j \<in> {} \<or> tab_len j (ceil_div (sq_length v) bt) s'')"
  proof clarify
    fix j v assume jv: "(j, v) \<in> set (active s'')"
    show "sq_rid v = j \<and> seq_fine {} v \<and> (j \<in> {} \<or> tab_len j (ceil_div (sq_length v) bt) s'')"
    proof (cases "(j, v) \<in> set (active s)")
      case True
      then have "j \<in> dom (map_of (active s))" by (rule in_dom)
      then have "j \<noteq> sq_rid st" using st(2) by metis
      then show ?thesis using s True old by (auto simp: safe_inv_def)
    next
      case False
      then have "j = sq_rid st" "v = st\<lparr>sq_total_blocks := n\<rparr>" using jv by (auto simp: same bs(3))
      moreover from this have "tab_len j (ceil_div (sq_length v) bt) s''"
        using bs(1,2) by (simp add: tab_len_def same)
      ultimately show ?thesis using st(1) by (simp add: seq_fine_def)
    qed
  qed
  moreover have "distinct (rids_of s'')" using queue(3) by (simp add: rids_of_def same bs(3))
  moreover have "dom (map_of (tables (pool s''))) = dom (map_of (active s''))"
  proof -
    have "dom (map_of (active s'')) = insert (sq_rid st) (dom (map_of (active s)))"
      by (auto simp: dom_map_of_conv_image_fst same bs(3))
    moreover have "dom (map_of (tables (pool s))) = dom (map_of (active s))" using s by (simp add: safe_inv_def)
    ultimately show ?thesis by (simp add: same bs(1))
  qed
  ultimately show ?thesis
    using s queue(1,2) inv by (auto simp: safe_inv_def same)
qed

lemma new_seq_fine: "request_ok r \<Longrightarrow> seq_fine {} (new_seq r)"
  by (auto simp: request_ok_def seq_fine_def new_seq_def)

context kv_contract
begin

lemma committed_returns:
  assumes s: "safe_inv Inv bt H X fin s"
  shows "\<exists>c. committed e s = (Inr c, s)"
proof -
  have "\<exists>c. foldS (\<lambda>(k, st) acc. bindS (on_pool (get_table (sq_rid st))) (\<lambda>t.
       ret (acc + (sq_total_blocks st - int (length t) - int (length (sq_scratch st)))))) d acc s = (Inr c, s)"
    if "\<forall>(k, st) \<in> set d. sq_rid st = k \<and> k \<in> dom (map_of (tables (pool s)))" for d acc
    using that
  proof (induction d arbitrary: acc)
    case Nil
    then show ?case by (simp add: ret_def)
  next
    case (Cons p d)
    obtain k st where p: "p = (k, st)" by (cases p)
    with Cons.prems obtain t where "map_of (tables (pool s)) (sq_rid st) = Some t" by auto
    with Cons p show ?case by (simp add: prog_simps get_table_def)
  qed
  moreover have "\<forall>(k, st) \<in> set (active s). sq_rid st = k \<and> k \<in> dom (map_of (tables (pool s)))"
    using s in_dom by (fastforce simp: safe_inv_def)
  ultimately show ?thesis by (simp add: committed_def bind_get)
qed

lemma gate_returns:
  assumes "safe_inv Inv bt H X fin s"
  shows "\<exists>ok. admission_gate e needed n s = (Inr ok, s)"
  using committed_returns [OF assms, of e]
  by (auto simp: admission_gate_def free_blocks_now_def bind_get bindS_def [of "committed e"] ret_def) (auto simp: getS_def)

lemma try_admit_any:
  assumes e: "good_env e" "methods e = A" and s: "safe_inv Inv (block_tokens e) {#} {} {} s"
    and st: "seq_fine {} st" "sq_rid st \<notin> dom (map_of (active s))"
  shows "\<exists>b s'. try_admit e st s = (Inr b, s') \<and> waiting s' = waiting s \<and> pending s' = pending s
    \<and> (if b then entered Inv (block_tokens e) st s s' else safe_inv Inv (block_tokens e) {#} {} {} s' \<and> active s' = active s)"
proof -
  let ?bt = "block_tokens e"
  let ?total = "ceil_div (sq_total_len st) ?bt" and ?prompt = "ceil_div (sq_length st) ?bt"
  have np: "\<not> persistent_scratch A" and bt: "0 < ?bt" using e by (auto simp: good_env_def)
  have sps: "scratch_per_seq e = 0" using np e(2) by (simp add: scratch_per_seq_def split: option.split)
  have le: "0 \<le> ?prompt" "?prompt \<le> ?total" "0 < ?total"
    using st(1) bt by (auto simp: seq_fine_def intro: ceil_div_nonneg ceil_div_mono ceil_div_pos)
  obtain ok where gate: "admission_gate e ?total ?prompt s = (Inr ok, s)" using gate_returns [OF s] by blast
  have prefix: "shared_prefix e st ?prompt ?total s = (Inr (Some []), s)"
    using st(1) by (simp add: shared_prefix_def seq_fine_def ret_def)
  show ?thesis
  proof (cases ok)
    case False
    then have "try_admit e st s = (Inr False, s)"
      using gate prefix sps by (simp add: try_admit_def Let_def bindS_def ret_def)
    with s show ?thesis by (intro exI [of _ False] exI [of _ s]) simp
  next
    case True
    have none: "map_of (tables (pool s)) (sq_rid st) = None" using st(2) s by (auto simp: safe_inv_def domIff)
    obtain res p' where adm: "m_admit A (sq_rid st) ?prompt ?total (pool s) = (res, p')" by fastforce
    note law = admit_law [OF safe_Inv [OF s] le, of "sq_rid st", unfolded adm none]
    show ?thesis
    proof (cases res)
      case (Inl x)
      with law have x: "x = AdmissionFailure" "same_tables (pool s) p'" "Inv {#} p'" by simp_all
      let ?s' = "s\<lparr>pool := p', frag_failures := frag_failures s + 1\<rparr>"
      have "try_admit e st s = (Inr False, ?s')"
        using gate prefix sps True adm Inl x(1) e(2)
        by (simp add: try_admit_def Let_def bindS_def ret_def catch_admission_def thenS_def on_pool_def modifyS_def)
      moreover have "safe_inv Inv ?bt {#} {} {} (s\<lparr>pool := p'\<rparr>)"
        by (rule safe_pool [OF s x(3)]) (use x(2) in \<open>simp_all add: same_tables_def\<close>)
      then have "safe_inv Inv ?bt {#} {} {} ?s'" by (rule safe_cong) simp_all
      ultimately show ?thesis by (intro exI [of _ False] exI [of _ ?s']) simp
    next
      case (Inr bs)
      with law have bs: "length bs = nat ?prompt" "tables p' = AList.update (sq_rid st) bs (tables (pool s))" "Inv {#} p'"
        by simp_all
      let ?st = "st\<lparr>sq_total_blocks := ?total\<rparr>"
      let ?s' = "s\<lparr>pool := p', active := AList.update (sq_rid st) ?st (active s)\<rparr>"
      have scr: "?st\<lparr>sq_scratch := sq_scratch st\<rparr> = ?st" by simp
      have "try_admit e st s = (Inr True, ?s')"
        using gate prefix sps True adm Inr e(2) scr
        by (simp add: try_admit_def Let_def bindS_def ret_def catch_admission_def thenS_def on_pool_def modifyS_def enter_active_def)
      moreover have "entered Inv ?bt st s ?s'"
        using bs le(1) st(2) by (auto simp: entered_def update_new domIff intro!: exI [of _ bs])
      ultimately show ?thesis by (intro exI [of _ True] exI [of _ ?s']) simp
    qed
  qed
qed

end

lemma safe_queue:
  assumes s: "safe_inv Inv bt H X fin s" and same: "pool s' = pool s" "active s' = active s" "prefix_cache s' = prefix_cache s"
    and queue: "set (waiting s') \<subseteq> set (waiting s)" "set (pending s') \<subseteq> set (pending s)" "distinct (rids_of s')"
  shows "safe_inv Inv bt H X fin s'"
  using s queue unfolding safe_inv_def same tab_len_def by auto

context kv_contract
begin

lemma admit_waiting_any:
  assumes e: "good_env e" "methods e = A"
  shows "safe_inv Inv (block_tokens e) {#} {} {} s \<Longrightarrow> waiting s = ws \<Longrightarrow>
    \<exists>b s'. admit_waiting e ws s = (Inr b, s') \<and> safe_inv Inv (block_tokens e) {#} {} {} s'"
proof (induction ws arbitrary: s)
  case Nil
  then show ?case by (intro exI [of _ False] exI [of _ s]) (simp add: ret_def)
next
  case (Cons st rest)
  let ?I = "safe_inv Inv (block_tokens e) {#} {} {}"
  have d: "distinct (map fst (active s) @ sq_rid st # map sq_rid rest @ map rid (pending s))"
    using Cons.prems by (simp add: safe_inv_def rids_of_def)
  have fine: "seq_fine {} st" using Cons.prems by (simp add: safe_inv_def)
  have new: "sq_rid st \<notin> dom (map_of (active s))" using d by (simp add: dom_map_of_conv_image_fst)
  show ?case
  proof (cases "int (length (active s)) < max_batch e")
    case False
    with Cons.prems(1) show ?thesis by (intro exI [of _ False] exI [of _ s]) (simp add: bind_get ret_def)
  next
    case space: True
    have drop: "?I (s'\<lparr>waiting := rest, dropped := dropped s' @ [sq_rid st]\<rparr>)"
      if "?I s'" "waiting s' = st # rest" for s'
      by (rule safe_queue [OF that(1)]) (use that in \<open>auto simp: safe_inv_def rids_of_def\<close>)
    show ?thesis
    proof (cases "sq_preempts st > 1000 \<or> ceil_div (sq_length st + 1) (block_tokens e) > int (num_blocks (pool s))")
      case True
      from Cons.IH [OF drop [OF Cons.prems]] space True show ?thesis
        by (simp add: bind_get then_modify drop_request_def)
    next
      case False
      obtain b s' where tried: "try_admit e st s = (Inr b, s')" "waiting s' = waiting s" "pending s' = pending s"
          "if b then entered Inv (block_tokens e) st s s' else ?I s' \<and> active s' = active s"
        using try_admit_any [OF e Cons.prems(1) fine new] by blast
      show ?thesis
      proof (cases b)
        case True
        have "?I (s'\<lparr>waiting := rest\<rparr>)"
          by (rule entered_safe [OF Cons.prems(1) fine new, of s']) (use True tried Cons.prems(2) d in auto)
        from Cons.IH [OF this] space False tried(1) True show ?thesis
          by (simp add: bind_get then_modify bindS_def [of "try_admit _ _"])
      next
        case no: False
        show ?thesis
        proof (cases "active s = []")
          case True
          from Cons.IH [OF drop [of s']] space False tried no True Cons.prems(2) show ?thesis
            by (simp add: bind_get then_modify bindS_def [of "try_admit _ _"] drop_request_def)
        next
          case busy: False
          from space False tried no busy show ?thesis
            by (intro exI [of _ True] exI [of _ s']) (simp add: bind_get bindS_def [of "try_admit _ _"] ret_def)
        qed
      qed
    qed
  qed
qed

lemma admit_arrivals_any:
  assumes e: "good_env e" "methods e = A"
  shows "safe_inv Inv (block_tokens e) {#} {} {} s \<Longrightarrow> pending s = rs \<Longrightarrow>
    \<exists>s'. admit_arrivals e rs s = (Inr (), s') \<and> safe_inv Inv (block_tokens e) {#} {} {} s'"
proof (induction rs arbitrary: s)
  case Nil
  then show ?case by (simp add: ret_def)
next
  case (Cons r rest)
  let ?I = "safe_inv Inv (block_tokens e) {#} {} {}"
  have d: "distinct (map fst (active s) @ map sq_rid (waiting s) @ rid r # map rid rest)"
    using Cons.prems by (simp add: safe_inv_def rids_of_def)
  have fine: "seq_fine {} (new_seq r)" using Cons.prems by (intro new_seq_fine) (simp add: safe_inv_def)
  have rid: "sq_rid (new_seq r) = rid r" by (simp add: new_seq_def)
  have new: "sq_rid (new_seq r) \<notin> dom (map_of (active s))" using d by (simp add: dom_map_of_conv_image_fst rid)
  show ?case
  proof (cases "arrival_step r \<le> clock s \<and> int (length (active s)) < max_batch e")
    case False
    with Cons.prems(1) show ?thesis by (simp add: bind_get ret_def)
  next
    case go: True
    obtain b s' where tried: "try_admit e (new_seq r) s = (Inr b, s')" "waiting s' = waiting s" "pending s' = pending s"
        "if b then entered Inv (block_tokens e) (new_seq r) s s' else ?I s' \<and> active s' = active s"
      using try_admit_any [OF e Cons.prems(1) fine new] by blast
    show ?thesis
    proof (cases b)
      case True
      have "?I (s'\<lparr>pending := rest\<rparr>)"
        by (rule entered_safe [OF Cons.prems(1) fine new, of s']) (use True tried Cons.prems(2) d rid in auto)
      from Cons.IH [OF this] go tried(1) True show ?thesis
        by (simp add: bind_get then_modify bindS_def [of "try_admit _ _"])
    next
      case no: False
      show ?thesis
      proof (cases "active s = []")
        case True
        have "?I (s'\<lparr>dropped := dropped s' @ [rid r], pending := rest\<rparr>)"
          by (rule safe_queue [of _ _ _ _ _ s']) (use tried no Cons.prems(2) d in \<open>auto simp: safe_inv_def rids_of_def\<close>)
        from Cons.IH [OF this] go tried no True show ?thesis
          by (simp add: bind_get then_modify bindS_def [of "try_admit _ _"] drop_request_def)
      next
        case busy: False
        from go tried no busy show ?thesis by (simp add: bind_get bindS_def [of "try_admit _ _"] ret_def)
      qed
    qed
  qed
qed

section \<open>Whole runs\<close>

lemma sim_step_triple:
  fixes e :: "('p, 'b) env"
  assumes e: "good_env e" "methods e = A" and fit: "pool_fits Inv e"
  shows "triple (safe_inv Inv (block_tokens e) {#} {} {}) (sim_step e) (\<lambda>_. safe_inv Inv (block_tokens e) {#} {} {}) (may_fail Inv e)"
  unfolding triple_def
proof (intro allI impI)
  fix s :: "('p, 'b) sim"
  let ?I = "safe_inv Inv (block_tokens e) {#} {} {}"
  assume s: "?I s"
  obtain b s1 where s1: "admit_waiting e (waiting s) s = (Inr b, s1)" "?I s1" using admit_waiting_any [OF e s] by blast
  obtain s2 where s2: "admit_phase e s = (Inr (), s2)" "?I s2"
  proof (cases b)
    case True
    then show ?thesis using that s1 by (simp add: admit_phase_def bind_get bindS_def [of "admit_waiting _ _"] ret_def)
  next
    case False
    obtain s2 where "admit_arrivals e (pending s1) s1 = (Inr (), s2)" "?I s2" using admit_arrivals_any [OF e s1(2)] by blast
    then show ?thesis using that s1(1) False by (simp add: admit_phase_def bind_get bindS_def [of "admit_waiting _ _"])
  qed
  show "case sim_step e s of (Inl x, s') \<Rightarrow> may_fail Inv e x s' | (Inr _, s') \<Rightarrow> ?I s'"
  proof (cases "active s2 = []")
    case True
    have "?I (s2\<lparr>clock := max (clock s2 + 1) (arrival_step r)\<rparr>)" for r :: request by (rule safe_cong [OF s2(2)]) simp_all
    then show ?thesis
      using s2 True by (simp add: sim_step_def thenS_def bindS_def getS_def modifyS_def ret_def split: list.split)
  next
    case False
    have "triple ?I (thenS (decode_phase e) (ret True)) (\<lambda>_. ?I) (may_fail Inv e)"
      by (rule triple_then [OF decode_phase_triple [OF e fit]]) (simp add: triple_def ret_def)
    with s2 False show ?thesis by (simp add: sim_step_def thenS_def bindS_def [of "admit_phase _"] bind_get triple_def)
  qed
qed

lemma sim_loop_triple:
  fixes e :: "('p, 'b) env"
  assumes e: "good_env e" "methods e = A" and fit: "pool_fits Inv e"
  shows "triple (safe_inv Inv (block_tokens e) {#} {} {}) (sim_loop fuel e) (\<lambda>_. safe_inv Inv (block_tokens e) {#} {} {}) (may_fail Inv e)"
proof (induction fuel)
  case 0
  then show ?case by (simp add: triple_def ret_def)
next
  case (Suc fuel)
  let ?I = "safe_inv Inv (block_tokens e) {#} {} {}"
  have "triple ?I (bindS (sim_step e) (\<lambda>more. if more then sim_loop fuel e else ret (Some ()))) (\<lambda>_. ?I) (may_fail Inv e)"
  proof (rule triple_bind [OF sim_step_triple [OF e fit]])
    show "triple ?I (if more then sim_loop fuel e else ret (Some ())) (\<lambda>_. ?I) (may_fail Inv e)" for more
      using Suc by (simp add: triple_def ret_def)
  qed
  then show ?case by (simp add: triple_def bind_get ret_def)
qed

text \<open>The verdict on a run: conservation in every case, and the errors that are possible.\<close>

lemma simulate_safe_fits:
  fixes e :: "('p, 'b) env"
  assumes p: "Inv {#} p" "tables p = []" and fit: "pool_fits Inv e" and e: "good_env e" "methods e = A" "admission e \<in> {''oracle'', ''vllm''}"
    and rs: "\<forall>r \<in> set rs. request_ok r" "distinct (map rid rs)" and chk: "checks_pass e p"
    and run: "simulate fuel e (sim_init rs p g gs) = (out, s)"
  shows "m_check A (pool s) = (Inr (), pool s)
    \<and> (case out of Inr _ \<Rightarrow> \<forall>(k, st) \<in> set (active s). tab_len k (ceil_div (sq_length st) (block_tokens e)) s
        | Inl x \<Rightarrow> x = KeyError \<or> x = AdmissionFailure \<and> admission e = ''oracle'')"
proof -
  let ?s = "sim_init rs p g gs" and ?I = "safe_inv Inv (block_tokens e) {#} {} {}"
  have "distinct (map rid (sort_key (\<lambda>r. (arrival_step r, rid r)) rs))"
    using rs(2) by (metis mset_map mset_sort mset_eq_imp_distinct_iff)
  then have start: "?I ?s" using p rs by (simp add: safe_inv_def sim_init_def rids_of_def)
  have np: "\<not> persistent_scratch (methods e)" using e by (simp add: good_env_def)
  have checks: "sim_checks e ?s = (Inr (), ?s)"
    using chk e(3) np by (simp add: sim_checks_def checks_pass_def sim_init_def prog_simps Let_def not_less)
  have finish: "triple ?I (thenS (sim_finish e) (ret (Some ()))) (\<lambda>_. ?I) (may_fail Inv e)"
    unfolding triple_def
  proof (intro allI impI)
    fix s :: "('p, 'b) sim"
    assume s: "?I s"
    then have "prefix_cache s = []" by (simp add: safe_inv_def)
    then have "thenS (sim_finish e) (ret (Some ())) s = (Inr (Some ()), s)"
      using check_law [OF safe_Inv [OF s]] e(2) by (simp add: sim_finish_def prog_simps)
    with s show "case thenS (sim_finish e) (ret (Some ())) s of (Inl x, s') \<Rightarrow> may_fail Inv e x s' | (Inr _, s') \<Rightarrow> ?I s'" by simp
  qed
  have "triple ?I (bindS (sim_loop fuel e) (\<lambda>r. case r of None \<Rightarrow> ret None | Some _ \<Rightarrow> thenS (sim_finish e) (ret (Some ()))))
    (\<lambda>_. ?I) (may_fail Inv e)"
  proof (rule triple_bind [OF sim_loop_triple [OF e(1,2) fit]])
    fix r
    show "triple ?I (case r of None \<Rightarrow> ret None | Some _ \<Rightarrow> thenS (sim_finish e) (ret (Some ()))) (\<lambda>_. ?I) (may_fail Inv e)"
      using finish by (cases r) (simp_all add: triple_def ret_def)
  qed
  then have "case simulate fuel e ?s of (Inl x, s') \<Rightarrow> may_fail Inv e x s' | (Inr _, s') \<Rightarrow> ?I s'"
    using start checks by (simp add: triple_def simulate_def thenS_def bindS_def [of "sim_checks _"])
  then have v: "case out of Inl x \<Rightarrow> may_fail Inv e x s | Inr _ \<Rightarrow> ?I s" by (simp add: run)
  show ?thesis
  proof (cases out)
    case (Inl x)
    then obtain H where "Inv H (pool s)" "x = KeyError \<or> x = AdmissionFailure \<and> admission e = ''oracle''"
      using v by (auto simp: may_fail_def)
    with check_law Inl show ?thesis by auto
  next
    case (Inr r)
    with v have "?I s" by simp
    with check_law [OF safe_Inv [OF this]] Inr show ?thesis by (auto simp: safe_inv_def)
  qed
qed

end

lemma simulate_safe:
  fixes p :: "'p kv" and e :: "('p, 'b) env"
  assumes A: "kv_contract A Inv" and p: "Inv {#} p" "tables p = []"
    and e: "good_env e" "methods e = A" "admission e \<in> {''oracle'', ''vllm''}"
    and rs: "\<forall>r \<in> set rs. request_ok r" "distinct (map rid rs)" and chk: "checks_pass e p"
    and run: "simulate fuel e (sim_init rs p g gs) = (out, s)"
  shows "m_check A (pool s) = (Inr (), pool s)
    \<and> (case out of Inr _ \<Rightarrow> \<forall>(k, st) \<in> set (active s). tab_len k (ceil_div (sq_length st) (block_tokens e)) s
        | Inl x \<Rightarrow> x = KeyError \<or> x = AdmissionFailure \<and> admission e = ''oracle'')"
  using p(1)
  by (intro kv_contract.simulate_safe_fits [OF kv_contract.fixed_pool [OF A, of "num_blocks p"] _ p(2)
        pool_fits_fixed [OF chk] e rs chk run]) simp

end
