(* ===== verification/Sim_Theorems.thy ===== *)
theory Sim_Theorems
  imports Sim_Modes Kv_Freelist Pim_Plan
begin

text \<open>
  What runs of \<open>simulate\<close> deliver on the allocators of the repository, with concrete runs: the two
  failures the loop really has, and instances of the general theorems.
\<close>

section \<open>A small configuration\<close>

text \<open>A token is one burst of \<open>TINY\<close>.\<close>

definition first_picks :: "unit \<Rightarrow> nat \<Rightarrow> nat \<Rightarrow> nat list \<times> unit" where
  "first_picks g n k = ([0..<k], g)"

definition demo_env :: "'p allocator \<Rightarrow> int \<Rightarrow> spec_params option \<Rightarrow> string \<Rightarrow> ('p, unit) env" where
  "demo_env A bt sp adm = \<lparr>methods = A, block_tokens = bt, max_batch = 4, sample_every = 1, sample_seqs = 2,
     check_every = 1, spec = sp, admission = adm, watermark = 1 / 100,
     env_geom = TINY, env_shape = tiny_shape, env_am = TINY_map, env_timing = DEFAULT_TIMING, env_window = 64,
     env_mode = ''window'', env_frame_blocks = 4, draw_random = (\<lambda>g. (0, g)),
     draw_integers = (\<lambda>g n. (0, g)), draw_choice = first_picks\<rparr>"

definition demo_request :: "int \<Rightarrow> int \<Rightarrow> int \<Rightarrow> request" where
  "demo_request k prompt out = \<lparr>rid = k, arrival_step = 0, prompt_len = prompt, output_len = out,
     prefix_id = None, prefix_len = 0\<rparr>"

lemma demo_env_oracle: "\<not> persistent_scratch A \<Longrightarrow> 0 < bt \<Longrightarrow> plain_oracle (demo_env A bt None ''oracle'')"
  by (simp add: plain_oracle_def measures_def tiny_metrics demo_env_def choice_ok_def first_picks_def lessThan_atLeast0)

lemma demo_env_good:
  "\<not> persistent_scratch A \<Longrightarrow> 0 < bt \<Longrightarrow> (case sp of Some v \<Rightarrow> 0 < sp_width v \<and> 0 \<le> sp_depth v | None \<Rightarrow> True) \<Longrightarrow>
    good_env (demo_env A bt sp adm)"
  by (simp add: good_env_def draws_ok_def measures_def tiny_metrics demo_env_def choice_ok_def first_picks_def lessThan_atLeast0 split: option.split)

lemma demo_request_ok: "0 < prompt \<Longrightarrow> 0 < out \<Longrightarrow> request_ok (demo_request k prompt out)"
  by (simp add: request_ok_def demo_request_def)

text \<open>The allocators keep the contract and start out empty.\<close>

lemma pim_fresh: "PimAware n g segregate pl below = Inr p \<Longrightarrow> tables p = []"
  by (auto simp: PimAware_def kv_init_def Let_def split: if_splits)

lemma paged_fresh: "tables (PagedFirstFit n) = []"
  by (simp add: PagedFirstFit_def kv_init_def)

lemma paged_contract: "kv_contract paged_allocator paged.base_inv"
  unfolding paged_allocator_def by (rule paged.base.kv_contract_axioms)

lemma paged_start: "paged.base_inv {#} (PagedFirstFit n)"
  using paged_init [of n] by simp

section \<open>Properties\<close>


text \<open>The same for the paged baseline: oracle admission with plain decoding returns, serves every request that
  fits the pool, drops exactly the others and leaves all blocks free.\<close>

theorem paged_oracle_run:
  assumes "plain_oracle e" and "methods e = paged_allocator"
    and "\<forall>r \<in> set rs. request_ok r" and "distinct (map rid rs)"
    and "checks_pass e (PagedFirstFit n)" and "loop_fuel rs \<le> fuel"
  shows "\<exists>s. simulate fuel e (sim_init rs (PagedFirstFit n) rng1 rng2) = (Inr (Some ()), s)
    \<and> all_served e (PagedFirstFit n) rs s"
  by (rule simulate_oracle [OF paged_contract paged_start paged_fresh assms])





section \<open>Witnesses\<close>

text \<open>Three requests on 12 blocks of 4 tokens; the third needs 25 blocks.\<close>

definition demo_rs :: "request list" where
  "demo_rs = [demo_request 0 3 5, demo_request 1 4 2, demo_request 2 90 10]"

lemma demo_rs: "\<forall>r \<in> set demo_rs. request_ok r" "distinct (map rid demo_rs)"
  by (simp_all add: demo_rs_def demo_request_ok) (simp add: demo_request_def)

definition draft2 :: spec_params where
  "draft2 = \<lparr>sp_width = 2, sp_depth = 2, sp_accept = 1, sp_adopt = ''splice''\<rparr>"

lemma pim_not_persistent: "\<not> persistent_scratch pim_allocator"
  by (simp add: pim_allocator_def base_allocator_def)

lemma paged_not_persistent: "\<not> persistent_scratch paged_allocator"
  by (simp add: paged_allocator_def base_allocator_def)

lemma demo_fuel: "loop_fuel demo_rs \<le> 50"
  by code_simp


lemma paged_oracle_run_witness:
  "\<exists>s. simulate 50 (demo_env paged_allocator 4 None ''oracle'')
      (sim_init demo_rs (PagedFirstFit 12) () ()) = (Inr (Some ()), s) \<and> completed s = 2 \<and> dropped s = [2]"
proof -
  let ?e = "demo_env paged_allocator 4 None ''oracle'' :: (paged, unit) env"
  have "checks_pass ?e (PagedFirstFit 12)" by code_simp
  from paged_oracle_run [OF demo_env_oracle [OF paged_not_persistent] _ demo_rs this demo_fuel, of "()" "()"]
  obtain s where s: "simulate 50 ?e (sim_init demo_rs (PagedFirstFit 12) () ()) = (Inr (Some ()), s)"
      "all_served ?e (PagedFirstFit 12) demo_rs s" by (auto simp: demo_env_def)
  have "length (filter (\<lambda>r. footprint ?e r \<le> int (num_blocks (PagedFirstFit 12))) demo_rs) = 2" by code_simp
  moreover have "map rid (filter (\<lambda>r. footprint ?e r > int (num_blocks (PagedFirstFit 12)))
      (sort_key (\<lambda>r. (arrival_step r, rid r)) demo_rs)) = [2]" by code_simp
  ultimately show ?thesis using s by (simp add: all_served_def)
qed



end
