(* ===== verification/Pim_Stream.thy ===== *)
theory Pim_Stream
  imports Pim_Metrics
begin

text \<open>
  The command stream \<open>coalesce_channel_stream\<close> that is replayed on the cycle-level simulators, against
  the counting implementation all reported metrics come from: the same number of commands always, and row
  hits that agree up to one per window boundary.
\<close>

section \<open>Streams\<close>

text \<open>A burst with its column.\<close>

type_synonym cburst = "burst \<times> int"

definition stream_inorder_step ::
  "int \<Rightarrow> (int \<times> int) list \<times> int \<times> int \<times> int list \<Rightarrow> cburst \<Rightarrow> (int \<times> int) list \<times> int \<times> int \<times> int list" where
  "stream_inorder_step B = (\<lambda>(out, cur_row, cur_col, cur_banks) ((b, r), c).
     if r \<noteq> cur_row \<or> b \<in> set cur_banks \<or> int (length cur_banks) = B
     then ((if cur_row \<noteq> - 1 then out @ [(cur_row, cur_col)] else out), r, c, [b])
     else (out, cur_row, cur_col, b # cur_banks))"

definition stream_inorder :: "int \<Rightarrow> cburst list \<Rightarrow> (int \<times> int) list" where
  "stream_inorder B bursts =
     (let (out, cur_row, cur_col, cur_banks) = foldl (stream_inorder_step B) ([], - 1, 0, []) bursts in
      if cur_row \<noteq> - 1 then out @ [(cur_row, cur_col)] else out)"

text \<open>The groups of a window with a representative column: the first burst of the row in the stable order by
  key.\<close>

definition row_column :: "int \<Rightarrow> cburst list \<Rightarrow> int \<Rightarrow> int" where
  "row_column B w r = snd (hd (filter (\<lambda>x. burst_key B (fst x) div B = r) (sort_key (\<lambda>x. burst_key B (fst x)) w)))"

definition stream_groups :: "int \<Rightarrow> cburst list \<Rightarrow> (int \<times> int \<times> int) list" where
  "stream_groups B w = map (\<lambda>(r, m). (r, m, row_column B w r)) (win_rows B (map fst w))"

text \<open>\<open>groups.append(groups.pop(j))\<close> and \<open>groups.insert(0, groups.pop(i))\<close> for the first group of a row, if any.\<close>

definition group_last :: "int \<Rightarrow> (int \<times> 'a) list \<Rightarrow> (int \<times> 'a) list" where
  "group_last r gs = (case dropWhile (\<lambda>g. fst g \<noteq> r) gs of
     g # rest \<Rightarrow> if length gs > 1 then takeWhile (\<lambda>g. fst g \<noteq> r) gs @ rest @ [g] else gs
   | [] \<Rightarrow> gs)"

definition group_first :: "int \<Rightarrow> (int \<times> 'a) list \<Rightarrow> (int \<times> 'a) list" where
  "group_first r gs = (case dropWhile (\<lambda>g. fst g \<noteq> r) gs of
     g # rest \<Rightarrow> g # takeWhile (\<lambda>g. fst g \<noteq> r) gs @ rest
   | [] \<Rightarrow> gs)"

definition emit_groups :: "(int \<times> int \<times> int) list \<Rightarrow> (int \<times> int) list" where
  "emit_groups gs = concat (map (\<lambda>(r, m, c). replicate (nat m) (r, c)) gs)"

definition stream_order :: "int \<Rightarrow> int \<Rightarrow> cburst list \<Rightarrow> (int \<times> int \<times> int) list" where
  "stream_order B carry w = group_first carry (group_last (snd (fst (last w))) (stream_groups B w))"

definition stream_window_step ::
  "int \<Rightarrow> (int \<times> int) list \<times> int \<Rightarrow> cburst list \<Rightarrow> (int \<times> int) list \<times> int" where
  "stream_window_step B = (\<lambda>(out, carry) w. (out @ emit_groups (stream_order B carry w), snd (fst (last w))))"

definition coalesce_channel_stream ::
  "int \<Rightarrow> int \<Rightarrow> string \<Rightarrow> cburst list \<Rightarrow> py_error + (int \<times> int) list" where
  "coalesce_channel_stream B window mode bursts =
     (if bursts = [] then Inr []
      else if mode = ''inorder'' then Inr (stream_inorder B bursts)
      else if mode \<noteq> ''window'' then Inl ValueError
      else case windows window bursts of
        Inl e \<Rightarrow> Inl e
      | Inr ws \<Rightarrow> Inr (fst (foldl (stream_window_step B) ([], - 1) ws)))"

section \<open>In order: the same commands\<close>

lemma stream_inorder_fold:
  assumes "\<forall>p \<in> set ps. 0 \<le> snd (fst p)" and "0 \<le> row"
  shows "let (n, h, op, cr, cb) = foldl (inorder_step B) (int (length out), row_hits (- 1) (map fst out),
        (if out = [] then - 1 else fst (last out)), row, banks) (map fst ps);
      (out', cr', cc', cb') = foldl (stream_inorder_step B) (out, row, col, banks) ps
    in n = int (length out') \<and> h = row_hits (- 1) (map fst out') \<and> op = (if out' = [] then - 1 else fst (last out'))
       \<and> cr = cr' \<and> cb = cb' \<and> 0 \<le> cr"
  using assms
proof (induction ps arbitrary: out row col banks)
  case Nil
  then show ?case by simp
next
  case (Cons p ps)
  obtain b r c where p: "p = ((b, r), c)" by (metis prod.collapse)
  have hits: "row_hits x (rs @ [y]) = row_hits x rs + (if y = (if rs = [] then x else last rs) then 1 else 0)" for x y rs
    by (induction rs arbitrary: x) auto
  show ?case
  proof (cases "r \<noteq> row \<or> b \<in> set banks \<or> int (length banks) = B")
    case True
    let ?out = "out @ [(row, col)]"
    have "inorder_step B (int (length out), row_hits (- 1) (map fst out), if out = [] then - 1 else fst (last out), row, banks) (fst p)
        = (int (length ?out), row_hits (- 1) (map fst ?out), if ?out = [] then - 1 else fst (last ?out), r, [b])"
      using True Cons.prems(2) by (auto simp: inorder_step_def p hits last_map)
    moreover have "stream_inorder_step B (out, row, col, banks) p = (?out, r, c, [b])"
      using True Cons.prems(2) by (auto simp: stream_inorder_step_def p)
    moreover have "\<forall>p \<in> set ps. 0 \<le> snd (fst p)" "0 \<le> r" using Cons.prems(1) p by auto
    ultimately show ?thesis using Cons.IH [of r ?out "[b]" c] by (simp only: list.map foldl_Cons)
  next
    case False
    have "inorder_step B (int (length out), row_hits (- 1) (map fst out), if out = [] then - 1 else fst (last out), row, banks) (fst p)
        = (int (length out), row_hits (- 1) (map fst out), if out = [] then - 1 else fst (last out), row, b # banks)"
      using False by (auto simp: inorder_step_def p)
    moreover have "stream_inorder_step B (out, row, col, banks) p = (out, row, col, b # banks)"
      using False by (auto simp: stream_inorder_step_def p)
    moreover have "\<forall>p \<in> set ps. 0 \<le> snd (fst p)" using Cons.prems(1) by simp
    ultimately show ?thesis using Cons.IH [of row out "b # banks" col] Cons.prems(2) by (simp only: list.map foldl_Cons)
  qed
qed

lemma stream_inorder_counts:
  assumes "\<forall>p \<in> set bursts. 0 \<le> snd (fst p)"
  shows "coalesce_inorder B (map fst bursts)
    = (int (length (stream_inorder B bursts)), row_hits (- 1) (map fst (stream_inorder B bursts)), int (length bursts))"
proof (cases bursts)
  case Nil
  then show ?thesis by (simp add: coalesce_inorder_def stream_inorder_def)
next
  case (Cons p ps)
  obtain b r c where p: "p = ((b, r), c)" by (metis prod.collapse)
  have hits: "row_hits x (rs @ [y]) = row_hits x rs + (if y = (if rs = [] then x else last rs) then 1 else 0)" for x y rs
    by (induction rs arbitrary: x) auto
  have r: "0 \<le> r" "\<forall>p \<in> set ps. 0 \<le> snd (fst p)" using assms Cons p by auto
  have first: "inorder_step B (0, 0, - 1, - 1, []) (fst p) = (0, 0, - 1, r, [b])"
    "stream_inorder_step B ([], - 1, 0, []) p = ([], r, c, [b])"
    using r(1) p by (auto simp: inorder_step_def stream_inorder_step_def)
  obtain n h op cr cb where f: "foldl (inorder_step B) (0, 0, - 1, r, [b]) (map fst ps) = (n, h, op, cr, cb)"
    by (metis prod.collapse)
  obtain out cr' cc cb' where g: "foldl (stream_inorder_step B) ([], r, c, [b]) ps = (out, cr', cc, cb')"
    by (metis prod.collapse)
  have "n = int (length out)" "h = row_hits (- 1) (map fst out)" "op = (if out = [] then - 1 else fst (last out))"
    "cr = cr'" "cb = cb'" "0 \<le> cr"
    using stream_inorder_fold [OF r(2,1), of B "[]" "[b]" c] f g by simp_all
  then show ?thesis
    using Cons first f g by (auto simp: coalesce_inorder_def stream_inorder_def hits last_map)
qed

section \<open>Windows: the same count, nearly the same hits\<close>

lemma group_last_mset: "mset (group_last r gs) = mset gs"
proof (cases "dropWhile (\<lambda>g. fst g \<noteq> r) gs")
  case (Cons g rest)
  have "mset (takeWhile (\<lambda>g. fst g \<noteq> r) gs @ g # rest) = mset gs" using takeWhile_dropWhile_id [of _ gs] Cons by metis
  then show ?thesis using Cons by (simp add: group_last_def)
qed (simp add: group_last_def del: dropWhile_eq_Nil_conv)

lemma group_first_mset: "mset (group_first r gs) = mset gs"
proof (cases "dropWhile (\<lambda>g. fst g \<noteq> r) gs")
  case (Cons g rest)
  have "mset (takeWhile (\<lambda>g. fst g \<noteq> r) gs @ g # rest) = mset gs" using takeWhile_dropWhile_id [of _ gs] Cons by metis
  then show ?thesis using Cons by (simp add: group_first_def)
qed (simp add: group_first_def del: dropWhile_eq_Nil_conv)

lemma drop_found:
  assumes "r \<in> fst ` set gs"
  shows "\<exists>g rest. dropWhile (\<lambda>g. fst g \<noteq> r) gs = g # rest \<and> fst g = r"
proof -
  have "dropWhile (\<lambda>g. fst g \<noteq> r) gs \<noteq> []" using assms by (auto simp: dropWhile_eq_Nil_conv)
  then show ?thesis using hd_dropWhile [of "\<lambda>g. fst g \<noteq> r" gs] by (metis list.exhaust_sel)
qed

lemma group_last_last:
  assumes "r \<in> fst ` set gs"
  shows "fst (last (group_last r gs)) = r"
proof -
  obtain g rest where d: "dropWhile (\<lambda>g. fst g \<noteq> r) gs = g # rest" "fst g = r" using drop_found [OF assms] by blast
  show ?thesis
  proof (cases "length gs > 1")
    case True
    then show ?thesis using d by (simp add: group_last_def)
  next
    case False
    then have "gs = [g]" using d(1) assms by (cases gs; cases "tl gs") (auto split: if_splits)
    then show ?thesis using d by (simp add: group_last_def)
  qed
qed

lemma group_first_hd:
  assumes "r \<in> fst ` set gs"
  shows "fst (hd (group_first r gs)) = r"
  using drop_found [OF assms] by (auto simp: group_first_def)

lemma group_first_absent: "r \<notin> fst ` set gs \<Longrightarrow> group_first r gs = gs"
proof -
  assume "r \<notin> fst ` set gs"
  then have "dropWhile (\<lambda>g. fst g \<noteq> r) gs = []" by (auto simp: dropWhile_eq_Nil_conv)
  then show ?thesis by (simp add: group_first_def del: dropWhile_eq_Nil_conv)
qed

text \<open>Moving another row's group to the front leaves the last group last.\<close>

lemma group_first_last:
  assumes "gs \<noteq> []" and "r \<noteq> fst (last gs) \<or> length gs = 1"
  shows "last (group_first r gs) = last gs"
proof (cases "r \<in> fst ` set gs")
  case True
  obtain g rest where d: "dropWhile (\<lambda>g. fst g \<noteq> r) gs = g # rest" "fst g = r" using drop_found [OF True] by blast
  have split: "gs = takeWhile (\<lambda>g. fst g \<noteq> r) gs @ g # rest" using takeWhile_dropWhile_id [of _ gs] d(1) by metis
  show ?thesis
  proof (cases rest)
    case Nil
    then have "fst (last gs) = r" using split d(2) by (metis last_snoc)
    then have "length gs = 1" using assms(2) by simp
    then have "takeWhile (\<lambda>g. fst g \<noteq> r) gs = []" using split by (metis One_nat_def add_is_1 length_0_conv length_append list.size(4) nat.distinct(1) length_Cons)
    then show ?thesis using d(1) Nil split by (simp add: group_first_def)
  next
    case (Cons x xs)
    then have "last gs = last rest" using split by (metis last_ConsR last_append list.distinct(1))
    then show ?thesis using d(1) Cons by (simp add: group_first_def)
  qed
qed (simp add: group_first_absent)

text \<open>Row hits of a list of groups with different rows.\<close>

lemma hits_replicate: "row_hits x (replicate (Suc n) r @ rs) = (if r = x then 1 else 0) + int n + row_hits r rs"
  by (induction n arbitrary: x) auto

lemma emit_hits:
  assumes "distinct (map fst gs)" and "\<forall>(r, m, c) \<in> set gs. 1 \<le> m" and "gs \<noteq> []"
  shows "row_hits x (map fst (emit_groups gs) @ rs)
    = (if fst (hd gs) = x then 1 else 0) + (sum_list (map (\<lambda>g. fst (snd g)) gs) - int (length gs)) + row_hits (fst (last gs)) rs"
  using assms
proof (induction gs arbitrary: x)
  case (Cons g gs)
  obtain r m c where g: "g = (r, m, c)" by (cases g)
  then have m: "1 \<le> m" using Cons.prems by simp
  then obtain n where n: "nat m = Suc n" "m = int n + 1" by (metis One_nat_def Suc_pred add.commute int_nat_eq le_zero_eq nat_mono not_one_le_zero of_nat_Suc one_eq_numeral_iff zero_le_one order_trans gr0I nat_1)
  have emit: "map fst (emit_groups (g # gs)) @ rs = replicate (Suc n) r @ (map fst (emit_groups gs) @ rs)"
    using n(1) by (simp add: emit_groups_def g map_replicate_const)
  show ?case
  proof (cases "gs = []")
    case True
    then show ?thesis using emit n g by (simp only: hits_replicate) (simp add: emit_groups_def)
  next
    case False
    have "fst (hd gs) \<noteq> r" using Cons.prems(1) g False by (cases gs) auto
    with Cons.IH [of r] Cons.prems False show ?thesis
      unfolding emit hits_replicate by (simp add: g n(2))
  qed
qed simp

text \<open>One window of the stream.\<close>

abbreviation last_row :: "cburst list \<Rightarrow> int" where
  "last_row w \<equiv> snd (fst (last w))"

abbreviation rows_of :: "cburst list \<Rightarrow> int set" where
  "rows_of w \<equiv> (\<lambda>x. snd (fst x)) ` set w"

lemma window_order:
  fixes carry :: int
  assumes ok: "bursts_ok B (map fst w)" and ne: "w \<noteq> []"
  defines "gs \<equiv> stream_order B carry w"
  shows "distinct (map fst gs)" "\<forall>(r, m, c) \<in> set gs. 1 \<le> m" "gs \<noteq> []" "fst ` set gs = rows_of w"
    and "sum_list (map (\<lambda>g. fst (snd g)) gs) = window_cmds B (map fst w)"
    and "length gs = length (win_rows B (map fst w))"
    and "carry \<in> rows_of w \<Longrightarrow> fst (hd gs) = carry"
    and "carry \<noteq> last_row w \<or> rows_of w = {carry} \<Longrightarrow> fst (last gs) = last_row w"
proof -
  let ?g0 = "stream_groups B w" and ?lr = "last_row w"
  have m: "mset gs = mset ?g0" unfolding gs_def stream_order_def by (simp add: group_first_mset group_last_mset)
  have fst0: "map fst ?g0 = map fst (win_rows B (map fst w))" by (simp add: stream_groups_def comp_def case_prod_beta)
  have snd0: "map (\<lambda>g. fst (snd g)) ?g0 = map snd (win_rows B (map fst w))" by (simp add: stream_groups_def comp_def case_prod_beta)
  have rows0: "fst ` set ?g0 = rows_of w"
    using win_rows_ok(1) [OF ok] arg_cong [OF fst0, of set] by (simp add: image_image)
  show rows: "fst ` set gs = rows_of w" using rows0 mset_eq_setD [OF m] by simp
  have mf: "mset (map fst gs) = mset (map fst ?g0)" using m by (metis mset_map)
  have d0: "distinct (map fst ?g0)" unfolding fst0 by (rule win_rows_ok(2) [OF ok])
  show dist: "distinct (map fst gs)" using d0 mset_eq_imp_distinct_iff [OF mf] by blast
  have sets: "set gs = set ?g0" using m by (rule mset_eq_setD)
  show "\<forall>(r, m, c) \<in> set gs. 1 \<le> m"
    unfolding sets using win_rows_ok(4) [OF ok] by (auto simp: stream_groups_def)
  show ne': "gs \<noteq> []" using rows ne by auto
  have "sum_list (map (\<lambda>g. fst (snd g)) gs) = sum_list (map (\<lambda>g. fst (snd g)) ?g0)"
    unfolding sum_mset_sum_list [symmetric] mset_map m ..
  then show "sum_list (map (\<lambda>g. fst (snd g)) gs) = window_cmds B (map fst w)" by (simp add: snd0 window_cmds_def)
  have "length gs = length ?g0" using m by (rule mset_eq_length)
  then show "length gs = length (win_rows B (map fst w))" by (simp add: stream_groups_def)
  have last_in: "?lr \<in> rows_of w" using ne by simp
  have rows1: "fst ` set (group_last ?lr ?g0) = rows_of w" using rows0 mset_eq_setD [OF group_last_mset] by metis
  show "fst (hd gs) = carry" if "carry \<in> rows_of w"
    unfolding gs_def stream_order_def using that rows1 by (intro group_first_hd) simp
  show "fst (last gs) = ?lr" if c: "carry \<noteq> ?lr \<or> rows_of w = {carry}"
  proof -
    let ?g1 = "group_last ?lr ?g0"
    have l1: "fst (last ?g1) = ?lr" using last_in rows0 by (intro group_last_last) simp
    have "length ?g1 = 1" if "rows_of w = {carry}"
    proof -
      have "length ?g1 = length ?g0" using group_last_mset by (rule mset_eq_length)
      also have "\<dots> = card (fst ` set ?g0)" using distinct_card [OF d0] by simp
      finally show ?thesis using that rows0 by simp
    qed
    moreover have "?g1 \<noteq> []" using rows1 ne by auto
    ultimately have "last (group_first carry ?g1) = last ?g1" using c l1 by (intro group_first_last) auto
    then show ?thesis unfolding gs_def stream_order_def using l1 by simp
  qed
qed

lemma length_emit:
  assumes "bursts_ok B (map fst w)" and "w \<noteq> []"
  shows "int (length (emit_groups (stream_order B carry w))) = window_cmds B (map fst w)"
proof -
  have "int (length (emit_groups gs)) = sum_list (map (\<lambda>g. fst (snd g)) gs)" if "\<forall>(r, m, c) \<in> set gs. 1 \<le> m" for gs
    using that by (induction gs) (auto simp: emit_groups_def)
  then show ?thesis using window_order(2,5) [OF assms] by metis
qed

text \<open>All windows.\<close>

fun emit_all :: "int \<Rightarrow> int \<Rightarrow> cburst list list \<Rightarrow> (int \<times> int) list" where
  "emit_all B carry [] = []"
| "emit_all B carry (w # ws) = emit_groups (stream_order B carry w) @ emit_all B (last_row w) ws"

lemma stream_fold: "fst (foldl (stream_window_step B) (out, carry) ws) = out @ emit_all B carry ws"
  by (induction ws arbitrary: out carry) (simp_all add: stream_window_step_def)

lemma length_emit_all:
  "\<forall>w \<in> set ws. bursts_ok B (map fst w) \<and> w \<noteq> [] \<Longrightarrow>
    int (length (emit_all B carry ws)) = sum_list (map (\<lambda>w. window_cmds B (map fst w)) ws)"
  by (induction ws arbitrary: carry) (simp_all add: length_emit)

text \<open>Windows on whose emission both wishes of the code agree: the carried-in row is not the row of the last
  burst, unless it is the only row.\<close>

fun settled_rows :: "int \<Rightarrow> cburst list list \<Rightarrow> bool" where
  "settled_rows carry [] = True"
| "settled_rows carry (w # ws) \<longleftrightarrow> (carry \<noteq> last_row w \<or> rows_of w = {carry}) \<and> settled_rows (last_row w) ws"

lemma last_map_fst: "w \<noteq> [] \<Longrightarrow> snd (last (map fst w)) = last_row w"
  by (simp add: last_map)

lemma emit_all_hits:
  assumes "\<forall>w \<in> set ws. bursts_ok B (map fst w) \<and> w \<noteq> []"
  defines "D \<equiv> \<lambda>x carry ws. row_hits x (map fst (emit_all B carry ws)) - hits_of B carry (map (map fst) ws)"
  shows "\<bar>D x carry ws\<bar> \<le> int (length ws)"
    and "x = carry \<Longrightarrow> \<bar>D x carry ws\<bar> \<le> int (length ws - 1)"
    and "x = carry \<Longrightarrow> settled_rows carry ws \<Longrightarrow> D x carry ws = 0"
proof -
  have "\<bar>D x carry ws\<bar> \<le> int (length ws) \<and> (x = carry \<longrightarrow> \<bar>D x carry ws\<bar> \<le> int (length ws - 1))
    \<and> (x = carry \<longrightarrow> settled_rows carry ws \<longrightarrow> D x carry ws = 0)"
    using assms(1)
  proof (induction ws arbitrary: x carry)
    case Nil
    then show ?case by (simp add: D_def)
  next
    case (Cons w ws)
    have w: "bursts_ok B (map fst w)" "w \<noteq> []" using Cons.prems by simp_all
    note ord = window_order [OF w, of carry]
    let ?gs = "stream_order B carry w" and ?r = "rows_of w"
    have set: "snd ` set (map fst w) = ?r" "snd ` fst ` set w = ?r" by (simp_all add: image_image)
    have emitted: "row_hits x (map fst (emit_all B carry (w # ws))) = (if fst (hd ?gs) = x then 1 else 0)
        + (window_cmds B (map fst w) - int (length (win_rows B (map fst w))))
        + row_hits (fst (last ?gs)) (map fst (emit_all B (last_row w) ws))"
      using emit_hits [OF ord(1-3), of x "map fst (emit_all B (last_row w) ws)"] unfolding ord(5,6) by simp
    have counted: "hits_of B carry (map (map fst) (w # ws)) = window_cmds B (map fst w)
        - (int (length (win_rows B (map fst w))) - (if carry \<in> ?r then 1 else 0)) + hits_of B (last_row w) (map (map fst) ws)"
      unfolding list.map hits_of.simps window_hits_def last_map_fst [OF w(2)] set by simp
    have step: "D x carry (w # ws) = (if fst (hd ?gs) = x then 1 else 0) - (if carry \<in> ?r then 1 else 0)
        + D (fst (last ?gs)) (last_row w) ws"
      unfolding D_def emitted counted by simp
    have hd: "carry \<in> ?r \<Longrightarrow> fst (hd ?gs) = carry" by (rule ord(7))
    have hd_in: "fst (hd ?gs) \<in> ?r" using ord(3,4) by (metis hd_in_set image_eqI)
    have same: "x = carry \<Longrightarrow> (if fst (hd ?gs) = x then 1 else 0) = (if carry \<in> ?r then 1 else (0 :: int))"
      by (rule if_cong) (use hd hd_in in metis, rule refl, rule refl)
    have IH: "\<bar>D y (last_row w) ws\<bar> \<le> int (length ws)" "settled_rows (last_row w) ws \<Longrightarrow> D (last_row w) (last_row w) ws = 0" for y
      using Cons.IH Cons.prems by simp_all
    show ?case
    proof (intro conjI impI)
      show "\<bar>D x carry (w # ws)\<bar> \<le> int (length (w # ws))"
        unfolding step using IH(1) [of "fst (last ?gs)"] by (simp split: if_splits; linarith)
      show "\<bar>D x carry (w # ws)\<bar> \<le> int (length (w # ws) - 1)" if "x = carry"
        unfolding step same [OF that] using IH(1) [of "fst (last ?gs)"] by simp
      show "D x carry (w # ws) = 0" if "x = carry" "settled_rows carry (w # ws)"
        unfolding step same [OF that(1)] using ord(8) that(2) IH(2) by simp
    qed
  qed
  then show "\<bar>D x carry ws\<bar> \<le> int (length ws)" "x = carry \<Longrightarrow> \<bar>D x carry ws\<bar> \<le> int (length ws - 1)"
    "x = carry \<Longrightarrow> settled_rows carry ws \<Longrightarrow> D x carry ws = 0" by blast+
qed

lemma chunks_map: "chunks k (map f xs) = map (map f) (chunks k xs)"
proof (induction k xs rule: chunks.induct)
  case (1 k xs)
  show ?case
  proof (cases "k = 0 \<or> xs = []")
    case False
    then have "chunks k (map f xs) = take k (map f xs) # chunks k (drop k (map f xs))" by (subst chunks.simps) simp
    moreover have "chunks k xs = take k xs # chunks k (drop k xs)" using False by (subst chunks.simps) simp
    ultimately show ?thesis using 1 False by (simp add: take_map drop_map)
  qed (auto simp: chunks.simps)
qed

lemma stream_counts_ok:
  assumes ok: "bursts_ok B (map fst bs)" and w: "0 < window" and mode: "mode \<in> {''window'', ''inorder''}"
  shows "\<exists>c h out. coalesce_channel B window mode (map fst bs) = Inr (c, h, int (length bs))
    \<and> coalesce_channel_stream B window mode bs = Inr out \<and> int (length out) = c
    \<and> \<bar>row_hits (- 1) (map fst out) - h\<bar> \<le> (if mode = ''inorder'' then 0 else int (length (chunks (nat window) bs) - 1))"
proof (cases "bs = []")
  case True
  then show ?thesis by (simp add: coalesce_channel_def coalesce_channel_stream_def)
next
  case ne: False
  show ?thesis
  proof (cases "mode = ''inorder''")
    case True
    have "\<forall>p \<in> set bs. 0 \<le> snd (fst p)" using ok by (force simp: bursts_ok_def)
    then show ?thesis using True ne stream_inorder_counts [of bs B] by (simp add: coalesce_channel_def coalesce_channel_stream_def)
  next
    case False
    let ?ws = "chunks (nat window) bs"
    have ws: "\<forall>v \<in> set ?ws. bursts_ok B (map fst v) \<and> v \<noteq> []"
      using bursts_ok_chunk [OF ok, of _ "nat window"] chunks_ne [of _ "nat window" bs] by (auto simp: chunks_map)
    have out: "coalesce_channel_stream B window mode bs = Inr (emit_all B (- 1) ?ws)"
      using ne False mode w by (simp add: coalesce_channel_stream_def windows_def stream_fold)
    have "coalesce_channel B window mode (map fst bs) = Inr (sum_list (map (window_cmds B) (map (map fst) ?ws)),
        hits_of B (- 1) (map (map fst) ?ws), int (length bs))"
      using coalesce_windows [OF ok _ w] ne False mode by (simp add: chunks_map)
    then show ?thesis
      using out False length_emit_all [OF ws, of "- 1"] emit_all_hits(2) [OF ws, of "- 1" "- 1"] by (simp add: comp_def)
  qed
qed

section \<open>Properties\<close>


text \<open>When they agree exactly: if in every window the row carried in is not the row of the last burst, or is the only
  row of the window, the stream has exactly the \<open>n_hits\<close> row hits that are counted.\<close>

theorem stream_hits_exact:
  assumes ok: "bursts_ok B (map fst bs)" and w: "0 < window" and ne: "bs \<noteq> []"
    and calm: "settled_rows (- 1) (chunks (nat window) bs)"
  shows "\<exists>c h out. coalesce_channel B window ''window'' (map fst bs) = Inr (c, h, int (length bs))
    \<and> coalesce_channel_stream B window ''window'' bs = Inr out \<and> row_hits (- 1) (map fst out) = h"
proof -
  let ?ws = "chunks (nat window) bs"
  have ws: "\<forall>v \<in> set ?ws. bursts_ok B (map fst v) \<and> v \<noteq> []"
    using bursts_ok_chunk [OF ok, of _ "nat window"] chunks_ne [of _ "nat window" bs] by (auto simp: chunks_map)
  have "coalesce_channel_stream B window ''window'' bs = Inr (emit_all B (- 1) ?ws)"
    using ne w by (simp add: coalesce_channel_stream_def windows_def stream_fold)
  then show ?thesis
    using coalesce_windows [OF ok _ w] ne emit_all_hits(3) [OF ws refl calm] by (simp add: chunks_map)
qed

text \<open>The stream can have more row hits than are counted: with windows of two bursts, one hit is counted and the
  stream has two (its first command never hits).\<close>

theorem stream_can_hit_more:
  "coalesce_channel 2 2 ''window'' [(0, 1), (1, 1), (0, 2), (0, 1), (0, 2), (1, 2)] = Inr (4, 1, 6)
   \<and> coalesce_channel_stream 2 2 ''window''
       [((0, 1), 0), ((1, 1), 0), ((0, 2), 0), ((0, 1), 0), ((0, 2), 0), ((1, 2), 0)]
     = Inr [(1, 0), (1, 0), (2, 0), (2, 0)]
   \<and> row_hits (- 1) [1, 1, 2, 2] = 2"
  by code_simp

section \<open>Witnesses\<close>


lemma stream_hits_exact_witness:
  "\<exists>c h out. coalesce_channel 2 2 ''window'' [(0, 1), (1, 1), (0, 1), (1, 2)] = Inr (c, h, 4)
    \<and> coalesce_channel_stream 2 2 ''window'' [((0, 1), 0), ((1, 1), 0), ((0, 1), 0), ((1, 2), 0)] = Inr out
    \<and> row_hits (- 1) (map fst out) = h"
proof -
  let ?bs = "[((0, 1), 0), ((1, 1), 0), ((0, 1), 0), ((1, 2), 0)] :: cburst list"
  have "bursts_ok 2 (map fst ?bs)" by code_simp
  moreover have "settled_rows (- 1) (chunks (nat 2) ?bs)" by code_simp
  ultimately show ?thesis using stream_hits_exact [of 2 ?bs 2] by simp
qed

end
