(* ===== verification/Frame_Ideal.thy ===== *)
theory Frame_Ideal
  imports Measure Pim_Plan
begin

text \<open>
  What frame-aligned placement is for. Under the host-cacheline map, a sequence that occupies whole alignment
  frames has the best metrics the model allows: every command uses every bank, and each row is opened once.
  With the planner's guarantee this is what an admission of \<open>PimAware\<close> gets while enough frames are empty.
\<close>

section \<open>Lists of blocks\<close>

lemma upt_blocks: "[a * m..<(a + k) * m] = concat (map (\<lambda>i. [i * m..<(i + 1) * m]) [a..<a + k])"
proof (induction k)
  case (Suc k)
  have "[a * m..<(a + Suc k) * m] = [a * m..<(a + k) * m] @ [(a + k) * m..<(a + k) * m + m]"
    using upt_add_eq_append [of "a * m" "(a + k) * m" m] by (simp add: ac_simps)
  with Suc show ?case by (simp add: ac_simps)
qed simp

lemma upt_shift: "[n..<n + m] = map (\<lambda>i. n + i) [0..<m]"
  by (induction m) simp_all

lemma map_constant: "(\<And>x. x \<in> set xs \<Longrightarrow> g x = v) \<Longrightarrow> map g xs = replicate (length xs) v"
  by (induction xs) simp_all

lemma concat_replicate_mult: "concat (replicate (m * k) xs) = concat (replicate m (concat (replicate k xs)))"
  by (induction m) (simp_all add: replicate_add)

lemma concat_map_concat: "concat (map f (concat xss)) = concat (map (\<lambda>xs. concat (map f xs)) xss)"
  by (induction xss) simp_all

lemma chunks_concat: "0 < w \<Longrightarrow> \<forall>xs \<in> set xss. length xs = w \<Longrightarrow> chunks w (concat xss) = xss"
proof (induction xss)
  case (Cons xs xss)
  then have "xs \<noteq> []" by auto
  with Cons show ?case by (subst chunks.simps) simp
qed (simp add: chunks.simps)

text \<open>The bursts of a full table are those of its blocks in turn.\<close>

lemma place_blocks:
  assumes m: "0 < m"
  shows "map (\<lambda>i. table ! (i div m) * m + i mod m) [0..<length table * m] = concat (map (\<lambda>b. [b * m..<(b + 1) * m]) table)"
proof (induction table rule: rev_induct)
  case (snoc b table)
  let ?f = "\<lambda>t i. t ! (i div m) * m + i mod m"
  have "[0..<length (table @ [b]) * m] = [0..<length table * m] @ [length table * m..<length table * m + m]"
    using upt_add_eq_append [of 0 "length table * m" m] by (simp add: add.commute)
  moreover have "map (?f (table @ [b])) [0..<length table * m] = map (?f table) [0..<length table * m]"
  proof (rule map_cong [OF refl])
    fix i assume "i \<in> set [0..<length table * m]"
    then have "i div m < length table" using m by (simp add: div_less_iff_less_mult)
    then show "?f (table @ [b]) i = ?f table i" by (simp add: nth_append)
  qed
  moreover have "map (?f (table @ [b])) [length table * m..<length table * m + m] = [b * m..<(b + 1) * m]"
    using m upt_shift [of "length table * m" m] upt_shift [of "b * m" m] by (simp add: nth_append add.commute)
  ultimately show ?case using snoc by (simp only: map_append list.map concat_append concat.simps append_Nil2)
qed simp

section \<open>The stream of one channel in one frame\<close>

text \<open>\<open>h\<close> stripes of \<open>nb\<close> banks, \<open>cl\<close> bursts of each bank at a time.\<close>

definition stripe :: "nat \<Rightarrow> nat \<Rightarrow> nat \<Rightarrow> burst list" where
  "stripe nb cl f = concat (map (\<lambda>b. replicate cl (int b, int f)) [0..<nb])"

lemma channel_share:
  assumes "c < ch" and "0 < cl"
  shows "length (filter (\<lambda>l. l div cl mod ch = c) [q * (ch * cl)..<(q + 1) * (ch * cl)]) = cl"
proof -
  let ?P = "\<lambda>l. l div cl mod ch = c"
  have "[q * (ch * cl)..<(q + 1) * (ch * cl)] = [(q * ch) * cl..<(q * ch + ch) * cl]" by (simp add: algebra_simps)
  also have "\<dots> = concat (map (\<lambda>r. [r * cl..<(r + 1) * cl]) [q * ch..<q * ch + ch])" by (rule upt_blocks)
  finally have "length (filter ?P [q * (ch * cl)..<(q + 1) * (ch * cl)])
      = (\<Sum>r \<leftarrow> [q * ch..<q * ch + ch]. length (filter ?P [r * cl..<(r + 1) * cl]))"
    by (simp add: filter_concat length_concat comp_def)
  also have "\<dots> = (\<Sum>r \<leftarrow> [q * ch..<q * ch + ch]. if r mod ch = c then cl else 0)"
  proof (intro arg_cong [of _ _ sum_list] map_cong refl)
    fix r
    have "l div cl = r" if "l \<in> set [r * cl..<(r + 1) * cl]" for l
      using that assms(2) by (intro div_nat_eqI) (auto simp: algebra_simps)
    then have "filter ?P [r * cl..<(r + 1) * cl] = filter (\<lambda>l. r mod ch = c) [r * cl..<(r + 1) * cl]"
      by (intro filter_cong) auto
    then show "length (filter ?P [r * cl..<(r + 1) * cl]) = (if r mod ch = c then cl else 0)" by (simp del: upt_Suc)
  qed
  also have "\<dots> = (\<Sum>j \<leftarrow> [0..<ch]. if j = c then cl else 0)"
    unfolding upt_shift map_map comp_def by (intro arg_cong [of _ _ sum_list] map_cong) auto
  also have "\<dots> = cl" using assms(1) by (simp add: sum_list_distinct_conv_sum_set)
  finally show ?thesis .
qed

lemma frame_stream:
  assumes pos: "c < ch" "0 < cl" "0 < nb" "0 < h"
  shows "map (\<lambda>l. (int (l div (ch * cl) mod nb), int (l div (h * nb * (ch * cl)))))
      (filter (\<lambda>l. l div cl mod ch = c) [f * (h * nb * (ch * cl))..<(f + 1) * (h * nb * (ch * cl))])
    = concat (replicate h (stripe nb cl f))"
proof -
  let ?P = "\<lambda>l. l div cl mod ch = c"
    and ?g = "\<lambda>l. (int (l div (ch * cl) mod nb), int (l div (h * nb * (ch * cl))))"
  have "[f * (h * nb * (ch * cl))..<(f + 1) * (h * nb * (ch * cl))]
      = [(f * (h * nb)) * (ch * cl)..<(f * (h * nb) + h * nb) * (ch * cl)]" by (simp add: algebra_simps)
  also have "\<dots> = concat (map (\<lambda>q. [q * (ch * cl)..<(q + 1) * (ch * cl)]) [f * (h * nb)..<f * (h * nb) + h * nb])"
    by (rule upt_blocks)
  finally have "map ?g (filter ?P [f * (h * nb * (ch * cl))..<(f + 1) * (h * nb * (ch * cl))])
      = concat (map (\<lambda>q. map ?g (filter ?P [q * (ch * cl)..<(q + 1) * (ch * cl)])) [f * (h * nb)..<f * (h * nb) + h * nb])"
    by (simp add: filter_concat map_concat comp_def)
  also have "\<dots> = concat (map (\<lambda>q. replicate cl (int (q mod nb), int f)) [f * (h * nb)..<f * (h * nb) + h * nb])"
  proof (intro arg_cong [of _ _ concat] map_cong refl)
    fix q assume q: "q \<in> set [f * (h * nb)..<f * (h * nb) + h * nb]"
    have "?g l = (int (q mod nb), int f)" if "l \<in> set (filter ?P [q * (ch * cl)..<(q + 1) * (ch * cl)])" for l
    proof -
      have l: "l div (ch * cl) = q" using that pos by (intro div_nat_eqI) (auto simp: algebra_simps)
      have "q div (h * nb) = f" using q pos by (intro div_nat_eqI) (auto simp: algebra_simps)
      then have "l div (h * nb * (ch * cl)) = f"
        using l div_mult2_eq [of l "ch * cl" "h * nb"] by (simp add: mult.commute)
      with l show ?thesis by simp
    qed
    then have "map ?g (filter ?P [q * (ch * cl)..<(q + 1) * (ch * cl)])
        = replicate (length (filter ?P [q * (ch * cl)..<(q + 1) * (ch * cl)])) (int (q mod nb), int f)"
      by (rule map_constant)
    then show "map ?g (filter ?P [q * (ch * cl)..<(q + 1) * (ch * cl)]) = replicate cl (int (q mod nb), int f)"
      unfolding channel_share [OF pos(1,2)] .
  qed
  also have "[f * (h * nb)..<f * (h * nb) + h * nb] = [(f * h) * nb..<(f * h + h) * nb]" by (simp add: algebra_simps)
  also have "\<dots> = concat (map (\<lambda>i. [i * nb..<(i + 1) * nb]) [f * h..<f * h + h])" by (rule upt_blocks)
  also have "concat (map (\<lambda>q. replicate cl (int (q mod nb), int f)) \<dots>)
      = concat (map (\<lambda>i. concat (map (\<lambda>q. replicate cl (int (q mod nb), int f)) [i * nb..<i * nb + nb])) [f * h..<f * h + h])"
    by (simp only: concat_map_concat map_map comp_def add_mult_distrib mult_1)
  also have "\<dots> = concat (map (\<lambda>i. stripe nb cl f) [f * h..<f * h + h])"
    unfolding upt_shift [of "_ * nb"] stripe_def map_map comp_def
    by (intro arg_cong [of _ _ concat] map_cong) auto
  also have "\<dots> = concat (replicate h (stripe nb cl f))" by (simp add: map_replicate_const)
  finally show ?thesis .
qed

section \<open>The windows of a channel\<close>

text \<open>A window of \<open>k\<close> stripes of one frame.\<close>

abbreviation stripes :: "nat \<Rightarrow> nat \<Rightarrow> nat \<Rightarrow> nat \<Rightarrow> burst list" where
  "stripes nb cl k f \<equiv> concat (replicate k (stripe nb cl f))"

lemma set_stripes: "0 < cl \<Longrightarrow> 0 < k \<Longrightarrow> set (stripes nb cl k f) = (\<lambda>b. (int b, int f)) ` {..<nb}"
  by (auto simp: stripe_def set_replicate_conv_if)

lemma length_stripes: "length (stripes nb cl k f) = k * (nb * cl)"
  by (simp add: stripe_def length_concat comp_def sum_list_triv sum_list_replicate)

lemma count_stripes:
  assumes "b < nb"
  shows "count_list (stripes nb cl k f) (int b, int f) = k * cl"
proof -
  have rep: "count_list (replicate n x) y = (if x = y then n else 0)" for n and x y :: "int \<times> int"
    by (induction n) auto
  have "count_list (stripe nb cl f) (int b, int f) = (\<Sum>b' \<leftarrow> [0..<nb]. if b' = b then cl else 0)"
    unfolding stripe_def count_list_concat map_map comp_def rep by (intro arg_cong [of _ _ sum_list] map_cong) auto
  also have "\<dots> = cl" using assms by (simp add: sum_list_distinct_conv_sum_set)
  finally have one: "count_list (stripe nb cl f) (int b, int f) = cl" .
  show ?thesis by (induction k) (simp_all add: one count_list_append)
qed

lemma stripes_ok: "0 < cl \<Longrightarrow> 0 < k \<Longrightarrow> bursts_ok (int nb) (stripes nb cl k f)"
  unfolding bursts_ok_def set_stripes by auto

lemma stripes_window:
  assumes pos: "0 < cl" "0 < k" "0 < nb"
  shows "window_cmds (int nb) (stripes nb cl k f) = int (k * cl)"
    and "window_hits (int nb) carry (stripes nb cl k f) = int (k * cl) - (if carry = int f then 0 else 1)"
    and "snd (last (stripes nb cl k f)) = int f"
proof -
  let ?w = "stripes nb cl k f" and ?B = "int nb"
  note ok = stripes_ok [OF pos(1,2), of nb f]
  have rows: "snd ` set ?w = {int f}" unfolding set_stripes [OF pos(1,2)] using pos(3) by force
  have "(\<lambda>p. count_list ?w p) ` {p \<in> set ?w. snd p = int f} = {k * cl}"
  proof -
    have "{p \<in> set ?w. snd p = int f} = (\<lambda>b. (int b, int f)) ` {..<nb}" unfolding set_stripes [OF pos(1,2)] by auto
    moreover have "count_list ?w (int b, int f) = k * cl" if "b < nb" for b by (rule count_stripes [OF that])
    then have "(\<lambda>b. count_list ?w (int b, int f)) ` {..<nb} = {k * cl}" using pos(3) by (auto simp: image_iff)
    ultimately show ?thesis by (simp only: image_image)
  qed
  then have "row_need ?w (int f) = k * cl" by (simp add: row_need_def)
  then show cmds: "window_cmds ?B ?w = int (k * cl)" using window_cmds_sum [OF ok] rows by simp
  have "length (win_rows ?B ?w) = card (fst ` set (win_rows ?B ?w))"
    using distinct_card [OF win_rows_ok(2) [OF ok]] by simp
  also have "\<dots> = 1" using win_rows_ok(1) [OF ok] rows by simp
  finally show "window_hits ?B carry ?w = int (k * cl) - (if carry = int f then 0 else 1)"
    using cmds rows by (simp add: window_hits_def)
  have "length ?w > 0" unfolding length_stripes using pos by simp
  then have "last ?w \<in> set ?w" by (intro last_in_set) auto
  then show "snd (last ?w) = int f" using rows by (metis image_eqI singletonD)
qed

lemma stripes_hits:
  assumes pos: "0 < cl" "0 < k" "0 < nb"
  shows "hits_of (int nb) (int f) (replicate m (stripes nb cl k f) @ ws) = int (m * (k * cl)) + hits_of (int nb) (int f) ws"
  by (induction m) (simp_all add: stripes_window [OF pos])

text \<open>All windows of a channel when the sequence has the frames \<open>fs\<close>, with \<open>m\<close> windows to a frame.\<close>

definition frame_windows :: "nat \<Rightarrow> nat \<Rightarrow> nat \<Rightarrow> nat \<Rightarrow> nat list \<Rightarrow> burst list list" where
  "frame_windows nb cl k m fs = concat (map (\<lambda>f. replicate m (stripes nb cl k f)) fs)"

lemma frame_windows_hits:
  assumes pos: "0 < cl" "0 < k" "0 < nb" "0 < m"
  shows "distinct fs \<Longrightarrow> (\<forall>f \<in> set fs. carry \<noteq> int f) \<Longrightarrow>
    hits_of (int nb) carry (frame_windows nb cl k m fs) = int (length fs) * (int (m * (k * cl)) - 1)"
proof (induction fs arbitrary: carry)
  case Nil
  then show ?case by (simp add: frame_windows_def)
next
  case (Cons f fs)
  obtain m' where m: "m = Suc m'" using pos(4) by (metis Suc_pred)
  have "hits_of (int nb) carry (frame_windows nb cl k m (f # fs))
      = int (k * cl) - 1 + (int (m' * (k * cl)) + hits_of (int nb) (int f) (frame_windows nb cl k m fs))"
    using Cons.prems(2) stripes_window [OF pos(1-3)] stripes_hits [OF pos(1-3)] by (simp add: frame_windows_def m)
  also have "hits_of (int nb) (int f) (frame_windows nb cl k m fs) = int (length fs) * (int (m * (k * cl)) - 1)"
    using Cons.prems by (intro Cons.IH) auto
  finally show ?case by (simp add: m algebra_simps)
qed

lemma frame_windows_chunks:
  assumes pos: "0 < cl" "0 < k" "0 < nb"
  shows "chunks (k * (nb * cl)) (concat (map (\<lambda>f. stripes nb cl (m * k) f) fs)) = frame_windows nb cl k m fs"
proof -
  have "concat (map (\<lambda>f. stripes nb cl (m * k) f) fs) = concat (frame_windows nb cl k m fs)"
    unfolding concat_replicate_mult frame_windows_def by (induction fs) simp_all
  moreover have "\<forall>w \<in> set (frame_windows nb cl k m fs). length w = k * (nb * cl)"
    using length_stripes by (auto simp: frame_windows_def set_replicate_conv_if split: if_splits)
  ultimately show ?thesis using pos by (simp add: chunks_concat)
qed

lemma channel_ideal:
  assumes pos: "0 < cl" "0 < k" "0 < nb" "0 < m" and fs: "fs \<noteq> []" "distinct fs"
  shows "coalesce_channel (int nb) (int (k * (nb * cl))) ''window'' (concat (map (\<lambda>f. stripes nb cl (m * k) f) fs))
    = Inr (int (length fs * (m * k * cl)), int (length fs) * (int (m * k * cl) - 1), int (length fs * (m * k * (nb * cl))))"
proof -
  let ?bs = "concat (map (\<lambda>f. stripes nb cl (m * k) f) fs)" and ?ws = "frame_windows nb cl k m fs"
  have mk: "0 < m * k" using pos by simp
  have ok: "bursts_ok (int nb) ?bs" using stripes_ok [OF pos(1) mk] unfolding bursts_ok_def set_concat by auto
  have len: "length ?bs = length fs * (m * k * (nb * cl))"
    using length_stripes by (induction fs) simp_all
  then have ne: "?bs \<noteq> []" using pos fs(1) by (metis length_0_conv length_greater_0_conv mult_pos_pos neq0_conv mk)
  have "sum_list (map (window_cmds (int nb)) ?ws) = int (length fs * (m * k * cl))"
    unfolding frame_windows_def by (induction fs) (simp_all add: stripes_window(1) [OF pos(1-3)] sum_list_replicate algebra_simps)
  moreover have "hits_of (int nb) (- 1) ?ws = int (length fs) * (int (m * k * cl) - 1)"
    using frame_windows_hits [OF pos fs(2), of "- 1"] by (simp add: mult.assoc)
  moreover have "0 < int (k * (nb * cl))" using pos by simp
  ultimately show ?thesis
    using coalesce_windows [OF ok ne, of "int (k * (nb * cl))"] frame_windows_chunks [OF pos(1-3), of m fs] len
    by (simp only: nat_int)
qed

lemma channel_loop_const:
  assumes "\<forall>c \<in> set cs. coalesce_channel B window mode (map snd (filter (\<lambda>x. fst x = c) bs)) = Inr (x, y, z)"
  shows "channel_loop B window mode bs cs (cmds, hits, nb)
    = Inr (cmds + int (length cs) * x, hits + int (length cs) * y, nb + int (length cs) * z)"
  using assms by (induction cs arbitrary: cmds hits nb) (simp_all add: algebra_simps)

section \<open>The host-cacheline map\<close>

text \<open>Consecutive bursts of one cache line stay in a bank.\<close>

definition line_bursts :: "dram_geometry \<Rightarrow> int" where
  "line_bursts g = min (cacheline_bytes g div burst_bytes g) (cols_per_row g)"

lemma take_bits_flat: "take_bit m (drop_bit n x) * 2 ^ n + take_bit n x = take_bit (n + m) (x :: int)"
proof -
  have "take_bit (n + m) x div 2 ^ n * 2 ^ n + take_bit (n + m) x mod 2 ^ n = take_bit (n + m) x"
    by (rule div_mult_mod_eq)
  moreover have "take_bit (n + m) x div 2 ^ n = take_bit m (drop_bit n x)"
    by (simp add: drop_bit_take_bit flip: drop_bit_eq_div)
  moreover have "take_bit (n + m) x mod 2 ^ n = take_bit n x"
    by (simp flip: take_bit_eq_mod)
  ultimately show ?thesis by simp
qed

lemma host_line:
  assumes g: "valid_geometry g" "AddrMap g ''host-cacheline'' = Inr am"
  obtains ch nb cl h where "0 < ch" "0 < nb" "0 < cl" "0 < h"
    and "channels g = int ch" "banks_per_channel g = int nb" "line_bursts g = int cl" "cols_per_row g = int (h * cl)"
    and "\<And>l. map_burst am (int l) Fch = int (l div cl mod ch)"
    and "\<And>l. flat_bank am (map_burst am (int l)) = int (l div (ch * cl) mod nb)"
    and "\<And>l. int l < total_bursts g \<Longrightarrow> map_burst am (int l) Fro = int (l div (h * nb * (ch * cl)))"
proof -
  obtain c bg ba ro bu co cle where e: "channels g = 2 ^ c" "bank_groups g = 2 ^ bg" "banks_per_group g = 2 ^ ba"
    "rows_per_bank g = 2 ^ ro" "burst_bytes g = 2 ^ bu" "row_bytes g = 2 ^ (bu + co)" "cacheline_bytes g = 2 ^ (bu + cle)"
    by (rule valid_geometryE [OF g(1)])
  have cols: "cols_per_row g = 2 ^ co" and line: "cacheline_bytes g div burst_bytes g = 2 ^ cle"
    by (simp_all add: cols_per_row_def e power_add)
  have div: "(2 :: int) ^ (bu + cle) div 2 ^ bu = 2 ^ cle" by (simp add: power_add)
  define lo where "lo = min cle co"
  have fs: "am_fields am = [(Fco, lo), (Fch, c), (Fba, ba), (Fbg, bg), (Fco, co - lo), (Fro, ro)]"
    using AddrMap_InrD(3) [OF g] by (simp add: scheme_fields_def Let_def e cols div lo_def)
  have lines: "line_bursts g = 2 ^ lo"
    unfolding line_bursts_def line cols lo_def by (cases "cle \<le> co") (simp_all add: min_def)
  have ch: "map_burst am l Fch = take_bit c (drop_bit lo l)"
    and bk: "map_burst am l Fba = take_bit ba (drop_bit (lo + c) l)" "map_burst am l Fbg = take_bit bg (drop_bit (lo + c + ba) l)" for l
    by (simp_all add: fs map_burst_def map_loop_step del: drop_bit_drop_bit)
  have flat: "flat_bank am (map_burst am l) = take_bit (ba + bg) (drop_bit (lo + c) l)" for l
    using take_bits_flat [of bg ba "drop_bit (lo + c) l"] AddrMap_InrD(2) [OF g]
    by (simp add: flat_bank_def bk e add.commute)
  have frame: "frame_bursts g = int (2 ^ (co - lo) * 2 ^ (ba + bg) * (2 ^ c * 2 ^ lo))"
  proof -
    have "(2 :: int) ^ (co - lo) * 2 ^ lo = 2 ^ co" by (simp add: lo_def flip: power_add)
    then show ?thesis by (simp add: frame_bursts_def banks_per_channel_def e cols power_add algebra_simps)
  qed
  have host: "map_burst am (int l) Fro = int (l div (2 ^ (co - lo) * 2 ^ (ba + bg) * (2 ^ c * 2 ^ lo)))"
    if "int l < total_bursts g" for l
    using host_row [OF g(1) _ g(2) _ that] unfolding frame zdiv_int [symmetric] by simp
  show ?thesis
  proof (rule that [of "2 ^ c" "2 ^ (ba + bg)" "2 ^ lo" "2 ^ (co - lo)"])
    show "map_burst am (int l) Fch = int (l div 2 ^ lo mod 2 ^ c)" for l
      by (simp add: ch take_bit_eq_mod drop_bit_eq_div zdiv_int zmod_int)
    show "flat_bank am (map_burst am (int l)) = int (l div (2 ^ c * 2 ^ lo) mod 2 ^ (ba + bg))" for l
      by (simp add: flat take_bit_eq_mod drop_bit_eq_div zdiv_int zmod_int power_add mult.commute)
    show "cols_per_row g = int (2 ^ (co - lo) * 2 ^ lo)" by (simp add: cols lo_def flip: power_add)
  qed (use host in \<open>simp_all add: e lines banks_per_channel_def power_add\<close>)
qed

section \<open>Whole frames\<close>

abbreviation frames_table :: "nat \<Rightarrow> nat list \<Rightarrow> nat list" where
  "frames_table G fs \<equiv> concat (map (\<lambda>f. [f * G..<f * G + G]) fs)"

lemma frames_table_length: "length (frames_table G fs) = length fs * G"
  by (induction fs) simp_all

lemma frames_table_bursts:
  "concat (map (\<lambda>b. [b * m..<(b + 1) * m]) (frames_table G fs)) = concat (map (\<lambda>f. [f * (G * m)..<(f + 1) * (G * m)]) fs)"
proof (induction fs)
  case (Cons f fs)
  have "concat (map (\<lambda>b. [b * m..<(b + 1) * m]) [f * G..<f * G + G]) = [f * (G * m)..<(f + 1) * (G * m)]"
    using upt_blocks [of "f * G" m G] by (simp add: algebra_simps)
  with Cons show ?case by (simp only: map_append concat_append list.map concat.simps)
qed simp

lemma frames_table_places:
  assumes "0 < m"
  shows "map (burst_place (frames_table G fs) (int m)) [0..int (length fs * G * m) - 1]
    = map int (concat (map (\<lambda>f. [f * (G * m)..<(f + 1) * (G * m)]) fs))"
proof -
  let ?t = "frames_table G fs"
  have upto: "[0..int n - 1] = map int [0..<n]" for n
    by (rule nth_equalityI) (auto simp: nth_upto)
  have place: "burst_place ?t (int m) (int i) = int (?t ! (i div m) * m + i mod m)" for i
    by (simp add: burst_place_def flip: zdiv_int zmod_int)
  have "map (burst_place ?t (int m)) [0..int (length ?t * m) - 1]
      = map int (map (\<lambda>i. ?t ! (i div m) * m + i mod m) [0..<length ?t * m])"
    unfolding upto map_map comp_def by (intro map_cong refl place)
  then show ?thesis unfolding place_blocks [OF assms] frames_table_bursts by (simp only: frames_table_length)
qed

text \<open>The bursts of whole frames, split by channel.\<close>

definition frame_bs :: "nat \<Rightarrow> nat \<Rightarrow> nat \<Rightarrow> nat \<Rightarrow> nat list \<Rightarrow> (int \<times> burst) list" where
  "frame_bs ch nb cl h fs = map (\<lambda>l. (int (l div cl mod ch), int (l div (ch * cl) mod nb), int (l div (h * nb * (ch * cl)))))
     (concat (map (\<lambda>f. [f * (h * nb * (ch * cl))..<(f + 1) * (h * nb * (ch * cl))]) fs))"

lemma frame_bs_channel:
  assumes "c < ch" "0 < cl" "0 < nb" "0 < h"
  shows "map snd (filter (\<lambda>x. fst x = int c) (frame_bs ch nb cl h fs)) = concat (map (\<lambda>f. stripes nb cl h f) fs)"
proof -
  let ?F = "h * nb * (ch * cl)"
  have "map snd (filter (\<lambda>x. fst x = int c) (frame_bs ch nb cl h fs))
      = map (\<lambda>l. (int (l div (ch * cl) mod nb), int (l div ?F)))
          (filter (\<lambda>l. l div cl mod ch = c) (concat (map (\<lambda>f. [f * ?F..<(f + 1) * ?F]) fs)))"
    unfolding frame_bs_def filter_map map_map comp_def fst_conv snd_conv of_nat_eq_iff ..
  also have "\<dots> = concat (map (\<lambda>f. stripes nb cl h f) fs)"
    unfolding filter_concat map_concat map_map comp_def frame_stream [OF assms] ..
  finally show ?thesis .
qed

lemma frame_bs_channels:
  assumes "0 < ch" "0 < cl" "0 < nb" "0 < h" "fs \<noteq> []"
  shows "length (remdups (map fst (frame_bs ch nb cl h fs))) = ch" "c \<in> fst ` set (frame_bs ch nb cl h fs) \<Longrightarrow> \<exists>k < ch. c = int k"
proof -
  let ?bs = "frame_bs ch nb cl h fs"
  show in_range: "c \<in> fst ` set ?bs \<Longrightarrow> \<exists>k < ch. c = int k" for c
    using assms(1) by (auto simp: frame_bs_def)
  have "int k \<in> fst ` set ?bs" if "k < ch" for k
  proof -
    have "length (concat (map (\<lambda>f. stripes nb cl h f) fs)) = length fs * (h * (nb * cl))"
      using length_stripes by (induction fs) simp_all
    then have "concat (map (\<lambda>f. stripes nb cl h f) fs) \<noteq> []"
      using assms by (metis length_0_conv mult_is_0 neq0_conv)
    then have "filter (\<lambda>x. fst x = int k) ?bs \<noteq> []" using frame_bs_channel [OF that assms(2-4), of fs] by auto
    then obtain x where "x \<in> set ?bs" "fst x = int k" by (auto simp: filter_empty_conv simp del: split_paired_All)
    then show ?thesis by (metis image_eqI)
  qed
  then have "fst ` set ?bs = int ` {..<ch}" using in_range by blast
  then have "card (set (map fst ?bs)) = ch" by (simp add: card_image)
  then show "length (remdups (map fst ?bs)) = ch" by (simp add: length_remdups_card_conv)
qed

lemma frame_bs_metrics:
  assumes pos: "0 < ch" "0 < cl" "0 < nb" "0 < k" "0 < m" and fs: "fs \<noteq> []" "distinct fs"
    and g: "banks_per_channel geom = int nb"
  shows "sequence_metrics geom (int (k * (nb * cl))) ''window'' (frame_bs ch nb cl (m * k) fs)
    = Inr \<lparr>n_bursts = int (length fs * (m * k * nb * (ch * cl))), n_cmds = int (ch * length fs * (m * k * cl)),
        n_hits = int (ch * length fs) * (int (m * k * cl) - 1), m1 = 1 - 1 / real (m * k * cl), m2 = 1\<rparr>"
proof -
  let ?bs = "frame_bs ch nb cl (m * k) fs" and ?cols = "m * k * cl"
  have h: "0 < m * k" using pos by simp
  let ?cs = "sort (remdups (map fst ?bs))"
  have len: "length ?cs = ch" using frame_bs_channels(1) [OF pos(1-3) h fs(1)] by simp
  have "\<forall>c \<in> set ?cs. coalesce_channel (int nb) (int (k * (nb * cl))) ''window'' (map snd (filter (\<lambda>x. fst x = c) ?bs))
      = Inr (int (length fs * ?cols), int (length fs) * (int ?cols - 1), int (length fs * (m * k * (nb * cl))))"
  proof
    fix c assume "c \<in> set ?cs"
    then obtain j where j: "j < ch" "c = int j" using frame_bs_channels(2) [OF pos(1-3) h fs(1), of c] by auto
    show "coalesce_channel (int nb) (int (k * (nb * cl))) ''window'' (map snd (filter (\<lambda>x. fst x = c) ?bs))
      = Inr (int (length fs * ?cols), int (length fs) * (int ?cols - 1), int (length fs * (m * k * (nb * cl))))"
      unfolding j(2) frame_bs_channel [OF j(1) pos(2,3) h] by (rule channel_ideal [OF pos(2,4,3,5) fs])
  qed
  from channel_loop_const [OF this, of 0 0 0]
  have loop: "channel_loop (int nb) (int (k * (nb * cl))) ''window'' ?bs ?cs (0, 0, 0)
      = Inr (int (ch * length fs * ?cols), int (ch * length fs) * (int ?cols - 1), int (length fs * (m * k * nb * (ch * cl))))"
    unfolding len by (simp add: algebra_simps)
  have cols: "0 < ?cols" "0 < ch * length fs" using pos fs by simp_all
  then have nz: "int (ch * length fs * ?cols) \<noteq> 0" by (metis nat_0_less_mult_iff of_nat_0_less_iff less_irrefl)
  have c: "0 < real (ch * length fs)" "0 < real ?cols" using cols by (simp_all only: of_nat_0_less_iff)
  have "real_of_int (int (ch * length fs) * (int ?cols - 1)) / real_of_int (int (ch * length fs * ?cols))
      = (real (ch * length fs) * (real ?cols - 1)) / (real (ch * length fs) * real ?cols)" by simp
  also have "\<dots> = (real ?cols - 1) / real ?cols" using c(1) by (rule mult_divide_mult_cancel_left [OF less_imp_neq [symmetric]])
  also have "\<dots> = 1 - 1 / real ?cols" using c(2) by (simp add: diff_divide_distrib del: of_nat_mult)
  finally have one: "real_of_int (int (ch * length fs) * (int ?cols - 1)) / real_of_int (int (ch * length fs * ?cols))
      = 1 - 1 / real ?cols" .
  have "length fs * (m * k * nb * (ch * cl)) = nb * (ch * length fs * ?cols)" by (simp add: algebra_simps)
  then have "real_of_int (int (length fs * (m * k * nb * (ch * cl)))) = real_of_int (int nb) * real_of_int (int (ch * length fs * ?cols))"
    unfolding of_int_of_nat_eq of_nat_mult [symmetric] by (simp only:)
  moreover have "real_of_int (int nb) * real_of_int (int (ch * length fs * ?cols)) \<noteq> 0" using pos(3) nz by simp
  ultimately have two: "real_of_int (int (length fs * (m * k * nb * (ch * cl))))
      / (real_of_int (int nb) * real_of_int (int (ch * length fs * ?cols))) = 1" by (simp only: divide_self_if if_False)
  show ?thesis
    unfolding sequence_metrics_def g loop sum.case prod.case if_P [OF nz] one two ..
qed

text \<open>A window that is a whole number of stripes and divides a frame.\<close>

definition window_fits :: "dram_geometry \<Rightarrow> int \<Rightarrow> bool" where
  "window_fits g window \<longleftrightarrow> 0 < window \<and> window mod (banks_per_channel g * line_bursts g) = 0
     \<and> (banks_per_channel g * cols_per_row g) mod window = 0"

lemma window_fitsD:
  assumes "window_fits g window" "banks_per_channel g = int nb" "line_bursts g = int cl" "cols_per_row g = int (h * cl)"
    and "0 < nb" "0 < cl" "0 < h"
  obtains k m where "0 < k" "0 < m" "window = int (k * (nb * cl))" "h = m * k"
proof -
  have "int (nb * cl) dvd window" using assms(1-3) by (simp add: window_fits_def mod_eq_0_iff_dvd)
  then obtain k where k: "window = int (nb * cl) * k" ..
  moreover have "0 < int (nb * cl)" using assms(5,6) by simp
  moreover have "0 < window" using assms(1) by (simp add: window_fits_def)
  ultimately have kpos: "0 < k" by (metis zero_less_mult_pos)
  have "window dvd int nb * int (h * cl)" using assms(1,2,4) by (simp add: window_fits_def mod_eq_0_iff_dvd)
  then have "int (nb * cl) * k dvd int (nb * cl) * int h" unfolding k by (simp add: algebra_simps)
  then have "k dvd int h" using assms(5,6) by simp
  then obtain m where m: "int h = k * m" ..
  then have "0 < m" using assms(7) kpos by (metis of_nat_0_less_iff zero_less_mult_pos)
  show ?thesis
  proof (rule that)
    show "0 < nat k" "0 < nat m" using kpos \<open>0 < m\<close> by simp_all
    show "window = int (nat k * (nb * cl))" using kpos by (simp add: k algebra_simps)
    have "int h = int (nat m * nat k)" using m kpos \<open>0 < m\<close> by (simp add: mult.commute)
    then show "h = nat m * nat k" by (simp only: of_nat_eq_iff)
  qed
qed

lemma frame_tiles:
  assumes g: "valid_geometry geom"
    and G: "frame_blocks_for geom shape bt = Inr (int G)" "bt * kv_bytes_per_token shape \<le> frame_bytes geom"
      "kv_bytes_per_token shape mod burst_bytes geom = 0" "0 < bt" "0 < kv_bytes_per_token shape"
  shows "int G * (bt * (kv_bytes_per_token shape div burst_bytes geom)) = frame_bursts geom"
proof -
  let ?kv = "kv_bytes_per_token shape" and ?bpt = "kv_bytes_per_token shape div burst_bytes geom"
  have kv: "?kv = ?bpt * burst_bytes geom" using G(3) by (metis add.right_neutral div_mult_mod_eq)
  have "int G * (bt * ?kv) = frame_bytes geom"
    using G frame_blocks_for_Inr [OF g, of bt shape "int G"] zdvd_imp_le [of "frame_bytes geom" "bt * ?kv"]
    by (auto split: if_splits)
  then have "int G * (bt * (?bpt * burst_bytes geom)) = frame_bursts geom * burst_bytes geom"
    unfolding kv [symmetric] frame_bursts_bytes [OF g] .
  then have "int G * (bt * ?bpt) * burst_bytes geom = frame_bursts geom * burst_bytes geom" by (simp only: mult.assoc)
  then show ?thesis using valid_geometry_pos(5) [OF g] by simp
qed

lemma host_frames:
  assumes g: "valid_geometry geom" "AddrMap geom ''host-cacheline'' = Inr am"
    and G: "frame_blocks_for geom shape bt = Inr (int G)" "bt * kv_bytes_per_token shape \<le> frame_bytes geom"
      "kv_bytes_per_token shape mod burst_bytes geom = 0" "0 < bt" "0 < kv_bytes_per_token shape"
    and fs: "fs \<noteq> []" "distinct fs" "\<forall>f \<in> set fs. int f < rows_per_bank geom"
    and w: "window_fits geom window"
  defines "bpt \<equiv> kv_bytes_per_token shape div burst_bytes geom"
  shows "\<exists>phys cs. linear_bursts (frames_table G fs) (int (length fs * G) * bt) bpt bt = Inr phys \<and> map_addrs am phys = Inr cs
    \<and> sequence_metrics geom window ''window'' (map (\<lambda>c. (c Fch, flat_bank am c, c Fro)) cs)
      = Inr \<lparr>n_bursts = int (length fs) * frame_bursts geom, n_cmds = int (length fs) * channels geom * cols_per_row geom,
          n_hits = int (length fs) * channels geom * (cols_per_row geom - 1),
          m1 = 1 - 1 / real_of_int (cols_per_row geom), m2 = 1\<rparr>"
proof -
  obtain ch nb cl h where pos: "0 < ch" "0 < nb" "0 < cl" "0 < h"
    and e: "channels geom = int ch" "banks_per_channel geom = int nb" "line_bursts geom = int cl" "cols_per_row geom = int (h * cl)"
    and loc: "\<And>l. map_burst am (int l) Fch = int (l div cl mod ch)"
      "\<And>l. flat_bank am (map_burst am (int l)) = int (l div (ch * cl) mod nb)"
      "\<And>l. int l < total_bursts geom \<Longrightarrow> map_burst am (int l) Fro = int (l div (h * nb * (ch * cl)))"
    using host_line [OF g] by metis
  obtain k m where km: "0 < k" "0 < m" "window = int (k * (nb * cl))" "h = m * k"
    by (rule window_fitsD [OF w e(2-4) pos(2-4)])
  let ?F = "h * nb * (ch * cl)" and ?kv = "kv_bytes_per_token shape" and ?t = "frames_table G fs"
  have F: "frame_bursts geom = int ?F" by (simp add: frame_bursts_def e algebra_simps)
  have burst: "0 < burst_bytes geom" using g(1) by (rule valid_geometry_pos)
  have kv: "?kv = bpt * burst_bytes geom" using G(3) by (metis bpt_def add.right_neutral div_mult_mod_eq)
  then have bpt: "0 < bpt" using G(5) burst by (simp add: zero_less_mult_iff)
  define mm where "mm = nat (bt * bpt)"
  have mm: "bt * bpt = int mm" "0 < mm" using G(4) bpt by (simp_all add: mm_def)
  have GF: "G * mm = ?F"
  proof -
    have "int G * int mm = int ?F" using frame_tiles [OF g(1) G] by (simp only: bpt_def [symmetric] mm(1) F)
    then show ?thesis by (simp only: of_nat_mult [symmetric] of_nat_eq_iff)
  qed
  let ?L = "concat (map (\<lambda>f. [f * ?F..<(f + 1) * ?F]) fs)"
  have tot: "total_bursts geom = rows_per_bank geom * int ?F"
    using valid_geometry_total [OF g(1)] F by (simp add: frame_bursts_def algebra_simps)
  have inside: "int l < total_bursts geom" if l: "l \<in> set ?L" for l
  proof -
    obtain f where f: "f \<in> set fs" "l < (f + 1) * ?F"
      using l by auto
    have "(int f + 1) * int ?F \<le> rows_per_bank geom * int ?F" using fs(3) f(1) by (intro mult_right_mono) auto
    moreover have "int l < (int f + 1) * int ?F" using f(2) by (metis of_nat_1 of_nat_add of_nat_less_iff of_nat_mult)
    ultimately show ?thesis unfolding tot by linarith
  qed
  have "ceil_div (int (length fs * G) * bt) bt \<le> int (length ?t)"
    unfolding frames_table_length using ceil_div_le_iff [OF G(4)] by blast
  from linear_bursts_ok [OF G(4) bpt this]
  have lin: "linear_bursts ?t (int (length fs * G) * bt) bpt bt = Inr (map int ?L)"
    using frames_table_places [OF mm(2), of G fs] unfolding GF by (simp only: mm(1) mult.assoc of_nat_mult [symmetric])
  moreover have mapped: "map_addrs am (map int ?L) = Inr (map (map_burst am) (map int ?L))"
    unfolding map_addrs_Inr AddrMap_InrD(2) [OF g] using inside by auto
  moreover have "map (\<lambda>c. (c Fch, flat_bank am c, c Fro)) (map (map_burst am) (map int ?L)) = frame_bs ch nb cl h fs"
    unfolding frame_bs_def map_map comp_def loc(1,2) using loc(3) [OF inside] by (intro map_cong refl) simp
  moreover have "int (length fs * (h * nb * (ch * cl))) = int (length fs) * frame_bursts geom"
    "int (ch * length fs * (h * cl)) = int (length fs) * channels geom * cols_per_row geom"
    "int (ch * length fs) * (int (h * cl) - 1) = int (length fs) * channels geom * (cols_per_row geom - 1)"
    "real (h * cl) = real_of_int (cols_per_row geom)"
    by (simp_all add: F e mult.commute)
  ultimately show ?thesis
    using frame_bs_metrics [OF pos(1,3,2) km(1,2) fs(1,2) e(2)] unfolding km(3,4) by auto
qed

lemma frames_table_spread:
  assumes "0 < G" "fs \<noteq> []" "distinct fs"
  shows "G = 1 \<or> frame_spread (placement_diagnostics (frames_table G fs) (int G)) = Some 1"
proof (rule disjCI)
  assume "\<not> frame_spread (placement_diagnostics (frames_table G fs) (int G)) = Some 1"
  show "G = 1"
  proof (rule ccontr)
    assume "G \<noteq> 1"
    then have G: "1 < G" using assms(1) by simp
    let ?t = "frames_table G fs"
    have len: "length ?t = length fs * G" by (rule frames_table_length)
    have "1 * G \<le> length fs * G" using assms(2) by (intro mult_right_mono) (simp_all add: Suc_leI)
    then have two: "\<not> length ?t < 2" unfolding len using G by linarith
    have "(\<lambda>b. int b div int G) ` set ?t = int ` set fs"
    proof -
      have "(\<lambda>b. int b div int G) ` set [f * G..<f * G + G] = {int f}" for f
      proof -
        have "b div G = f" if "b \<in> set [f * G..<f * G + G]" for b
          using that assms(1) by (intro div_nat_eqI) (auto simp: mult.commute)
        then have "\<forall>b \<in> set [f * G..<f * G + G]. int b div int G = int f" by (simp flip: zdiv_int)
        moreover have "set [f * G..<f * G + G] \<noteq> {}" using assms(1) by simp
        ultimately show ?thesis by (metis (no_types, lifting) image_cong image_constant_conv)
      qed
      then show ?thesis by (simp only: set_concat set_map image_UN image_image UN_singleton) auto
    qed
    then have frames: "length (remdups (map (\<lambda>x. x div int G) (map int ?t))) = length fs"
      using assms(3) by (simp add: length_remdups_card_conv image_image card_image distinct_card)
    have "ceil_div (int (length ?t)) (int G) \<le> c \<longleftrightarrow> int (length fs) \<le> c" for c
      unfolding len using ceil_div_le_iff [of "int G" "int (length fs * G)" c] assms(1) by simp
    then have "ceil_div (int (length ?t)) (int G) = int (length fs)" by (meson order_antisym order_refl)
    then have "frame_spread (placement_diagnostics ?t (int G)) = Some 1"
      using two G frames assms(2) by (simp add: placement_diagnostics_def Let_def)
    then show False using \<open>\<not> frame_spread (placement_diagnostics (frames_table G fs) (int G)) = Some 1\<close> by simp
  qed
qed

lemma host_frames_measured:
  assumes g: "valid_geometry geom" "AddrMap geom ''host-cacheline'' = Inr am"
    and G: "frame_blocks_for geom shape bt = Inr (int G)" "bt * kv_bytes_per_token shape \<le> frame_bytes geom"
      "kv_bytes_per_token shape mod burst_bytes geom = 0" "0 < bt" "0 < kv_bytes_per_token shape"
    and fs: "fs \<noteq> []" "distinct fs" "\<forall>f \<in> set fs. int f < rows_per_bank geom"
    and w: "window_fits geom window" and t: "0 < tccd_ab_ns timing" "0 < trc_ns timing"
  shows "\<exists>row. measure_seq k (int (length fs * G) * bt) (frames_table G fs) am geom shape timing bt window ''window'' (int G) = Inr row
    \<and> n_bursts (row_metrics row) = int (length fs) * frame_bursts geom
    \<and> n_cmds (row_metrics row) = int (length fs) * channels geom * cols_per_row geom
    \<and> m1 (row_metrics row) = 1 - 1 / real_of_int (cols_per_row geom) \<and> m2 (row_metrics row) = 1
    \<and> (G = 1 \<or> frame_spread (row_placement row) = Some 1)"
proof -
  let ?bpt = "kv_bytes_per_token shape div burst_bytes geom" and ?n = "int (length fs * G) * bt" and ?t = "frames_table G fs"
  obtain phys cs where m: "linear_bursts ?t ?n ?bpt bt = Inr phys" "map_addrs am phys = Inr cs"
    "sequence_metrics geom window ''window'' (map (\<lambda>c. (c Fch, flat_bank am c, c Fro)) cs)
      = Inr \<lparr>n_bursts = int (length fs) * frame_bursts geom, n_cmds = int (length fs) * channels geom * cols_per_row geom,
          n_hits = int (length fs) * channels geom * (cols_per_row geom - 1),
          m1 = 1 - 1 / real_of_int (cols_per_row geom), m2 = 1\<rparr>"
    using host_frames [OF g G fs w] by blast
  have "0 < int G"
    using frame_tiles [OF g(1) G] frame_bursts_bytes [OF g(1)] frame_bytes_pos [OF g(1)] by (cases "G = 0") auto
  then have Gpos: "0 < G" by simp
  let ?x = "1 - 1 / real_of_int (cols_per_row geom)"
  have x: "0 \<le> ?x" "?x < 1" using valid_geometry_cols(2) [OF g(1)] by (simp_all add: divide_le_eq_1)
  define tc where "tc = ?x * tccd_ab_ns timing + (1 - ?x) * trc_ns timing"
  have "0 < (1 - ?x) * trc_ns timing" using x(2) t(2) by (intro mult_pos_pos) simp_all
  moreover have "0 \<le> ?x * tccd_ab_ns timing" using x(1) t(1) by (intro mult_nonneg_nonneg) simp_all
  ultimately have tc: "0 < tc" unfolding tc_def by linarith
  define bw where "bw = bw_ideal geom timing * 1 * (tccd_ab_ns timing / tc)"
  have eff: "effective_bandwidth_gbps ?x 1 geom timing = Inr bw"
    unfolding effective_bandwidth_gbps_def tc_def [symmetric] bw_def Let_def using t(1) tc by simp
  have "0 < bw_ideal geom timing"
    using valid_geometry_pos [OF g(1)] t(1) by (simp add: bw_ideal_def banks_per_channel_def)
  then have "bw \<noteq> 0" unfolding bw_def using t(1) tc by simp
  then show ?thesis
    using m eff frames_table_spread [OF Gpos fs(1,2)] by (simp add: measure_seq_def Let_def decode_latency_ns_def)
qed

section \<open>Properties\<close>

text \<open>C5: Frame-aligned placement is ideal. Under the host-cacheline map, for any valid geometry, any block size that tiles
  the alignment frame and any controller window that is a whole number of stripes and divides a frame: a
  sequence that occupies whole frames, in any order of frames, is measured with bank parallelism exactly 1
  and row-hit rate exactly \<open>1 - 1 / cols_per_row\<close> (one miss per row of each channel), and a frame spread of 1.\<close>

theorem whole_frames_are_ideal:
  assumes g: "valid_geometry geom" "AddrMap geom ''host-cacheline'' = Inr am"
    and G: "frame_blocks_for geom shape bt = Inr (int G)" "bt * kv_bytes_per_token shape \<le> frame_bytes geom"
      "kv_bytes_per_token shape mod burst_bytes geom = 0" "0 < bt" "0 < kv_bytes_per_token shape"
    and fs: "fs \<noteq> []" "distinct fs" "\<forall>f \<in> set fs. int f < rows_per_bank geom"
    and w: "window_fits geom window" and t: "0 < tccd_ab_ns timing" "0 < trc_ns timing"
  shows "\<exists>row. measure_seq k (int (length fs * G) * bt) (concat (map (\<lambda>f. [f * G..<f * G + G]) fs))
      am geom shape timing bt window ''window'' (int G) = Inr row
    \<and> n_bursts (row_metrics row) = int (length fs) * frame_bursts geom
    \<and> n_cmds (row_metrics row) = int (length fs) * channels geom * cols_per_row geom
    \<and> m1 (row_metrics row) = 1 - 1 / real_of_int (cols_per_row geom) \<and> m2 (row_metrics row) = 1
    \<and> (G = 1 \<or> frame_spread (row_placement row) = Some 1)"
  by (rule host_frames_measured [OF assms])


section \<open>Witnesses\<close>

lemma tiny_frames:
  "frame_blocks_for TINY tiny_shape 16 = Inr (int 4)" "16 * kv_bytes_per_token tiny_shape \<le> frame_bytes TINY"
  "kv_bytes_per_token tiny_shape mod burst_bytes TINY = 0" "0 < (16 :: int)" "0 < kv_bytes_per_token tiny_shape"
  "window_fits TINY 16" "0 < tccd_ab_ns DEFAULT_TIMING" "0 < trc_ns DEFAULT_TIMING" "cols_per_row TINY = 8"
  by (code_simp, code_simp, code_simp, simp, code_simp, code_simp, simp add: DEFAULT_TIMING_def, simp add: DEFAULT_TIMING_def, code_simp)

lemma whole_frames_are_ideal_witness:
  "\<exists>row. measure_seq 1 128 [8, 9, 10, 11, 0, 1, 2, 3] TINY_map TINY tiny_shape DEFAULT_TIMING 16 16 ''window'' 4 = Inr row
    \<and> m1 (row_metrics row) = 7 / 8 \<and> m2 (row_metrics row) = 1 \<and> frame_spread (row_placement row) = Some 1"
proof -
  have "\<forall>f \<in> set [2, 0]. int f < rows_per_bank TINY" by code_simp
  from whole_frames_are_ideal [OF TINY_valid TINY_map tiny_frames(1-5) _ _ this tiny_frames(6-8), of 1]
  obtain row where "measure_seq 1 128 (frames_table 4 [2, 0]) TINY_map TINY tiny_shape DEFAULT_TIMING 16 16 ''window'' 4 = Inr row"
      "m1 (row_metrics row) = 7 / 8" "m2 (row_metrics row) = 1" "frame_spread (row_placement row) = Some 1"
    by (auto simp: tiny_frames(9))
  moreover have "frames_table 4 [2, 0] = [8, 9, 10, 11, 0, 1, 2, 3]" by code_simp
  ultimately show ?thesis by metis
qed


end
