(* ===== verification/Workload.thy ===== *)
theory Workload
  imports Sim_Oracle
begin

text \<open>
  The request-stream generators (\<open>pimkv/workload.py\<close>) and the automatic pool size (\<open>auto_pool_blocks\<close> of
  \<open>pimkv/sim.py\<close>). The numpy generator is a parameter: its array draws on a generator state. Floats are reals.
\<close>

section \<open>The random generator\<close>

text \<open>\<open>lognormal(mean, sigma, n)\<close>, \<open>exponential(scale, n)\<close>, \<open>integers(lo, hi, n)\<close>, \<open>integers(lo, hi)\<close>, \<open>random(n)\<close>,
  \<open>random()\<close>, \<open>integers(n)\<close> and \<open>choice(n, size, replace=False)\<close>; upper bounds are exclusive.\<close>

record 'g numpy =
  default_rng :: "int \<Rightarrow> 'g"
  np_lognormal :: "real \<Rightarrow> real \<Rightarrow> nat \<Rightarrow> 'g \<Rightarrow> real list \<times> 'g"
  np_exponential :: "real \<Rightarrow> nat \<Rightarrow> 'g \<Rightarrow> real list \<times> 'g"
  np_integers :: "int \<Rightarrow> int \<Rightarrow> nat \<Rightarrow> 'g \<Rightarrow> int list \<times> 'g"
  np_integer :: "int \<Rightarrow> int \<Rightarrow> 'g \<Rightarrow> int \<times> 'g"
  np_random :: "nat \<Rightarrow> 'g \<Rightarrow> real list \<times> 'g"
  np_uniform :: "'g \<Rightarrow> rat \<times> 'g"
  np_below :: "'g \<Rightarrow> int \<Rightarrow> nat \<times> 'g"
  np_choice :: "'g \<Rightarrow> nat \<Rightarrow> nat \<Rightarrow> nat list \<times> 'g"

text \<open>What numpy documents: the number of draws and their ranges.\<close>

definition numpy_ok :: "'g numpy \<Rightarrow> bool" where
  "numpy_ok R \<longleftrightarrow>
     (\<forall>m s n g. length (fst (np_lognormal R m s n g)) = n)
     \<and> (\<forall>scale n g. length (fst (np_exponential R scale n g)) = n \<and> (0 < scale \<longrightarrow> (\<forall>x \<in> set (fst (np_exponential R scale n g)). 0 \<le> x)))
     \<and> (\<forall>lo hi n g. length (fst (np_integers R lo hi n g)) = n
          \<and> (lo < hi \<longrightarrow> (\<forall>x \<in> set (fst (np_integers R lo hi n g)). lo \<le> x \<and> x < hi)))
     \<and> (\<forall>lo hi g. lo < hi \<longrightarrow> lo \<le> fst (np_integer R lo hi g) \<and> fst (np_integer R lo hi g) < hi)
     \<and> (\<forall>n g. length (fst (np_random R n g)) = n)
     \<and> (\<forall>g n. 0 < n \<longrightarrow> int (fst (np_below R g n)) < n)
     \<and> choice_ok (np_choice R)"

text \<open>\<open>np.round\<close> goes to the nearest even integer when it is in the middle.\<close>

definition np_round :: "real \<Rightarrow> int" where
  "np_round x = (let k = floor x; d = x - of_int k in
     if d < 1 / 2 then k else if d > 1 / 2 then k + 1 else if even k then k else k + 1)"

definition np_clip :: "int \<Rightarrow> int \<Rightarrow> int \<Rightarrow> int" where
  "np_clip x lo hi = min (max x lo) hi"

fun cumsum_from :: "real \<Rightarrow> real list \<Rightarrow> real list" where
  "cumsum_from acc [] = []"
| "cumsum_from acc (x # xs) = (acc + x) # cumsum_from (acc + x) xs"

section \<open>Generators\<close>

definition lognormal_lengths :: "'g numpy \<Rightarrow> nat \<Rightarrow> real \<Rightarrow> real \<Rightarrow> int \<Rightarrow> int \<Rightarrow> 'g \<Rightarrow> int list \<times> 'g" where
  "lognormal_lengths R n median sigma lo hi g =
     (let (x, g) = np_lognormal R (ln median) sigma n g in (map (\<lambda>v. np_clip (np_round v) lo hi) x, g))"

definition poisson_arrivals :: "'g numpy \<Rightarrow> nat \<Rightarrow> real \<Rightarrow> 'g \<Rightarrow> int list \<times> 'g" where
  "poisson_arrivals R n rate_per_step g =
     (let (gaps, g) = np_exponential R (1 / rate_per_step) n g in (map floor (cumsum_from 0 gaps), g))"

definition plain_request :: "int list \<Rightarrow> int list \<Rightarrow> int list \<Rightarrow> nat \<Rightarrow> request" where
  "plain_request arrive prompts outputs i = \<lparr>rid = int i, arrival_step = arrive ! i, prompt_len = prompts ! i,
     output_len = outputs ! i, prefix_id = None, prefix_len = 0\<rparr>"

record steady_args =
  arrival_rate :: real
  prompt_median :: real
  prompt_sigma :: real
  output_median :: real
  output_sigma :: real

definition steady_defaults :: steady_args where
  "steady_defaults = \<lparr>arrival_rate = 1 / 4, prompt_median = 200, prompt_sigma = 1, output_median = 200, output_sigma = 4 / 5\<rparr>"

definition steady :: "'g numpy \<Rightarrow> steady_args \<Rightarrow> nat \<Rightarrow> int \<Rightarrow> request list" where
  "steady R a n_requests seed =
     (let g = default_rng R seed;
          (arrive, g) = poisson_arrivals R n_requests (arrival_rate a) g;
          (prompts, g) = lognormal_lengths R n_requests (prompt_median a) (prompt_sigma a) 8 8192 g;
          (outputs, g) = lognormal_lengths R n_requests (output_median a) (output_sigma a) 4 2048 g
      in map (plain_request arrive prompts outputs) [0..<n_requests])"

definition longctx :: "'g numpy \<Rightarrow> real \<Rightarrow> nat \<Rightarrow> int \<Rightarrow> request list" where
  "longctx R rate n_requests seed =
     (let g = default_rng R seed;
          (arrive, g) = poisson_arrivals R n_requests rate g;
          (prompts, g) = np_integers R 8192 (32768 + 1) n_requests g;
          (outputs, g) = np_integers R 32 (256 + 1) n_requests g
      in map (plain_request arrive prompts outputs) [0..<n_requests])"

record prefix_args =
  px_arrival_rate :: real
  share_frac :: real
  unique_median :: real
  px_output_median :: real

definition prefix_defaults :: prefix_args where
  "prefix_defaults = \<lparr>px_arrival_rate = 1 / 4, share_frac = 7 / 10, unique_median = 150, px_output_median = 200\<rparr>"

definition prefix_wl :: "'g numpy \<Rightarrow> prefix_args \<Rightarrow> nat \<Rightarrow> int \<Rightarrow> request list" where
  "prefix_wl R a n_requests seed =
     (let g = default_rng R seed;
          (prefix_len, g) = np_integer R 500 (1500 + 1) g;
          (arrive, g) = poisson_arrivals R n_requests (px_arrival_rate a) g;
          (u, g) = np_random R n_requests g;
          shared = map (\<lambda>x. x < share_frac a) u;
          (uniq, g) = lognormal_lengths R n_requests (unique_median a) (4 / 5) 8 4096 g;
          (plain, g) = lognormal_lengths R n_requests 200 1 8 8192 g;
          (outputs, g) = lognormal_lengths R n_requests (px_output_median a) (4 / 5) 4 2048 g
      in map (\<lambda>i. if shared ! i
           then \<lparr>rid = int i, arrival_step = arrive ! i, prompt_len = prefix_len + uniq ! i, output_len = outputs ! i,
                  prefix_id = Some 0, prefix_len = prefix_len\<rparr>
           else plain_request arrive plain outputs i) [0..<n_requests])"

text \<open>The speculation itself is done by the simulator.\<close>

definition spec_wl :: "'g numpy \<Rightarrow> steady_args \<Rightarrow> nat \<Rightarrow> int \<Rightarrow> request list" where
  "spec_wl R a n_requests seed = steady R a n_requests seed"

record fixedlen_args =
  fx_prompt_len :: int
  fx_output_len :: int
  fx_arrival_rate :: real

definition fixedlen_defaults :: fixedlen_args where
  "fixedlen_defaults = \<lparr>fx_prompt_len = 2048, fx_output_len = 128, fx_arrival_rate = 3 / 10\<rparr>"

definition fixedlen :: "'g numpy \<Rightarrow> fixedlen_args \<Rightarrow> nat \<Rightarrow> int \<Rightarrow> request list" where
  "fixedlen R a n_requests seed =
     (let (arrive, g) = poisson_arrivals R n_requests (fx_arrival_rate a) (default_rng R seed)
      in map (\<lambda>i. \<lparr>rid = int i, arrival_step = arrive ! i, prompt_len = fx_prompt_len a, output_len = fx_output_len a,
           prefix_id = None, prefix_len = 0\<rparr>) [0..<n_requests])"

text \<open>The table of workloads with their default arguments.\<close>

definition WORKLOADS :: "'g numpy \<Rightarrow> (string, nat \<Rightarrow> int \<Rightarrow> request list) dict" where
  "WORKLOADS R = [(''steady'', steady R steady_defaults), (''longctx'', longctx R (1 / 5)),
     (''prefix'', prefix_wl R prefix_defaults), (''spec'', spec_wl R steady_defaults),
     (''fixedlen'', fixedlen R fixedlen_defaults)]"

section \<open>The automatic pool size\<close>

text \<open>\<open>int(x)\<close> of a float; \<open>np.mean\<close> of no numbers is NaN, which \<open>int\<close> refuses.\<close>

definition trunc :: "real \<Rightarrow> int" where
  "trunc x = (if x < 0 then - floor (- x) else floor x)"

definition auto_pool_blocks :: "request list \<Rightarrow> int \<Rightarrow> int \<Rightarrow> real \<Rightarrow> py_error + int" where
  "auto_pool_blocks requests bt mb headroom =
     (if requests = [] then Inl ValueError
      else if bt = 0 then Inl ZeroDivisionError
      else let mean_total = real_of_int (\<Sum>r \<leftarrow> requests. prompt_len r + output_len r) / real (length requests)
        in Inr (trunc (headroom * real_of_int mb * real_of_int (ceil_div (trunc mean_total + 1) bt))))"

section \<open>Draws\<close>

lemma np_clip_range: "lo \<le> hi \<Longrightarrow> lo \<le> np_clip x lo hi \<and> np_clip x lo hi \<le> hi"
  by (auto simp: np_clip_def)

lemma cumsum_from_ok:
  "length (cumsum_from acc xs) = length xs"
  "\<forall>x \<in> set xs. 0 \<le> x \<Longrightarrow> sorted (cumsum_from acc xs) \<and> (\<forall>y \<in> set (cumsum_from acc xs). acc \<le> y)"
proof (induction xs arbitrary: acc)
  case (Cons x xs)
  case 2
  have IH: "sorted (cumsum_from (acc + x) xs) \<and> (\<forall>y \<in> set (cumsum_from (acc + x) xs). acc + x \<le> y)"
    by (rule Cons.IH(2)) (use 2 in simp)
  moreover have "0 \<le> x" using 2 by simp
  ultimately show ?case by (fastforce simp: order_trans)
qed simp_all

lemma sorted_floor: "sorted xs \<Longrightarrow> sorted (map floor xs)" for xs :: "real list"
  by (induction xs) (auto intro: floor_mono)

lemma poisson_ok:
  assumes R: "numpy_ok R" and rate: "0 < rate" and run: "poisson_arrivals R n rate g = (arrive, g')"
  shows "length arrive = n" "sorted arrive" "\<forall>x \<in> set arrive. 0 \<le> x"
proof -
  let ?gaps = "fst (np_exponential R (1 / rate) n g)"
  have "0 < 1 / rate" using rate by simp
  then have gaps: "length ?gaps = n" "\<forall>x \<in> set ?gaps. 0 \<le> x" using R unfolding numpy_ok_def by blast+
  have a: "arrive = map floor (cumsum_from 0 ?gaps)" using run by (auto simp: poisson_arrivals_def split: prod.splits)
  show "length arrive = n" unfolding a using cumsum_from_ok(1) gaps(1) by simp
  show "sorted arrive" unfolding a using cumsum_from_ok(2) [OF gaps(2)] by (intro sorted_floor) blast
  show "\<forall>x \<in> set arrive. 0 \<le> x" unfolding a using cumsum_from_ok(2) [OF gaps(2), of 0] by auto
qed

lemma lognormal_ok:
  assumes R: "numpy_ok R" and "lo \<le> hi" and run: "lognormal_lengths R n median sigma lo hi g = (ls, g')"
  shows "length ls = n" "\<forall>x \<in> set ls. lo \<le> x \<and> x \<le> hi"
proof -
  have a: "ls = map (\<lambda>v. np_clip (np_round v) lo hi) (fst (np_lognormal R (ln median) sigma n g))"
    using run by (auto simp: lognormal_lengths_def split: prod.splits)
  show "length ls = n" unfolding a using R by (simp add: numpy_ok_def)
  show "\<forall>x \<in> set ls. lo \<le> x \<and> x \<le> hi" unfolding a using np_clip_range [OF assms(2)] by auto
qed

section \<open>Streams\<close>

text \<open>A stream of \<open>n\<close> requests, numbered in order of arrival, every request with the property \<open>P\<close>.\<close>

definition stream_ok :: "nat \<Rightarrow> (request \<Rightarrow> bool) \<Rightarrow> request list \<Rightarrow> bool" where
  "stream_ok n P rs \<longleftrightarrow> map rid rs = map int [0..<n] \<and> sorted (map arrival_step rs)
     \<and> (\<forall>r \<in> set rs. 0 \<le> arrival_step r \<and> P r)"

lemma stream_okI:
  assumes "length arrive = n" "sorted arrive" "\<forall>x \<in> set arrive. 0 \<le> x"
    and "\<And>i. i < n \<Longrightarrow> rid (f i) = int i \<and> arrival_step (f i) = arrive ! i \<and> P (f i)"
  shows "stream_ok n P (map f [0..<n])"
proof -
  have "map arrival_step (map f [0..<n]) = map ((!) arrive) [0..<length arrive]"
    using assms(1,4) by (simp add: comp_def)
  also have "\<dots> = arrive" by (rule map_nth)
  finally have arr: "map arrival_step (map f [0..<n]) = arrive" .
  have "map rid (map f [0..<n]) = map int [0..<n]" using assms(4) by simp
  moreover have "\<forall>r \<in> set (map f [0..<n]). 0 \<le> arrival_step r \<and> P r"
    using assms(1,3,4) by auto
  ultimately show ?thesis unfolding stream_ok_def arr using assms(2) by blast
qed

lemma stream_ok_weaken: "stream_ok n P rs \<Longrightarrow> (\<And>r. P r \<Longrightarrow> Q r) \<Longrightarrow> stream_ok n Q rs"
  by (auto simp: stream_ok_def)

text \<open>What the simulator relies on: a stream is already in the order \<open>simulate\<close> sorts it into, with distinct ids.\<close>

lemma stream_distinct: "stream_ok n P rs \<Longrightarrow> distinct (map rid rs)"
  by (simp add: stream_ok_def distinct_map)

lemma stream_sorted:
  assumes "stream_ok n P rs"
  shows "sort_key (\<lambda>r. (arrival_step r, rid r)) rs = rs"
proof (rule sort_key_id_if_sorted)
  have rid: "map rid rs = map int [0..<n]" and arr: "sorted (map arrival_step rs)" using assms by (simp_all add: stream_ok_def)
  have len: "length rs = n" using arg_cong [OF rid, of length] by simp
  have nth: "rid (rs ! i) = int i" if "i < n" for i using arg_cong [OF rid, of "\<lambda>xs. xs ! i"] that len by simp
  show "sorted (map (\<lambda>r. (arrival_step r, rid r)) rs)"
  proof (unfold sorted_iff_nth_mono, intro allI impI)
    fix i j assume ij: "i \<le> j" "j < length (map (\<lambda>r. (arrival_step r, rid r)) rs)"
    then have "arrival_step (rs ! i) \<le> arrival_step (rs ! j)" using sorted_nth_mono [OF arr ij(1)] by simp
    moreover have "i < n" "j < n" using ij len by simp_all
    ultimately have "arrival_step (rs ! i) \<le> arrival_step (rs ! j)" "i < n" "j < n" .
    then show "map (\<lambda>r. (arrival_step r, rid r)) rs ! i \<le> map (\<lambda>r. (arrival_step r, rid r)) rs ! j"
      using ij nth [of i] nth [of j] len by (auto simp: less_eq_prod_def)
  qed
qed

text \<open>The streams of the five workloads.\<close>

lemma plain_request_simps [simp]:
  "rid (plain_request a p q i) = int i" "arrival_step (plain_request a p q i) = a ! i" "prompt_len (plain_request a p q i) = p ! i"
  "output_len (plain_request a p q i) = q ! i" "prefix_id (plain_request a p q i) = None" "prefix_len (plain_request a p q i) = 0"
  by (simp_all add: plain_request_def)

lemma nth_prop: "length xs = n \<Longrightarrow> \<forall>x \<in> set xs. P x \<Longrightarrow> i < n \<Longrightarrow> P (xs ! i)"
  by (metis nth_mem)

lemma steady_ok:
  assumes R: "numpy_ok R" and rate: "0 < arrival_rate a"
  shows "stream_ok n (\<lambda>r. 8 \<le> prompt_len r \<and> prompt_len r \<le> 8192 \<and> 4 \<le> output_len r \<and> output_len r \<le> 2048
    \<and> prefix_id r = None \<and> prefix_len r = 0) (steady R a n seed)"
proof -
  obtain arrive g1 where 1: "poisson_arrivals R n (arrival_rate a) (default_rng R seed) = (arrive, g1)" by fastforce
  obtain prompts g2 where 2: "lognormal_lengths R n (prompt_median a) (prompt_sigma a) 8 8192 g1 = (prompts, g2)" by fastforce
  obtain outputs g3 where 3: "lognormal_lengths R n (output_median a) (output_sigma a) 4 2048 g2 = (outputs, g3)" by fastforce
  note p = lognormal_ok [OF R _ 2] and q = lognormal_ok [OF R _ 3]
  have eq: "steady R a n seed = map (plain_request arrive prompts outputs) [0..<n]" by (simp add: steady_def 1 2 3)
  show ?thesis
    unfolding eq by (rule stream_okI [OF poisson_ok [OF R rate 1]]) (use p q nth_prop in simp)
qed

lemma longctx_ok:
  assumes R: "numpy_ok R" and rate: "0 < rate"
  shows "stream_ok n (\<lambda>r. 8192 \<le> prompt_len r \<and> prompt_len r \<le> 32768 \<and> 32 \<le> output_len r \<and> output_len r \<le> 256
    \<and> prefix_id r = None \<and> prefix_len r = 0) (longctx R rate n seed)"
proof -
  obtain arrive g1 where 1: "poisson_arrivals R n rate (default_rng R seed) = (arrive, g1)" by fastforce
  obtain prompts g2 where 2: "np_integers R 8192 (32768 + 1) n g1 = (prompts, g2)" by fastforce
  obtain outputs g3 where 3: "np_integers R 32 (256 + 1) n g2 = (outputs, g3)" by fastforce
  have ints: "length (fst (np_integers R lo hi n g)) = n \<and> (\<forall>x \<in> set (fst (np_integers R lo hi n g)). lo \<le> x \<and> x < hi)"
    if "lo < hi" for lo hi g using R that unfolding numpy_ok_def by blast
  have p: "length prompts = n" "\<forall>x \<in> set prompts. 8192 \<le> x \<and> x < 32768 + 1"
    and q: "length outputs = n" "\<forall>x \<in> set outputs. 32 \<le> x \<and> x < 256 + 1"
    using ints [of 8192 "32768 + 1" g1] ints [of 32 "256 + 1" g2] unfolding 2 3 by simp_all
  have eq: "longctx R rate n seed = map (plain_request arrive prompts outputs) [0..<n]"
    unfolding longctx_def Let_def 1 prod.case 2 3 ..
  show ?thesis
    unfolding eq by (rule stream_okI [OF poisson_ok [OF R rate 1]]) (use nth_prop [OF p] nth_prop [OF q] in fastforce)
qed

lemma prefix_ok:
  assumes R: "numpy_ok R" and rate: "0 < px_arrival_rate a"
  shows "stream_ok n (\<lambda>r. 8 \<le> prompt_len r \<and> prompt_len r \<le> 8192 \<and> 4 \<le> output_len r \<and> output_len r \<le> 2048
    \<and> (prefix_id r = None \<and> prefix_len r = 0
       \<or> prefix_id r = Some 0 \<and> 500 \<le> prefix_len r \<and> prefix_len r \<le> 1500 \<and> prefix_len r + 8 \<le> prompt_len r)) (prefix_wl R a n seed)"
proof -
  obtain pl g0 where 0: "np_integer R 500 (1500 + 1) (default_rng R seed) = (pl, g0)" by fastforce
  obtain arrive g1 where 1: "poisson_arrivals R n (px_arrival_rate a) g0 = (arrive, g1)" by fastforce
  obtain u g2 where 2: "np_random R n g1 = (u, g2)" by fastforce
  obtain uniq g3 where 3: "lognormal_lengths R n (unique_median a) (4 / 5) 8 4096 g2 = (uniq, g3)" by fastforce
  obtain plain g4 where 4: "lognormal_lengths R n 200 1 8 8192 g3 = (plain, g4)" by fastforce
  obtain outputs g5 where 5: "lognormal_lengths R n (px_output_median a) (4 / 5) 4 2048 g4 = (outputs, g5)" by fastforce
  note x = lognormal_ok [OF R _ 3] and p = lognormal_ok [OF R _ 4] and q = lognormal_ok [OF R _ 5]
  have "(500 :: int) < 1500 + 1" by simp
  then have "500 \<le> fst (np_integer R 500 (1500 + 1) (default_rng R seed)) \<and> fst (np_integer R 500 (1500 + 1) (default_rng R seed)) < 1500 + 1"
    using R unfolding numpy_ok_def by blast
  then have pl: "500 \<le> pl" "pl \<le> 1500" unfolding 0 by simp_all
  have eq: "prefix_wl R a n seed = map (\<lambda>i. if map (\<lambda>x. x < share_frac a) u ! i
       then \<lparr>rid = int i, arrival_step = arrive ! i, prompt_len = pl + uniq ! i, output_len = outputs ! i,
              prefix_id = Some 0, prefix_len = pl\<rparr>
       else plain_request arrive plain outputs i) [0..<n]"
    unfolding prefix_wl_def Let_def 0 prod.case 1 2 3 4 5 ..
  have len: "8 \<le> uniq ! i \<and> uniq ! i \<le> 4096" "8 \<le> plain ! i \<and> plain ! i \<le> 8192" "4 \<le> outputs ! i \<and> outputs ! i \<le> 2048" if "i < n" for i
    using x p q that by simp_all
  show ?thesis
    unfolding eq by (rule stream_okI [OF poisson_ok [OF R rate 1]]) (use len pl in force)
qed

lemma fixedlen_ok:
  assumes R: "numpy_ok R" and rate: "0 < fx_arrival_rate a"
  shows "stream_ok n (\<lambda>r. prompt_len r = fx_prompt_len a \<and> output_len r = fx_output_len a
    \<and> prefix_id r = None \<and> prefix_len r = 0) (fixedlen R a n seed)"
proof -
  obtain arrive g1 where 1: "poisson_arrivals R n (fx_arrival_rate a) (default_rng R seed) = (arrive, g1)" by fastforce
  show ?thesis
    unfolding fixedlen_def 1 Let_def prod.case by (rule stream_okI [OF poisson_ok [OF R rate 1]]) simp
qed

definition typed_request :: "request \<Rightarrow> bool" where
  "typed_request r \<longleftrightarrow> 8 \<le> prompt_len r \<and> prompt_len r \<le> 32768 \<and> 4 \<le> output_len r \<and> output_len r \<le> 2048
     \<and> (prefix_id r = None \<and> prefix_len r = 0
        \<or> prefix_id r = Some 0 \<and> 500 \<le> prefix_len r \<and> prefix_len r \<le> 1500 \<and> prefix_len r + 8 \<le> prompt_len r)"

lemma workloads_typed:
  assumes R: "numpy_ok R" and gen: "map_of (WORKLOADS R) name = Some gen"
  shows "stream_ok n (\<lambda>r. typed_request r \<and> (name = ''prefix'' \<or> request_ok r)) (gen n seed)"
proof -
  have rates: "0 < arrival_rate steady_defaults" "0 < px_arrival_rate prefix_defaults" "0 < fx_arrival_rate fixedlen_defaults"
    by (simp_all add: steady_defaults_def prefix_defaults_def fixedlen_defaults_def)
  have fx: "fx_prompt_len fixedlen_defaults = 2048" "fx_output_len fixedlen_defaults = 128" by (simp_all add: fixedlen_defaults_def)
  consider "name = ''steady''" "gen = steady R steady_defaults" | "name = ''longctx''" "gen = longctx R (1 / 5)"
    | "name = ''prefix''" "gen = prefix_wl R prefix_defaults" | "name = ''spec''" "gen = spec_wl R steady_defaults"
    | "name = ''fixedlen''" "gen = fixedlen R fixedlen_defaults"
    using gen by (auto simp: WORKLOADS_def split: if_splits)
  then show ?thesis
  proof cases
    case 1
    show ?thesis unfolding 1 by (rule stream_ok_weaken [OF steady_ok [OF R rates(1)]]) (simp add: typed_request_def request_ok_def)
  next
    case 2
    show ?thesis unfolding 2 by (rule stream_ok_weaken [OF longctx_ok [OF R]]) (simp_all add: typed_request_def request_ok_def)
  next
    case 3
    show ?thesis unfolding 3 by (rule stream_ok_weaken [OF prefix_ok [OF R rates(2)]]) (auto simp: typed_request_def)
  next
    case 4
    show ?thesis unfolding 4 spec_wl_def
      by (rule stream_ok_weaken [OF steady_ok [OF R rates(1)]]) (simp add: typed_request_def request_ok_def)
  next
    case 5
    show ?thesis unfolding 5
      by (rule stream_ok_weaken [OF fixedlen_ok [OF R rates(3)]]) (simp add: typed_request_def request_ok_def fx)
  qed
qed

section \<open>The pool\<close>

lemma trunc_floor: "0 \<le> x \<Longrightarrow> trunc x = floor x"
  by (simp add: trunc_def)

lemma auto_pool_ok:
  assumes rs: "rs \<noteq> []" "\<forall>r \<in> set rs. 0 \<le> prompt_len r + output_len r" and bt: "0 < bt" and mb: "0 < mb" and h: "1 \<le> headroom"
  defines "tokens \<equiv> \<Sum>r \<leftarrow> rs. prompt_len r + output_len r"
  shows "\<exists>n. auto_pool_blocks rs bt mb headroom = Inr n \<and> mb \<le> n \<and> mb * tokens < n * bt * int (length rs)"
proof -
  let ?L = "int (length rs)"
  define mean where "mean = real_of_int tokens / real (length rs)"
  define q where "q = ceil_div (floor mean + 1) bt"
  have L: "0 < ?L" using rs(1) by simp
  have "0 \<le> tokens" unfolding tokens_def using rs(2) by (intro sum_list_nonneg) auto
  then have mean0: "0 \<le> mean" by (simp add: mean_def)
  have q: "floor mean + 1 \<le> q * bt" using ceil_div_le_iff [OF bt, of "floor mean + 1" q] by (simp add: q_def)
  have q1: "1 \<le> q"
  proof (rule ccontr)
    assume "\<not> 1 \<le> q"
    then have "q * bt \<le> 0" using bt by (simp add: mult_nonpos_nonneg)
    moreover have "0 \<le> floor mean" using mean0 by simp
    ultimately show False using q by linarith
  qed
  let ?n = "floor (headroom * real_of_int mb * real_of_int q)"
  have "real_of_int (mb * q) = 1 * (real_of_int mb * real_of_int q)" by simp
  also have "\<dots> \<le> headroom * (real_of_int mb * real_of_int q)"
    using h mb q1 by (intro mult_right_mono) auto
  finally have big: "real_of_int (mb * q) \<le> headroom * real_of_int mb * real_of_int q" by (simp add: mult.assoc)
  have n: "mb * q \<le> ?n" using big by (simp add: le_floor_iff)
  have "0 \<le> real_of_int (mb * q)" using mb q1 by simp
  with big have "0 \<le> headroom * real_of_int mb * real_of_int q" by linarith
  then have run: "auto_pool_blocks rs bt mb headroom = Inr ?n"
    using rs(1) bt mean0 by (simp add: auto_pool_blocks_def Let_def trunc_floor q_def mean_def tokens_def [symmetric])
  have "mb * 1 \<le> mb * q" using mb q1 by (intro mult_left_mono) auto
  then have mbn: "mb \<le> ?n" using n by linarith
  have "tokens < (floor mean + 1) * ?L"
  proof -
    have "mean < real_of_int (floor mean + 1)" by linarith
    then have "mean * real (length rs) < real_of_int (floor mean + 1) * real (length rs)" using L by simp
    moreover have "mean * real (length rs) = real_of_int tokens" using L by (simp add: mean_def)
    ultimately have "real_of_int tokens < real_of_int ((floor mean + 1) * ?L)" by simp
    then show ?thesis by (simp only: of_int_less_iff)
  qed
  also have "\<dots> \<le> q * bt * ?L" using q L by (intro mult_right_mono) auto
  finally have "mb * tokens < mb * (q * bt * ?L)" using mb by simp
  also have "\<dots> = (mb * q) * (bt * ?L)" by (simp add: ac_simps)
  also have "\<dots> \<le> ?n * (bt * ?L)" using n bt L by (intro mult_right_mono) auto
  finally have "mb * tokens < ?n * bt * ?L" by (simp add: ac_simps)
  then show ?thesis using run mbn by blast
qed

section \<open>Properties\<close>


text \<open>The automatic pool is large enough for a full batch of average sequences: with at least unit headroom it has a
  block or more per batch slot, and \<open>max_batch\<close> sequences of mean length always fit in it.\<close>

theorem auto_pool_holds_a_batch:
  assumes "rs \<noteq> []" and "\<forall>r \<in> set rs. 0 \<le> prompt_len r + output_len r" and "0 < bt" and "0 < mb" and "1 \<le> headroom"
  shows "\<exists>n. auto_pool_blocks rs bt mb headroom = Inr n \<and> mb \<le> n
    \<and> mb * (\<Sum>r \<leftarrow> rs. prompt_len r + output_len r) < n * bt * int (length rs)"
  by (rule auto_pool_ok [OF assms])

section \<open>Witnesses\<close>

text \<open>A generator that draws the smallest values.\<close>

definition least_draws :: "unit numpy" where
  "least_draws = \<lparr>default_rng = (\<lambda>seed. ()), np_lognormal = (\<lambda>m s n g. (replicate n 1, g)),
     np_exponential = (\<lambda>scale n g. (replicate n (1 / 2), g)), np_integers = (\<lambda>lo hi n g. (replicate n lo, g)),
     np_integer = (\<lambda>lo hi g. (lo, g)), np_random = (\<lambda>n g. (replicate n 0, g)),
     np_uniform = (\<lambda>g. (0, g)), np_below = (\<lambda>g n. (0, g)), np_choice = (\<lambda>g n k. ([0..<k], g))\<rparr>"

lemma least_draws_ok: "numpy_ok least_draws"
  by (auto simp: numpy_ok_def least_draws_def choice_ok_def)


lemma auto_pool_holds_a_batch_witness:
  "\<exists>n. auto_pool_blocks (fixedlen least_draws fixedlen_defaults 3 0) 16 64 (13 / 10) = Inr n \<and> 64 \<le> n \<and> 64 * 2176 < n * 16"
proof -
  let ?rs = "fixedlen least_draws fixedlen_defaults 3 0"
  have rs: "?rs \<noteq> [] \<and> (\<forall>r \<in> set ?rs. 0 \<le> prompt_len r + output_len r)
      \<and> length ?rs = 3 \<and> (\<Sum>r \<leftarrow> ?rs. prompt_len r + output_len r) = 3 * 2176"
    by (simp add: fixedlen_def fixedlen_defaults_def poisson_arrivals_def least_draws_def upt_rec split: prod.split)
  then show ?thesis using auto_pool_holds_a_batch [of ?rs 16 64 "13 / 10"] by auto
qed

end
