(* ===== verification/Sim_Samples.thy ===== *)
theory Sim_Samples
  imports Sim_Oracle
begin

text \<open>
  What a run records. Only \<open>sample_row\<close> writes samples, so whatever the allocator, the mode and the outcome, every row
  that \<open>simulate\<close> leaves is a result of \<open>measure_seq\<close> in the run's configuration, with its metrics in range.
\<close>

section \<open>Programs that keep an invariant\<close>

definition keeps :: "('s \<Rightarrow> bool) \<Rightarrow> ('s, 'a) prog \<Rightarrow> bool" where
  "keeps I m \<longleftrightarrow> (\<forall>s. I s \<longrightarrow> I (snd (m s)))"

named_theorems keeps_intro \<open>rules for programs that keep an invariant\<close>

lemma keepsD: "keeps I m \<Longrightarrow> I s \<Longrightarrow> I (snd (m s))"
  by (simp add: keeps_def)

lemma keeps_ret [keeps_intro]: "keeps I (ret x)"
  by (simp add: keeps_def ret_def)

lemma keeps_raise [keeps_intro]: "keeps I (raise x)"
  by (simp add: keeps_def raise_def)

lemma keeps_get [keeps_intro]: "keeps I (getS f)"
  by (simp add: keeps_def getS_def)

lemma keeps_assert [keeps_intro]: "keeps I (assertS c x)"
  by (simp add: keeps_def assertS_def)

lemma keeps_dget [keeps_intro]: "keeps I (dget k f)"
  by (simp add: keeps_def dget_def split: option.split)

lemma keeps_bind [keeps_intro]: "keeps I m \<Longrightarrow> (\<And>x. keeps I (k x)) \<Longrightarrow> keeps I (bindS m k)"
  unfolding keeps_def bindS_def by (fastforce split: prod.split sum.split)

lemma keeps_then [keeps_intro]: "keeps I m \<Longrightarrow> keeps I m' \<Longrightarrow> keeps I (thenS m m')"
  unfolding thenS_def by (rule keeps_bind)

lemma keeps_if [keeps_intro]: "keeps I m \<Longrightarrow> keeps I m' \<Longrightarrow> keeps I (if b then m else m')"
  by simp

lemma keeps_option [keeps_intro]: "keeps I m \<Longrightarrow> (\<And>x. keeps I (k x)) \<Longrightarrow> keeps I (case v of None \<Rightarrow> m | Some x \<Rightarrow> k x)"
  by (simp split: option.split)

lemma keeps_catch [keeps_intro]: "keeps I m \<Longrightarrow> keeps I h \<Longrightarrow> keeps I (catch_admission m h)"
  unfolding keeps_def catch_admission_def by (fastforce split: prod.split sum.split)

lemma keeps_each [keeps_intro]: "(\<And>x. keeps I (f x)) \<Longrightarrow> keeps I (eachS f xs)"
  by (induction xs) (simp_all add: keeps_ret keeps_then)

lemma keeps_fold [keeps_intro]: "(\<And>x acc. keeps I (f x acc)) \<Longrightarrow> keeps I (foldS f xs acc)"
  by (induction xs arbitrary: acc) (simp_all add: keeps_ret keeps_bind)

lemma keeps_repeat [keeps_intro]: "keeps I m \<Longrightarrow> keeps I (repeatS n m)"
proof -
  assume m: "keeps I m"
  have "keeps I (repeatN k m)" for k by (induction k) (auto intro!: keeps_intro m)
  then show ?thesis by (simp add: repeatS_def)
qed

section \<open>Only sampling writes samples\<close>

text \<open>A sample that was measured in the configuration of the run: its row is what \<open>measure_seq\<close> returns for its
  sequence and its table.\<close>

definition recorded :: "('p, 'g) env \<Rightarrow> int \<times> seq_state \<times> nat list \<times> seq_row \<times> int \<times> int \<Rightarrow> bool" where
  "recorded e = (\<lambda>(step, st, tab, row, live, free).
     measure_seq (sq_rid st) (sq_length st) tab (env_am e) (env_geom e) (env_shape e) (env_timing e)
       (block_tokens e) (env_window e) (env_mode e) (env_frame_blocks e) = Inr row)"

definition rows_measured :: "('p, 'g) env \<Rightarrow> ('p, 'g) sim \<Rightarrow> bool" where
  "rows_measured e s \<longleftrightarrow> (\<forall>x \<in> set (samples s). recorded e x)"

abbreviation keeps_rows :: "('p, 'g) env \<Rightarrow> (('p, 'g) sim, 'a) prog \<Rightarrow> bool" where
  "keeps_rows e \<equiv> keeps (rows_measured e)"

lemma keeps_modify [keeps_intro]: "(\<And>s. samples (f s) = samples s) \<Longrightarrow> keeps_rows e (modifyS f)"
  by (simp add: keeps_def modifyS_def rows_measured_def)

lemma keeps_on_pool [keeps_intro]: "keeps_rows e (on_pool m)"
  by (simp add: keeps_def on_pool_def rows_measured_def Let_def split: prod.split)

lemma keeps_free [keeps_intro]: "keeps_rows e (free_blocks_now e')"
  unfolding free_blocks_now_def by (rule keeps_get)

lemma keeps_update [keeps_intro]: "keeps_rows e (update_seq k f)"
  unfolding update_seq_def by (intro keeps_intro) simp

lemma keeps_committed [keeps_intro]: "keeps_rows e (committed e')"
  unfolding committed_def by (intro keeps_intro) (auto intro!: keeps_intro split: prod.split)

lemma keeps_gates [keeps_intro]: "keeps_rows e (prefix_gate e' m n)" "keeps_rows e (admission_gate e' m n)"
  unfolding prefix_gate_def admission_gate_def by (intro keeps_intro)+

lemma keeps_shared [keeps_intro]: "keeps_rows e (shared_prefix e' st m n)"
  unfolding shared_prefix_def Let_def by (intro keeps_intro) simp_all

lemma keeps_enter [keeps_intro]: "keeps_rows e (enter_active e' st)"
  unfolding enter_active_def by (intro keeps_intro) simp

lemma keeps_admit [keeps_intro]: "keeps_rows e (try_admit e' st)"
  unfolding try_admit_def Let_def by (intro keeps_intro) simp_all

lemma keeps_preempt [keeps_intro]: "keeps_rows e (preempt e' k)"
  unfolding preempt_def by (intro keeps_intro) simp_all

lemma keeps_make_room [keeps_intro]: "keeps_rows e (make_room e' k n vs)"
  by (induction vs) (simp_all, (intro keeps_intro, simp_all)+)

lemma keeps_ensure [keeps_intro]: "keeps_rows e (ensure_free e' k n)"
  unfolding ensure_free_def by (intro keeps_intro)

lemma keeps_advance [keeps_intro]: "keeps_rows e (advance k n)"
  unfolding advance_def by (intro keeps_intro)

lemma keeps_plain [keeps_intro]: "keeps_rows e (plain_decode e' k)"
  unfolding plain_decode_def Let_def by (intro keeps_intro)

lemma keeps_small [keeps_intro]: "keeps_rows e (append_blocks e' k n)" "keeps_rows e (add_copied n)" "keeps_rows e (drop_request k)"
  unfolding append_blocks_def add_copied_def drop_request_def by (intro keeps_intro; simp)+

lemma keeps_draw_round [keeps_intro]: "keeps_rows e (draw_round e' sp)"
  by (simp add: keeps_def draw_round_def rows_measured_def Let_def split: prod.split)

lemma keeps_spec [keeps_intro]: "keeps_rows e (spec_in_place e' k st n)" "keeps_rows e (spec_stalled e' k st)"
    "keeps_rows e (spec_copyback e' k st n brs)"
  unfolding spec_in_place_def spec_stalled_def spec_copyback_def Let_def by (intro keeps_intro; simp)+

lemma keeps_spec_round [keeps_intro]: "keeps_rows e (spec_round e' sp k)"
  unfolding spec_round_def Let_def by (intro keeps_intro) (auto intro!: keeps_intro split: prod.split)

lemma keeps_decode_seq [keeps_intro]: "keeps_rows e (decode_seq e' k fin)"
  unfolding decode_seq_def by (intro keeps_intro)

lemma keeps_admit_waiting [keeps_intro]: "keeps_rows e (admit_waiting e' ws)"
proof (induction ws)
  case (Cons x xs)
  show ?case unfolding admit_waiting.simps by (intro keeps_intro Cons) simp_all
qed (simp add: keeps_ret)

lemma keeps_admit_arrivals [keeps_intro]: "keeps_rows e (admit_arrivals e' rs)"
proof (induction rs)
  case (Cons x xs)
  show ?case unfolding admit_arrivals.simps by (intro keeps_intro Cons) simp_all
qed (simp add: keeps_ret)

lemma keeps_sample_row [keeps_intro]: "keeps_rows e (sample_row e ids j)"
proof -
  have app: "keeps_rows e (modifyS (\<lambda>s. s\<lparr>samples := samples s @ [(clock s, st, tab, row, num_live (pool s), m_free (methods e) (pool s))]\<rparr>))"
    if "measure_seq (sq_rid st) (sq_length st) tab (env_am e) (env_geom e) (env_shape e) (env_timing e)
       (block_tokens e) (env_window e) (env_mode e) (env_frame_blocks e) = Inr row" for st tab row
    using that by (simp add: keeps_def modifyS_def rows_measured_def recorded_def)
  show ?thesis
    unfolding sample_row_def by (intro keeps_intro) (auto split: sum.split intro: keeps_raise app)
qed

lemma keeps_take_samples [keeps_intro]: "keeps_rows e (take_samples e)"
proof -
  have "keeps_rows e (draw_sample e ids)" for ids
    by (simp add: keeps_def draw_sample_def rows_measured_def Let_def split: prod.split)
  then show ?thesis unfolding take_samples_def by (intro keeps_intro)
qed

lemma keeps_retire [keeps_intro]: "keeps_rows e (retire_seq e' k)" "keeps_rows e (periodic_check e')"
  unfolding retire_seq_def periodic_check_def by (intro keeps_intro; simp)+

lemma keeps_phases [keeps_intro]: "keeps_rows e (decode_phase e)" "keeps_rows e (admit_phase e')"
  unfolding decode_phase_def admit_phase_def by (intro keeps_intro; simp)+

lemma keeps_step [keeps_intro]: "keeps_rows e (sim_step e)"
  unfolding sim_step_def by (intro keeps_intro) (auto split: prod.split list.split intro!: keeps_intro)

lemma keeps_loop [keeps_intro]: "keeps_rows e (sim_loop fuel e)"
  by (induction fuel) (simp_all add: keeps_intro)

lemma keeps_simulate: "keeps_rows e (simulate fuel e)"
  unfolding simulate_def sim_checks_def sim_finish_def by (intro keeps_intro) 

lemma simulate_rows: "rows_measured e (snd (simulate fuel e (sim_init rs p g gs)))"
  by (rule keepsD [OF keeps_simulate]) (simp add: rows_measured_def sim_init_def)

section \<open>Measured rows are in range\<close>

lemma measured_range:
  assumes ok: "measures e" and row: "recorded e (step, st, tab, row, live, free)"
  shows "0 \<le> m1 (row_metrics row)" "m1 (row_metrics row) < 1"
    "1 / real_of_int (banks_per_channel (env_geom e)) \<le> m2 (row_metrics row)" "m2 (row_metrics row) \<le> 1"
    "0 < row_m3_gbps row"
proof -
  let ?geom = "env_geom e" and ?t = "env_timing e"
  let ?B = "banks_per_channel ?geom"
  have run: "measure_seq (sq_rid st) (sq_length st) tab (env_am e) ?geom (env_shape e) ?t (block_tokens e) (env_window e)
     (env_mode e) (env_frame_blocks e) = Inr row" using row by (simp add: recorded_def)
  have g: "valid_geometry ?geom" and t: "0 < tccd_ab_ns ?t" "0 < trc_ns ?t" using ok by (auto simp: measures_def metrics_ok_def)
  have B: "0 < ?B" using valid_geometry_pos [OF g] by (simp add: banks_per_channel_def)
  from measured_ok [OF ok [unfolded measures_def] run]
  show r: "0 \<le> m1 (row_metrics row)" "m1 (row_metrics row) < 1"
    "1 / real_of_int ?B \<le> m2 (row_metrics row)" "m2 (row_metrics row) \<le> 1" by auto
  have m3: "effective_bandwidth_gbps (m1 (row_metrics row)) (m2 (row_metrics row)) ?geom ?t = Inr (row_m3_gbps row)"
    using measured_ok [OF ok [unfolded measures_def] run] by auto
  let ?c = "m1 (row_metrics row) * tccd_ab_ns ?t + (1 - m1 (row_metrics row)) * trc_ns ?t"
  have c: "0 < ?c" using r(1,2) t by (intro add_nonneg_pos) auto
  then have eq: "row_m3_gbps row = bw_ideal ?geom ?t * m2 (row_metrics row) * (tccd_ab_ns ?t / ?c)"
    using m3 t(1) by (simp add: effective_bandwidth_gbps_def Let_def)
  have "0 < bw_ideal ?geom ?t"
    using valid_geometry_pos [OF g] B t(1) g
    by (auto simp: bw_ideal_def elim!: valid_geometryE intro!: divide_pos_pos mult_pos_pos)
  moreover have "0 < m2 (row_metrics row)" using r(3) B by (meson less_le_trans of_int_0_less_iff zero_less_divide_1_iff)
  ultimately show "0 < row_m3_gbps row" unfolding eq using c t(1) by (intro mult_pos_pos divide_pos_pos)
qed

lemma simulate_recorded:
  "x \<in> set (samples (snd (simulate fuel e (sim_init rs p g gs)))) \<Longrightarrow> recorded e x"
  using simulate_rows [of e fuel rs p g gs] by (simp add: rows_measured_def)

lemma simulate_rows_range:
  assumes "measures e" and "(step, st, tab, row, live, free) \<in> set (samples (snd (simulate fuel e (sim_init rs p g gs))))"
  shows "0 \<le> m1 (row_metrics row) \<and> m1 (row_metrics row) < 1
    \<and> 1 / real_of_int (banks_per_channel (env_geom e)) \<le> m2 (row_metrics row) \<and> m2 (row_metrics row) \<le> 1
    \<and> 0 < row_m3_gbps row"
  using measured_range [OF assms(1) simulate_recorded [OF assms(2)]] by simp

end
