(* ===== verification/Run.thy ===== *)
theory Run
  imports Workload Sim_Samples Sim_Theorems Kv_Contiguous
begin

text \<open>
  A single run (\<open>pimkv/run.py\<close>): the allocator factory \<open>make_allocator\<close>, the summary \<open>simulate\<close> returns, and
  \<open>main\<close> from its arguments to that summary. Argument parsing, printing and the files written are left out; the
  numpy generators are a parameter. A pool has a natural number of blocks.
\<close>

section \<open>The allocator factory\<close>

datatype 'g any_pool =
    PagedPool "paged kv"
  | RandomPool "'g random_alloc kv"
  | ContigPool "contig kv"
  | PimPool "pim kv"

definition ALLOCATORS :: "string list" where
  "ALLOCATORS = [''paged'', ''random'', ''contiguous'', ''pim-aware'']"

definition make_allocator :: "string \<Rightarrow> nat \<Rightarrow> 'g \<Rightarrow> int \<Rightarrow> string \<Rightarrow> string \<Rightarrow> rat \<Rightarrow> py_error + 'g any_pool" where
  "make_allocator name num seeded fb scratch_mode pl below =
     (if name = ''paged'' then Inr (PagedPool (PagedFirstFit num))
      else if name = ''random'' then Inr (RandomPool (RandomAlloc num seeded))
      else if name = ''contiguous'' then Inr (ContigPool (ContiguousOracle num))
      else if name = ''pim-aware'' then
        (if fb = 0 then Inl ZeroDivisionError
         else let num = nat (ceil_div (int num) fb * fb) in
           bindE (PimAware num (nat fb) (scratch_mode = ''separate'') pl below) (\<lambda>p. Inr (PimPool p)))
      else Inl KeyError)"

section \<open>The summary of a run\<close>

text \<open>Means and percentiles of the columns of the samples; NaN is \<open>None\<close>. \<open>np.percentile\<close> interpolates linearly
  between the two nearest order statistics; the mean of a data frame's column leaves NaN out.\<close>

definition mean_of :: "real list \<Rightarrow> real option" where
  "mean_of xs = (if xs = [] then None else Some (sum_list xs / real (length xs)))"

definition percentile :: "real list \<Rightarrow> real \<Rightarrow> real option" where
  "percentile xs p =
     (if xs = [] then None
      else let ys = sort xs; i = real (length xs - 1) * p / 100; j = nat (floor i); j' = min (Suc j) (length xs - 1)
        in Some (ys ! j + (i - real j) * (ys ! j' - ys ! j)))"

definition mean_known :: "real option list \<Rightarrow> real option" where
  "mean_known xs = mean_of (map the (filter (\<lambda>x. x \<noteq> None) xs))"

record summary =
  sm_n_requests :: int
  sm_completed :: int
  sm_dropped :: int
  sm_frag_failures :: int
  sm_decode_steps :: int
  sm_samples :: int
  sm_peak_live_blocks :: int
  sm_pool_blocks :: int
  sm_pool_utilization_peak :: real
  sm_blocks_allocated_total :: int
  sm_cow_copies :: int
  sm_blocks_copied :: int
  sm_compactions :: int
  sm_spec_stalls :: int
  sm_copied_bytes :: int
  sm_admission :: string
  sm_preemptions :: int
  sm_self_preemptions :: int
  sm_m1_mean :: "real option"
  sm_m1_p05 :: "real option"
  sm_m1_p95 :: "real option"
  sm_m2_mean :: "real option"
  sm_m2_p05 :: "real option"
  sm_m2_p95 :: "real option"
  sm_m3_gbps_mean :: "real option"
  sm_m4_ns_mean :: "real option"
  sm_m4_ns_p95 :: "real option"
  sm_blk_adj_mean :: "real option"
  sm_same_frame_mean :: "real option"
  sm_frame_spread_mean :: "real option"

text \<open>The rows of the data frame.\<close>

definition sample_rows :: "('p, 'g) sim \<Rightarrow> seq_row list" where
  "sample_rows s = map (\<lambda>(step, st, tab, row, live, free). row) (samples s)"

definition column :: "(seq_row \<Rightarrow> 'a) \<Rightarrow> ('p, 'g) sim \<Rightarrow> 'a list" where
  "column f s = map f (sample_rows s)"

text \<open>\<open>copied\<close> reads \<open>getattr(alloc, "blocks_copied", 0)\<close> and \<open>compactions\<close> likewise.\<close>

definition run_summary :: "('p, 'g) env \<Rightarrow> nat \<Rightarrow> ('p \<Rightarrow> int \<times> int) \<Rightarrow> ('p, 'g) sim \<Rightarrow> py_error + summary" where
  "run_summary e n_requests copied s =
     (if num_blocks (pool s) = 0 then Inl ZeroDivisionError
      else let m1s = column (m1 \<circ> row_metrics) s; m2s = column (m2 \<circ> row_metrics) s; m4s = column row_m4_ns s in
        Inr \<lparr>sm_n_requests = int n_requests, sm_completed = completed s, sm_dropped = int (length (dropped s)),
          sm_frag_failures = frag_failures s, sm_decode_steps = decode_steps s, sm_samples = int (length (samples s)),
          sm_peak_live_blocks = peak_live s, sm_pool_blocks = int (num_blocks (pool s)),
          sm_pool_utilization_peak = real_of_int (peak_live s) / real (num_blocks (pool s)),
          sm_blocks_allocated_total = allocated_total (pool s), sm_cow_copies = cow_copies (pool s),
          sm_blocks_copied = fst (copied (policy (pool s))), sm_compactions = snd (copied (policy (pool s))),
          sm_spec_stalls = spec_stalls s, sm_copied_bytes = copied_tokens s * kv_bytes_per_token (env_shape e),
          sm_admission = admission e, sm_preemptions = preemptions s, sm_self_preemptions = self_preemptions s,
          sm_m1_mean = mean_of m1s, sm_m1_p05 = percentile m1s 5, sm_m1_p95 = percentile m1s 95,
          sm_m2_mean = mean_of m2s, sm_m2_p05 = percentile m2s 5, sm_m2_p95 = percentile m2s 95,
          sm_m3_gbps_mean = mean_of (column row_m3_gbps s),
          sm_m4_ns_mean = mean_of m4s, sm_m4_ns_p95 = percentile m4s 95,
          sm_blk_adj_mean = mean_known (column (blk_adj \<circ> row_placement) s),
          sm_same_frame_mean = mean_known (column (same_frame \<circ> row_placement) s),
          sm_frame_spread_mean = mean_known (column (frame_spread \<circ> row_placement) s)\<rparr>)"

definition simulate_summary ::
  "nat \<Rightarrow> ('p, 'g) env \<Rightarrow> ('p \<Rightarrow> int \<times> int) \<Rightarrow> request list \<Rightarrow> 'p kv \<Rightarrow> 'g \<Rightarrow> 'g \<Rightarrow> py_error + summary option" where
  "simulate_summary fuel e copied rs p g gs =
     (case simulate fuel e (sim_init rs p g gs) of
        (Inl x, s) \<Rightarrow> Inl x
      | (Inr None, s) \<Rightarrow> Inr None
      | (Inr (Some _), s) \<Rightarrow> bindE (run_summary e (length rs) copied s) (\<lambda>m. Inr (Some m)))"

section \<open>The run\<close>

text \<open>The keyword arguments of \<open>simulate\<close>, with their defaults.\<close>

record sim_kwargs =
  k_block_tokens :: int
  k_max_batch :: int
  k_sample_every :: int
  k_sample_seqs :: int
  k_window :: int
  k_mode :: string
  k_frame_blocks :: int
  k_spec :: "spec_params option"
  k_admission :: string

definition make_env :: "'p allocator \<Rightarrow> 'g numpy \<Rightarrow> dram_geometry \<Rightarrow> model_shape \<Rightarrow> addr_map \<Rightarrow> sim_kwargs \<Rightarrow> ('p, 'g) env" where
  "make_env A R geom shape am k = \<lparr>methods = A, block_tokens = k_block_tokens k, max_batch = k_max_batch k,
     sample_every = k_sample_every k, sample_seqs = k_sample_seqs k, check_every = 64, spec = k_spec k,
     admission = k_admission k, watermark = 1 / 100, env_geom = geom, env_shape = shape, env_am = am,
     env_timing = DEFAULT_TIMING, env_window = k_window k, env_mode = k_mode k, env_frame_blocks = k_frame_blocks k,
     draw_random = np_uniform R, draw_integers = np_below R, draw_choice = np_choice R\<rparr>"

definition simulate_any ::
  "nat \<Rightarrow> 'g numpy \<Rightarrow> request list \<Rightarrow> 'g any_pool \<Rightarrow> dram_geometry \<Rightarrow> model_shape \<Rightarrow> addr_map \<Rightarrow> sim_kwargs \<Rightarrow> int
    \<Rightarrow> py_error + summary option" where
  "simulate_any fuel R rs made geom shape am k seed =
     (let g = default_rng R (seed + 1); gs = default_rng R (seed + 2) in
      case made of
        PagedPool p \<Rightarrow> simulate_summary fuel (make_env paged_allocator R geom shape am k) (\<lambda>_. (0, 0)) rs p g gs
      | RandomPool p \<Rightarrow> simulate_summary fuel (make_env (random_allocator (\<lambda>g n. np_below R g (int n))) R geom shape am k) (\<lambda>_. (0, 0)) rs p g gs
      | ContigPool p \<Rightarrow> simulate_summary fuel (make_env contiguous_allocator R geom shape am k) (\<lambda>_. (0, 0)) rs p g gs
      | PimPool p \<Rightarrow> simulate_summary fuel (make_env pim_allocator R geom shape am k) (\<lambda>q. (blocks_copied q, compactions q)) rs p g gs)"

record run_args =
  a_workload :: string
  a_allocator :: string
  a_dram :: string
  a_addrmap :: string
  a_model :: string
  a_block_tokens :: int
  a_requests :: nat
  a_seed :: int
  a_max_batch :: int
  a_pool_blocks :: nat
  a_sample_every :: int
  a_sample_seqs :: int
  a_kv_shards :: int
  a_spec_width :: int
  a_spec_depth :: int
  a_spec_accept :: rat
  a_spec_adopt :: string
  a_pim_scratch :: string
  a_pim_plan :: string
  a_pim_compact :: rat
  a_admission :: string
  a_coalesce :: string
  a_window :: int

text \<open>The defaults of \<open>build_parser\<close>.\<close>

definition run_defaults :: run_args where
  "run_defaults = \<lparr>a_workload = ''steady'', a_allocator = ''paged'', a_dram = ''hbm3-pim'', a_addrmap = ''host-centric'',
     a_model = ''llama-gqa-8kv'', a_block_tokens = 16, a_requests = 2000, a_seed = 0, a_max_batch = 64, a_pool_blocks = 0,
     a_sample_every = 16, a_sample_seqs = 8, a_kv_shards = 1, a_spec_width = 4, a_spec_depth = 3, a_spec_accept = 4 / 5,
     a_spec_adopt = ''auto'', a_pim_scratch = ''separate'', a_pim_plan = ''bestfit'', a_pim_compact = 0,
     a_admission = ''oracle'', a_coalesce = ''window'', a_window = 64\<rparr>"

definition lookupE :: "string \<Rightarrow> (string, 'v) dict \<Rightarrow> py_error + 'v" where
  "lookupE k d = (case map_of d k of None \<Rightarrow> Inl KeyError | Some v \<Rightarrow> Inr v)"

text \<open>\<open>auto\<close> adoption: frame-aligned placement needs copy-back.\<close>

definition resolve_adopt :: "string \<Rightarrow> string \<Rightarrow> string" where
  "resolve_adopt adopt alloc_name =
     (if adopt = ''auto'' then (if alloc_name = ''pim-aware'' then ''copyback'' else ''splice'') else adopt)"

definition run_main :: "nat \<Rightarrow> 'g numpy \<Rightarrow> run_args \<Rightarrow> py_error + summary option" where
  "run_main fuel R a =
     bindE (lookupE (a_dram a) DRAM_PRESETS) (\<lambda>dram.
     bindE (lookupE (a_model a) MODEL_PRESETS) (\<lambda>model.
     bindE (shard_kv dram model (a_kv_shards a)) (\<lambda>(geom, shape).
     bindE (if a_block_tokens a \<noteq> 0 then Inr (a_block_tokens a) else derive_block_tokens geom shape 1 True) (\<lambda>bt.
     bindE (AddrMap geom (a_addrmap a)) (\<lambda>am.
     bindE (lookupE (a_workload a) (WORKLOADS R)) (\<lambda>gen.
     let rs = gen (a_requests a) (a_seed a) in
     bindE (if a_pool_blocks a \<noteq> 0 then Inr (int (a_pool_blocks a)) else auto_pool_blocks rs bt (a_max_batch a) (13 / 10)) (\<lambda>pool_size.
     bindE (frame_blocks_for geom shape bt) (\<lambda>fb.
     bindE (make_allocator (a_allocator a) (nat pool_size) (default_rng R (a_seed a))
        (if a_allocator a = ''pim-aware'' then fb else 1) (a_pim_scratch a) (a_pim_plan a) (a_pim_compact a)) (\<lambda>made.
     simulate_any fuel R rs made geom shape am
       \<lparr>k_block_tokens = bt, k_max_batch = a_max_batch a, k_sample_every = a_sample_every a, k_sample_seqs = a_sample_seqs a,
        k_window = a_window a, k_mode = a_coalesce a, k_frame_blocks = fb,
        k_spec = (if a_workload a = ''spec''
          then Some \<lparr>sp_width = a_spec_width a, sp_depth = a_spec_depth a, sp_accept = a_spec_accept a,
            sp_adopt = resolve_adopt (a_spec_adopt a) (a_allocator a)\<rparr> else None),
        k_admission = a_admission a\<rparr> (a_seed a))))))))))"

section \<open>Means\<close>

lemma mean_of_range:
  assumes "mean_of xs = Some x" and "\<forall>v \<in> set xs. a \<le> v \<and> v \<le> b"
  shows "a \<le> x \<and> x \<le> b"
proof -
  have ne: "xs \<noteq> []" and x: "x = sum_list xs / real (length xs)" using assms(1) by (auto simp: mean_of_def split: if_splits)
  have "a * real (length xs) \<le> sum_list xs \<and> sum_list xs \<le> b * real (length xs)"
    using assms(2) by (induction xs) (auto simp: algebra_simps)
  then show ?thesis unfolding x using ne by (simp add: le_divide_eq divide_le_eq)
qed

text \<open>The samples' means are in range.\<close>

definition means_ok :: "real \<Rightarrow> summary \<Rightarrow> bool" where
  "means_ok banks sm \<longleftrightarrow> (\<forall>x. sm_m1_mean sm = Some x \<longrightarrow> 0 \<le> x \<and> x \<le> 1)
     \<and> (\<forall>x. sm_m2_mean sm = Some x \<longrightarrow> 1 / banks \<le> x \<and> x \<le> 1)
     \<and> (sm_samples sm = 0 \<longleftrightarrow> sm_m1_mean sm = None)"

lemma summary_means:
  assumes "measures e" and run: "simulate_summary fuel e copied rs p g gs = Inr (Some sm)"
  shows "means_ok (real_of_int (banks_per_channel (env_geom e))) sm \<and> sm_n_requests sm = int (length rs)"
proof -
  obtain s where s: "simulate fuel e (sim_init rs p g gs) = (Inr (Some ()), s)" and sm: "run_summary e (length rs) copied s = Inr sm"
    using run by (auto simp: simulate_summary_def bindE_Inr split: prod.splits sum.splits option.splits)
  have rows: "0 \<le> m1 (row_metrics row) \<and> m1 (row_metrics row) < 1
      \<and> 1 / real_of_int (banks_per_channel (env_geom e)) \<le> m2 (row_metrics row) \<and> m2 (row_metrics row) \<le> 1"
    if "row \<in> set (sample_rows s)" for row
  proof -
    from that obtain step st tab live free where "(step, st, tab, row, live, free) \<in> set (samples s)"
      by (auto simp: sample_rows_def)
    then show ?thesis using simulate_rows_range [OF assms(1), of step st tab row live free fuel rs p g gs] s by auto
  qed
  have f: "sm_m1_mean sm = mean_of (column (m1 \<circ> row_metrics) s)" "sm_m2_mean sm = mean_of (column (m2 \<circ> row_metrics) s)"
    "sm_samples sm = int (length (samples s))" "sm_n_requests sm = int (length rs)"
    using sm by (auto simp: run_summary_def Let_def split: if_splits)
  have "\<forall>v \<in> set (column (m1 \<circ> row_metrics) s). 0 \<le> v \<and> v \<le> 1" using rows by (fastforce simp: column_def)
  moreover have "\<forall>v \<in> set (column (m2 \<circ> row_metrics) s). 1 / real_of_int (banks_per_channel (env_geom e)) \<le> v \<and> v \<le> 1"
    using rows by (fastforce simp: column_def)
  moreover have "samples s = [] \<longleftrightarrow> mean_of (column (m1 \<circ> row_metrics) s) = None"
    by (simp add: mean_of_def column_def sample_rows_def)
  ultimately show ?thesis using f mean_of_range unfolding means_ok_def by (metis of_nat_eq_0_iff length_0_conv)
qed

section \<open>Oracle runs\<close>

definition served_all :: "nat \<Rightarrow> summary \<Rightarrow> bool" where
  "served_all n sm \<longleftrightarrow> sm_n_requests sm = int n \<and> sm_completed sm + sm_dropped sm = int n \<and> sm_preemptions sm = 0
     \<and> sm_frag_failures sm = 0"

lemma filter_split: "length (filter P xs) + length (filter (\<lambda>x. \<not> P x) xs) = length xs"
  by (induction xs) auto

lemma served_summary:
  assumes run: "\<exists>s. simulate fuel e (sim_init rs p g gs) = (Inr (Some ()), s) \<and> all_served e p rs s"
    and n: "0 < num_blocks p" and m: "measures e"
  shows "\<exists>sm. simulate_summary fuel e copied rs p g gs = Inr (Some sm) \<and> served_all (length rs) sm
    \<and> means_ok (real_of_int (banks_per_channel (env_geom e))) sm"
proof -
  obtain s where s: "simulate fuel e (sim_init rs p g gs) = (Inr (Some ()), s)" "all_served e p rs s" using run by blast
  then have "num_blocks (pool s) \<noteq> 0" using n by (simp add: all_served_def)
  then obtain sm where sm: "run_summary e (length rs) copied s = Inr sm" unfolding run_summary_def Let_def by simp
  then have fields: "sm_completed sm = completed s" "sm_dropped sm = int (length (dropped s))" "sm_preemptions sm = preemptions s"
      "sm_frag_failures sm = frag_failures s" by (auto simp: run_summary_def Let_def split: if_splits)
  have r: "simulate_summary fuel e copied rs p g gs = Inr (Some sm)" unfolding simulate_summary_def s(1) prod.case sum.case option.case sm bindE_simps ..
  note ok = summary_means [OF m r]
  let ?fits = "\<lambda>r. footprint e r \<le> int (num_blocks p)"
  have "mset (filter (\<lambda>r. \<not> ?fits r) (sort_key (\<lambda>r. (arrival_step r, rid r)) rs)) = mset (filter (\<lambda>r. \<not> ?fits r) rs)"
    by simp
  from mset_eq_length [OF this] have "completed s + int (length (dropped s)) = int (length rs)"
    using s(2) filter_split [of ?fits rs] by (simp add: all_served_def not_le [symmetric])
  then have "served_all (length rs) sm" using s(2) fields ok by (simp add: served_all_def all_served_def)
  then show ?thesis using r ok by blast
qed

section \<open>The default configuration\<close>

lemma ceil_div_mono_bt: "0 < b \<Longrightarrow> a \<le> c \<Longrightarrow> ceil_div a b \<le> ceil_div c b"
  by (simp add: ceil_div_eq zdiv_mono1)

lemma auto_pool_upper:
  assumes rs: "\<forall>r \<in> set rs. 0 \<le> prompt_len r + output_len r \<and> prompt_len r + output_len r \<le> m"
    and bt: "0 < bt" and mb: "0 \<le> mb" and h: "0 \<le> headroom" and run: "auto_pool_blocks rs bt mb headroom = Inr n"
  shows "real_of_int n \<le> headroom * real_of_int mb * real_of_int (ceil_div (m + 1) bt)"
proof -
  have ne: "rs \<noteq> []" using run by (auto simp: auto_pool_blocks_def)
  define tokens where "tokens = (\<Sum>r \<leftarrow> rs. prompt_len r + output_len r)"
  define mean where "mean = real_of_int tokens / real (length rs)"
  have "0 \<le> tokens \<and> tokens \<le> m * int (length rs)"
    unfolding tokens_def using rs by (induction rs) (auto simp: algebra_simps)
  then have "0 \<le> mean \<and> real_of_int tokens \<le> real_of_int m * real (length rs)"
    by (simp add: mean_def) (metis of_int_le_iff of_int_mult of_int_of_nat_eq)
  then have mean: "0 \<le> mean" "mean \<le> real_of_int m" using ne by (simp_all add: mean_def divide_le_eq)
  then have "floor mean + 1 \<le> m + 1" by (simp add: floor_le_iff)
  then have up: "ceil_div (floor mean + 1) bt \<le> ceil_div (m + 1) bt" by (rule ceil_div_mono_bt [OF bt])
  have low: "0 \<le> ceil_div (floor mean + 1) bt" using mean(1) bt by (simp add: ceil_div_eq pos_imp_zdiv_nonneg_iff)
  have "n = trunc (headroom * real_of_int mb * real_of_int (ceil_div (trunc mean + 1) bt))"
    using run ne bt by (simp add: auto_pool_blocks_def Let_def mean_def tokens_def)
  also have "\<dots> = floor (headroom * real_of_int mb * real_of_int (ceil_div (floor mean + 1) bt))"
    unfolding trunc_floor [OF mean(1)] using h mb low by (intro trunc_floor) simp
  finally have "real_of_int n \<le> headroom * real_of_int mb * real_of_int (ceil_div (floor mean + 1) bt)" by simp
  also have "\<dots> \<le> headroom * real_of_int mb * real_of_int (ceil_div (m + 1) bt)"
    using h mb up by (intro mult_left_mono) auto
  finally show ?thesis .
qed

definition default_like :: "run_args \<Rightarrow> bool" where
  "default_like a \<longleftrightarrow> a_workload a \<in> {''steady'', ''fixedlen''} \<and> a_allocator a \<in> {''paged'', ''random'', ''pim-aware''}
     \<and> a_dram a = ''hbm3-pim'' \<and> a_model a = ''llama-gqa-8kv'' \<and> a_addrmap a \<in> set SCHEMES \<and> a_block_tokens a = 16
     \<and> 0 < a_requests a \<and> a_max_batch a = 64 \<and> a_pool_blocks a = 0 \<and> a_sample_every a \<noteq> 0 \<and> 0 \<le> a_sample_seqs a
     \<and> a_kv_shards a = 1 \<and> a_pim_plan a \<in> {''bestfit'', ''greedy''} \<and> a_admission a = ''oracle''
     \<and> a_coalesce a \<in> {''window'', ''inorder''} \<and> 0 < a_window a"

definition small_stream :: "nat \<Rightarrow> request list \<Rightarrow> bool" where
  "small_stream n rs \<longleftrightarrow> length rs = n \<and> distinct (map rid rs)
     \<and> (\<forall>r \<in> set rs. request_ok r \<and> prompt_len r + output_len r \<le> 10240 \<and> output_len r \<le> 2048)"

lemma small_streamI: "stream_ok n (\<lambda>r. request_ok r \<and> prompt_len r + output_len r \<le> 10240 \<and> output_len r \<le> 2048) rs \<Longrightarrow> small_stream n rs"
proof -
  assume ok: "stream_ok n (\<lambda>r. request_ok r \<and> prompt_len r + output_len r \<le> 10240 \<and> output_len r \<le> 2048) rs"
  then have "map rid rs = map int [0..<n]" by (simp add: stream_ok_def)
  from arg_cong [OF this, of length] show ?thesis
    using ok stream_distinct [OF ok] by (simp add: small_stream_def stream_ok_def)
qed

lemma default_stream:
  assumes R: "numpy_ok R" and "name \<in> {''steady'', ''fixedlen''}"
  obtains gen where "lookupE name (WORKLOADS R) = Inr gen" and "\<And>n seed. small_stream n (gen n seed)"
proof -
  have rates: "0 < arrival_rate steady_defaults" "0 < fx_arrival_rate fixedlen_defaults"
    by (simp_all add: steady_defaults_def fixedlen_defaults_def)
  have 1: "small_stream n (steady R steady_defaults n seed)" for n seed
    by (rule small_streamI, rule stream_ok_weaken [OF steady_ok [OF R rates(1)]]) (simp add: request_ok_def)
  have 2: "small_stream n (fixedlen R fixedlen_defaults n seed)" for n seed
    by (rule small_streamI, rule stream_ok_weaken [OF fixedlen_ok [OF R rates(2)]]) (simp add: request_ok_def fixedlen_defaults_def)
  from assms(2) consider "name = ''steady''" | "name = ''fixedlen''" by blast
  then show ?thesis by cases (use that 1 2 in \<open>simp_all add: lookupE_def WORKLOADS_def\<close>)
qed

lemma small_stream_fuel:
  assumes "small_stream n rs"
  shows "loop_fuel rs \<le> 4098 * n + 2"
proof -
  have "sum_list (map (\<lambda>r. output_len r + 1) xs) \<le> 2049 * int (length xs)" if "\<forall>r \<in> set xs. output_len r \<le> 2048" for xs
    using that by (induction xs) auto
  from this [of rs] show ?thesis using assms by (simp add: small_stream_def loop_fuel_def)
qed

lemma hbm3_facts:
  "valid_geometry HBM3_PIM" "frame_blocks_for HBM3_PIM LLAMA_GQA_8KV 16 = Inr 8" "total_bursts HBM3_PIM = 268435456"
  "kv_bytes_per_token LLAMA_GQA_8KV = 4096" "burst_bytes HBM3_PIM = 32" "banks_per_channel HBM3_PIM = 16"
  by code_simp+

text \<open>Shapes of 2 or 4 KB per token: the default model, and each of its K and V tensors alone.\<close>

definition plain_shape :: "model_shape \<Rightarrow> bool" where
  "plain_shape shape \<longleftrightarrow> kv_bytes_per_token shape = 4096 \<or> kv_bytes_per_token shape = 2048"

lemma plain_llama: "plain_shape LLAMA_GQA_8KV"
  by (simp add: plain_shape_def hbm3_facts)

lemma default_checks:
  assumes "plain_shape shape" and "int (num_blocks p) \<le> 131072" and "k_block_tokens k = 16"
  shows "checks_pass (make_env A R HBM3_PIM shape am k) p"
  using assms by (auto simp: plain_shape_def checks_pass_def make_env_def bursts_per_block_def hbm3_facts)

text \<open>The options of a run that the termination theorem covers.\<close>

definition plain_kwargs :: "sim_kwargs \<Rightarrow> bool" where
  "plain_kwargs k \<longleftrightarrow> k_block_tokens k = 16 \<and> 0 < k_max_batch k \<and> k_sample_every k \<noteq> 0 \<and> 0 \<le> k_sample_seqs k
     \<and> k_spec k = None \<and> k_admission k = ''oracle'' \<and> k_mode k \<in> {''window'', ''inorder''} \<and> 0 < k_window k"

lemma default_env:
  assumes R: "numpy_ok R" and shape: "plain_shape shape" and am: "AddrMap HBM3_PIM scheme = Inr am"
    and A: "\<not> persistent_scratch A" and k: "plain_kwargs k"
  shows "plain_oracle (make_env A R HBM3_PIM shape am k)"
proof -
  have "metrics_ok HBM3_PIM shape am DEFAULT_TIMING (k_window k) (k_mode k)"
    using shape k am hbm3_facts by (auto simp: metrics_ok_def DEFAULT_TIMING_def plain_shape_def plain_kwargs_def)
  moreover have "choice_ok (np_choice R)" using R unfolding numpy_ok_def by blast
  ultimately show ?thesis using A k by (simp add: plain_oracle_def measures_def make_env_def plain_kwargs_def)
qed

lemma served_default:
  fixes p :: "'p kv"
  assumes run: "\<exists>s. simulate fuel (make_env A R HBM3_PIM shape am k) (sim_init rs p g gs) = (Inr (Some ()), s)
      \<and> all_served (make_env A R HBM3_PIM shape am k) p rs s"
    and e: "plain_oracle (make_env A R HBM3_PIM shape am k)" and n: "0 < num_blocks p"
  shows "\<exists>sm. simulate_summary fuel (make_env A R HBM3_PIM shape am k) copied rs p g gs = Inr (Some sm)
    \<and> served_all (length rs) sm \<and> means_ok 16 sm"
proof -
  have "measures (make_env A R HBM3_PIM shape am k)" using e by (simp add: plain_oracle_def)
  from served_summary [OF run n this, of copied] show ?thesis by (simp add: make_env_def hbm3_facts)
qed

lemma pim_pool:
  assumes "n mod fb = 0" and "0 < fb" and "pl \<in> {''bestfit'', ''greedy''}"
  obtains p where "PimAware n fb seg pl below = Inr p" and "num_blocks p = n"
  using assms by (auto simp: PimAware_def kv_init_def Let_def)

lemma padded_pool:
  assumes "0 \<le> n" and fb: "0 < fb"
  shows "nat (ceil_div (int (nat n)) fb * fb) mod nat fb = 0" "n \<le> int (nat (ceil_div (int (nat n)) fb * fb))"
    "int (nat (ceil_div (int (nat n)) fb * fb)) < n + fb"
proof -
  let ?c = "ceil_div n fb"
  have c: "n \<le> ?c * fb" using ceil_div_le_iff [OF fb, of n ?c] by simp
  have "\<not> n \<le> (?c - 1) * fb" using ceil_div_le_iff [OF fb, of n "?c - 1"] by simp
  then have c': "?c * fb < n + fb" by (simp add: algebra_simps)
  have "0 \<le> ?c" using assms by (simp add: ceil_div_eq pos_imp_zdiv_nonneg_iff)
  then obtain m where m: "?c = int m" using nonneg_int_cases by blast
  obtain g where g: "fb = int g" using fb nonneg_int_cases [of fb] by auto
  show "nat (ceil_div (int (nat n)) fb * fb) mod nat fb = 0" using assms m g by (simp add: nat_mult_distrib)
  show "n \<le> int (nat (ceil_div (int (nat n)) fb * fb))" "int (nat (ceil_div (int (nat n)) fb * fb)) < n + fb"
    using assms c c' \<open>0 \<le> ?c\<close> by simp_all
qed

text \<open>A run of \<open>simulate\<close> on a fresh pool of the factory, whatever the plan, the scratch mode and the compaction.\<close>

lemma contract_default:
  fixes p :: "'p kv"
  assumes R: "numpy_ok R" and shape: "plain_shape shape" and am: "AddrMap HBM3_PIM scheme = Inr am" and k: "plain_kwargs k"
    and rs: "distinct (map rid rs)" "\<forall>r \<in> set rs. request_ok r" and few: "loop_fuel rs \<le> fuel"
    and A: "kv_contract A Inv" "\<not> persistent_scratch A" and p: "Inv {#} p" "tables p = []" "0 < num_blocks p" "int (num_blocks p) \<le> 131072"
  shows "\<exists>sm. simulate_summary fuel (make_env A R HBM3_PIM shape am k) copied rs p g gs = Inr (Some sm)
    \<and> served_all (length rs) sm \<and> means_ok 16 sm"
proof -
  let ?e = "make_env A R HBM3_PIM shape am k"
  have e: "plain_oracle ?e" by (rule default_env [OF R shape am A(2) k])
  have "k_block_tokens k = 16" using k by (simp add: plain_kwargs_def)
  then have chk: "checks_pass ?e p" by (rule default_checks [OF shape p(4)])
  have "\<exists>s. simulate fuel ?e (sim_init rs p g gs) = (Inr (Some ()), s) \<and> all_served ?e p rs s"
    by (rule simulate_oracle [OF A(1) p(1,2) e _ rs(2,1) chk few]) (simp add: make_env_def)
  from served_default [OF this e p(3)] show ?thesis .
qed

lemma simulated_default:
  assumes R: "numpy_ok R" and shape: "plain_shape shape" and am: "AddrMap HBM3_PIM scheme = Inr am" and k: "plain_kwargs k"
    and rs: "distinct (map rid rs)" "\<forall>r \<in> set rs. request_ok r" and few: "loop_fuel rs \<le> fuel"
    and al: "al \<in> {''paged'', ''random'', ''pim-aware''}" and n: "64 \<le> n" "n \<le> 53331" and fb: "0 < fb" "fb \<le> 1024"
    and pl: "pl \<in> {''bestfit'', ''greedy''}"
  shows "\<exists>sm. bindE (make_allocator al (nat n) gen (if al = ''pim-aware'' then fb else 1) ss pl cb)
      (\<lambda>made. simulate_any fuel R rs made HBM3_PIM shape am k seed) = Inr (Some sm)
    \<and> served_all (length rs) sm \<and> means_ok 16 sm"
proof -
  note served = contract_default [OF R shape am k rs few]
  from al consider "al = ''paged''" | "al = ''random''" | "al = ''pim-aware''" by blast
  then show ?thesis
  proof cases
    case 1
    have "num_blocks (PagedFirstFit (nat n)) = nat n" by (simp add: PagedFirstFit_def kv_init_def)
    then show ?thesis using served [OF paged_contract paged_not_persistent paged_start paged_fresh, of "nat n"] 1 n
      by (simp add: make_allocator_def simulate_any_def)
  next
    case 2
    let ?draw = "\<lambda>g n. np_below R g (int n)" and ?p = "RandomAlloc (nat n) gen"
    have "\<forall>g n. 0 < n \<longrightarrow> int (fst (np_below R g n)) < n" using R unfolding numpy_ok_def by blast
    then have "integers_ok ?draw" unfolding integers_ok_def by (metis of_nat_0_less_iff of_nat_less_iff)
    then have A: "kv_contract (random_allocator ?draw) (\<lambda>H. kv_inv random_free_set random_ok (image_mset snd H))"
      unfolding random_allocator_def by (rule random_contract)
    have np: "\<not> persistent_scratch (random_allocator ?draw)" by (simp add: random_allocator_def base_allocator_def)
    have p: "kv_inv random_free_set random_ok (image_mset snd {#}) ?p" "tables ?p = []" "num_blocks ?p = nat n"
      using random_init by (simp_all add: RandomAlloc_def kv_init_def)
    show ?thesis using served [OF A np p(1,2), unfolded p(3)] 2 n by (simp add: make_allocator_def simulate_any_def)
  next
    case 3
    define m where "m = nat (ceil_div (int (nat n)) fb * fb)"
    have m: "m mod nat fb = 0" "n \<le> int m" "int m < n + fb" using padded_pool [of n fb] n(1) fb(1) unfolding m_def by simp_all
    have m_eq: "nat (ceil_div n fb * fb) = m" using n(1) by (simp add: m_def)
    obtain p where p: "PimAware m (nat fb) (ss = ''separate'') pl cb = Inr p" "num_blocks p = m"
      using pim_pool [OF m(1) _ pl] fb(1) by auto
    from served [OF pim_calls.kv_contract_axioms pim_not_persistent pim_init [OF p(1)] pim_fresh [OF p(1)]] show ?thesis
      using 3 p m(2,3) n fb by (simp add: make_allocator_def simulate_any_def m_eq)
  qed
qed

text \<open>The stream and the pool of a run with the default batch.\<close>

lemma default_pool:
  assumes "small_stream n rs" and "0 < n"
  obtains size where "auto_pool_blocks rs 16 64 (13 / 10) = Inr size" and "64 \<le> size" and "size \<le> 53331"
proof -
  have rs: "rs \<noteq> []" "\<forall>r \<in> set rs. 0 \<le> prompt_len r + output_len r \<and> prompt_len r + output_len r \<le> 10240"
    using assms by (auto simp: small_stream_def request_ok_def)
  obtain m where m: "auto_pool_blocks rs 16 64 (13 / 10) = Inr m" "64 \<le> m"
    using auto_pool_ok [OF rs(1), of 16 64 "13 / 10"] rs(2) by auto
  have "ceil_div (10240 + 1) 16 = 641" by code_simp
  then have "real_of_int m \<le> 13 / 10 * 64 * 641" using auto_pool_upper [OF rs(2) _ _ _ m(1)] by simp
  then show ?thesis using that [OF m] by linarith
qed

lemma run_default_ok:
  assumes R: "numpy_ok R" and a: "default_like a" and fuel: "4098 * a_requests a + 2 \<le> fuel"
  shows "\<exists>sm. run_main fuel R a = Inr (Some sm) \<and> served_all (a_requests a) sm \<and> means_ok 16 sm"
proof -
  have wl: "a_workload a \<in> {''steady'', ''fixedlen''}" and pos: "0 < a_requests a" and scheme: "a_addrmap a \<in> set SCHEMES"
    and al: "a_allocator a \<in> {''paged'', ''random'', ''pim-aware''}" and pl: "a_pim_plan a \<in> {''bestfit'', ''greedy''}"
    using a by (simp_all add: default_like_def)
  obtain gen where gen: "lookupE (a_workload a) (WORKLOADS R) = Inr gen" "\<And>n seed. small_stream n (gen n seed)"
    using default_stream [OF R wl] by blast
  obtain am where am: "AddrMap HBM3_PIM (a_addrmap a) = Inr am" using AddrMap_ok [OF hbm3_facts(1) scheme] by blast
  define rs where "rs = gen (a_requests a) (a_seed a)"
  have small: "small_stream (a_requests a) rs" using gen(2) by (simp add: rs_def)
  then have rs: "length rs = a_requests a" "distinct (map rid rs)" "\<forall>r \<in> set rs. request_ok r" by (simp_all add: small_stream_def)
  obtain n where n: "auto_pool_blocks rs 16 64 (13 / 10) = Inr n" "64 \<le> n" "n \<le> 53331" by (rule default_pool [OF small pos])
  define k where "k = \<lparr>k_block_tokens = 16, k_max_batch = 64, k_sample_every = a_sample_every a, k_sample_seqs = a_sample_seqs a,
    k_window = a_window a, k_mode = a_coalesce a, k_frame_blocks = 8, k_spec = None, k_admission = ''oracle''\<rparr>"
  have k: "plain_kwargs k" using a by (simp add: k_def default_like_def plain_kwargs_def)
  have few: "loop_fuel rs \<le> fuel" using small_stream_fuel [OF small] fuel by simp
  have "run_main fuel R a = bindE (make_allocator (a_allocator a) (nat n) (default_rng R (a_seed a))
      (if a_allocator a = ''pim-aware'' then 8 else 1) (a_pim_scratch a) (a_pim_plan a) (a_pim_compact a))
      (\<lambda>made. simulate_any fuel R rs made HBM3_PIM LLAMA_GQA_8KV am k (a_seed a))"
  proof -
    have look: "lookupE (a_dram a) DRAM_PRESETS = Inr HBM3_PIM" "lookupE (a_model a) MODEL_PRESETS = Inr LLAMA_GQA_8KV"
      using a by (simp_all add: default_like_def lookupE_def DRAM_PRESETS_def MODEL_PRESETS_def)
    have "a_workload a \<noteq> ''spec''" "a_kv_shards a = 1" "a_block_tokens a = 16" "a_max_batch a = 64" "a_pool_blocks a = 0"
        "a_admission a = ''oracle''"
      using a by (auto simp: default_like_def)
    then show ?thesis
      unfolding run_main_def look bindE_simps gen(1) Let_def rs_def [symmetric] k_def
      by (simp add: shard_kv_def am n(1) hbm3_facts(2))
  qed
  with simulated_default [OF R plain_llama am k rs(2,3) few al n(2,3) _ _ pl, of 8 "default_rng R (a_seed a)"
      "a_pim_scratch a" "a_pim_compact a" "a_seed a"] rs(1)
  show ?thesis by simp
qed

section \<open>Properties\<close>


text \<open>The means of a finished run are in range in every mode: for any allocator (conserving or not), any admission,
  speculation and preemption, any pool and requests, the summary that \<open>simulate\<close> returns counts every request, its mean
  row-hit rate lies in \<open>[0, 1]\<close>, its mean bank parallelism between 1 over the number of banks and 1, and they are NaN
  exactly when nothing was sampled.\<close>

theorem reported_means_in_range:
  assumes "measures e" and "simulate_summary fuel e copied rs p g gs = Inr (Some sm)"
  shows "means_ok (real_of_int (banks_per_channel (env_geom e))) sm \<and> sm_n_requests sm = int (length rs)"
  by (rule summary_means [OF assms])

section \<open>Witnesses\<close>


text \<open>One request of two tokens on a pool of four one-token blocks.\<close>

lemma reported_means_in_range_witness:
  "\<exists>sm. simulate_summary 10 (demo_env paged_allocator 1 None ''vllm'') (\<lambda>_. (0, 0)) [demo_request 0 1 1] (PagedFirstFit 4) () () = Inr (Some sm)
    \<and> means_ok 4 sm \<and> sm_n_requests sm = 1"
proof -
  let ?e = "demo_env paged_allocator 1 None ''vllm''"
  have m: "measures ?e" by (simp add: measures_def tiny_metrics demo_env_def)
  have "outcome (simulate 10 ?e) (sim_init [demo_request 0 1 1] (PagedFirstFit 4) () ()) = Inr (Some ())
    \<and> num_blocks (pool (final (simulate 10 ?e) (sim_init [demo_request 0 1 1] (PagedFirstFit 4) () ()))) = 4" by code_simp
  then obtain sm where "simulate_summary 10 ?e (\<lambda>_. (0, 0)) [demo_request 0 1 1] (PagedFirstFit 4) () () = Inr (Some sm)"
    by (cases "simulate 10 ?e (sim_init [demo_request 0 1 1] (PagedFirstFit 4) () ())")
      (auto simp: simulate_summary_def run_summary_def Let_def)
  moreover have "banks_per_channel (env_geom ?e) = 4" by code_simp
  ultimately show ?thesis using reported_means_in_range [OF m] by fastforce
qed

end
