(* ===== verification/Trace_Text.thy ===== *)
theory Trace_Text
  imports Prelude
begin

text \<open>
  The text of the trace files: numbers as Python's f-strings print them (decimal and \<open>08x\<close>), and the reference
  readers the round trips of the traces are stated with: lines, comma-separated fields and numbers.
\<close>

section \<open>Numbers\<close>

definition hex_char :: "nat \<Rightarrow> char" where
  "hex_char d = char_of (if d < 10 then 48 + d else 87 + d)"

fun show_hex_nat :: "nat \<Rightarrow> string" where
  "show_hex_nat n = (if n < 16 then [hex_char n] else show_hex_nat (n div 16) @ [hex_char (n mod 16)])"

declare show_hex_nat.simps [simp del]

text \<open>\<open>f"{i:08x}"\<close>: at least eight characters, filled with zeros after a sign.\<close>

definition show_08x :: "int \<Rightarrow> string" where
  "show_08x i =
     (let sign = (if i < 0 then ''-'' else ''''); digits = show_hex_nat (nat \<bar>i\<bar>)
      in sign @ replicate (8 - (length sign + length digits)) (CHR ''0'') @ digits)"

text \<open>The reading side: digits of a base, most significant first; no sign.\<close>

definition digit_value :: "char \<Rightarrow> nat" where
  "digit_value c = (let n = of_char c in if n < 58 then n - 48 else n - 87)"

definition is_digit :: "nat \<Rightarrow> char \<Rightarrow> bool" where
  "is_digit base c \<longleftrightarrow> (let n = (of_char c :: nat) in (48 \<le> n \<and> n < 58 \<or> 97 \<le> n \<and> n < 103) \<and> digit_value c < base)"

definition read_nat :: "nat \<Rightarrow> string \<Rightarrow> nat option" where
  "read_nat base s =
     (if s \<noteq> [] \<and> list_all (is_digit base) s
      then Some (foldl (\<lambda>acc c. acc * base + digit_value c) 0 s) else None)"

definition read_int :: "nat \<Rightarrow> string \<Rightarrow> int option" where
  "read_int base s = map_option int (read_nat base s)"

lemma hex_char_value:
  assumes "d < 16"
  shows "digit_value (hex_char d) = d" "d < base \<Longrightarrow> is_digit base (hex_char d)"
proof -
  have "(of_char (char_of (48 + d) :: char) :: nat) = 48 + d" "(of_char (char_of (87 + d) :: char) :: nat) = 87 + d"
    using assms by simp_all
  then show "digit_value (hex_char d) = d" "d < base \<Longrightarrow> is_digit base (hex_char d)"
    using assms by (simp_all add: is_digit_def digit_value_def hex_char_def Let_def split: if_splits)
qed

lemma foldl_zeros: "foldl (\<lambda>acc c. acc * base + digit_value c) (0 :: nat) (replicate n (CHR ''0'')) = 0"
  by (induction n) (simp_all add: digit_value_def)

text \<open>Numbers of either base are read back, also behind zeros.\<close>

lemma show_nat_digits:
  "list_all (is_digit 10) (show_nat n) \<and> foldl (\<lambda>acc c. acc * 10 + digit_value c) 0 (show_nat n) = n \<and> show_nat n \<noteq> []"
proof (induction n rule: show_nat.induct)
  case (1 n)
  have d: "digit_value (char_of (48 + d)) = d \<and> is_digit 10 (char_of (48 + d))" if "d < 10" for d :: nat
    using hex_char_value(1) [of d] hex_char_value(2) [of d 10] that by (simp add: hex_char_def)
  show ?case
  proof (cases "n < 10")
    case True
    then show ?thesis using d [OF True] by (subst (1 2 3) show_nat.simps) simp
  next
    case False
    have "show_nat n = show_nat (n div 10) @ [char_of (48 + n mod 10)]" using False by (subst show_nat.simps) simp
    then show ?thesis using 1 [OF False] d [of "n mod 10"] by simp
  qed
qed

lemma show_hex_digits:
  "list_all (is_digit 16) (show_hex_nat n) \<and> foldl (\<lambda>acc c. acc * 16 + digit_value c) 0 (show_hex_nat n) = n \<and> show_hex_nat n \<noteq> []"
proof (induction n rule: show_hex_nat.induct)
  case (1 n)
  show ?case
  proof (cases "n < 16")
    case True
    then show ?thesis using hex_char_value(1) [OF True] hex_char_value(2) [OF True, of 16] True by (subst (1 2 3) show_hex_nat.simps) simp
  next
    case False
    have "show_hex_nat n = show_hex_nat (n div 16) @ [hex_char (n mod 16)]" using False by (subst show_hex_nat.simps) simp
    then show ?thesis using 1 [OF False] hex_char_value(1) [of "n mod 16"] hex_char_value(2) [of "n mod 16" 16] by simp
  qed
qed

lemma read_show_int: "0 \<le> i \<Longrightarrow> read_int 10 (show_int i) = Some i"
  using show_nat_digits [of "nat i"] by (simp add: read_int_def read_nat_def show_int_def)

lemma zero_digit: "list_all (is_digit 16) (replicate n (CHR ''0''))"
  by (simp add: list_all_iff is_digit_def digit_value_def)

lemma read_show_08x: "0 \<le> i \<Longrightarrow> read_int 16 (show_08x i) = Some i"
  using show_hex_digits [of "nat i"]
  by (simp add: read_int_def read_nat_def show_08x_def Let_def foldl_zeros zero_digit)

text \<open>Digits are no separators.\<close>

lemma digits_no_sep:
  assumes "list_all (is_digit base) s" and "c \<in> {CHR '','', CHR 0x0A, CHR '' ''}"
  shows "c \<notin> set s"
proof
  assume "c \<in> set s"
  then have "is_digit base c" using assms(1) by (simp add: list_all_iff)
  then show False using assms(2) by (auto simp: is_digit_def Let_def)
qed

lemma show_int_no_sep: "0 \<le> i \<Longrightarrow> c \<in> {CHR '','', CHR 0x0A, CHR '' ''} \<Longrightarrow> c \<notin> set (show_int i)"
  using digits_no_sep [of 10 "show_nat (nat i)"] show_nat_digits [of "nat i"] by (simp add: show_int_def)

lemma show_08x_no_sep: "0 \<le> i \<Longrightarrow> c \<in> {CHR '','', CHR 0x0A, CHR '' ''} \<Longrightarrow> c \<notin> set (show_08x i)"
  using digits_no_sep [of 16 "show_hex_nat (nat i)"] show_hex_digits [of "nat i"] by (auto simp: show_08x_def Let_def)

section \<open>Fields and lines\<close>

fun split_on :: "char \<Rightarrow> string \<Rightarrow> string list" where
  "split_on c [] = [[]]"
| "split_on c (x # xs) = (if x = c then [] # split_on c xs
     else case split_on c xs of [] \<Rightarrow> [[x]] | y # ys \<Rightarrow> (x # y) # ys)"

lemma split_on_none [simp]: "c \<notin> set x \<Longrightarrow> split_on c x = [x]"
  by (induction x) auto

lemma split_on_sep [simp]: "c \<notin> set x \<Longrightarrow> split_on c (x @ c # y) = x # split_on c y"
  by (induction x) auto

definition newline :: char where
  "newline = CHR 0x0A"

fun mapO :: "('a \<Rightarrow> 'b option) \<Rightarrow> 'a list \<Rightarrow> 'b list option" where
  "mapO f [] = Some []"
| "mapO f (x # xs) = (case f x of None \<Rightarrow> None | Some y \<Rightarrow> map_option ((#) y) (mapO f xs))"

lemma mapO_map: "\<forall>x \<in> set xs. f (g x) = Some (h x) \<Longrightarrow> mapO f (map g xs) = Some (map h xs)"
  by (induction xs) simp_all

text \<open>A file is read line by line; every line ends in a newline.\<close>

definition read_lines :: "(string \<Rightarrow> 'a option) \<Rightarrow> string \<Rightarrow> 'a list option" where
  "read_lines f s = (let ls = split_on newline s in if last ls = [] then mapO f (butlast ls) else None)"

lemma split_lines: "\<forall>x \<in> set xs. newline \<notin> set (g x) \<Longrightarrow> split_on newline (concat (map (\<lambda>x. g x @ [newline]) xs)) = map g xs @ [[]]"
  by (induction xs) simp_all

lemma read_lines_concat:
  assumes "\<forall>x \<in> set xs. newline \<notin> set (g x) \<and> f (g x) = Some (h x)"
  shows "read_lines f (concat (map (\<lambda>x. g x @ [newline]) xs)) = Some (map h xs)"
proof -
  have "split_on newline (concat (map (\<lambda>x. g x @ [newline]) xs)) = map g xs @ [[]]"
    by (rule split_lines) (use assms in blast)
  moreover have "mapO f (map g xs) = Some (map h xs)" by (rule mapO_map) (use assms in blast)
  ultimately show ?thesis by (simp add: read_lines_def)
qed

text \<open>A keyword and the rest of the line.\<close>

definition strip_prefix :: "string \<Rightarrow> string \<Rightarrow> string option" where
  "strip_prefix p s = (if take (length p) s = p then Some (drop (length p) s) else None)"

lemma strip_prefix_append [simp]: "strip_prefix p (p @ s) = Some s"
  by (simp add: strip_prefix_def)

end
