(* ===== verification/Ramulator.thy ===== *)
theory Ramulator
  imports Trace_Text Measure "HOL-Library.Char_ord" "HOL-Library.List_Lexorder"
begin

text \<open>
  The row-locality cross-validation (\<open>pimkv/ramulator.py\<close>): the trace file that replays the bursts of a captured
  sequence on Ramulator 2, the collection of its statistics, and the comparison rows of \<open>main\<close>. Ramulator itself is
  third-party code: the function \<open>ram\<close> from the text of a trace, the number of channels and the clock ratio to its
  statistics is a parameter.
\<close>

section \<open>The trace file\<close>

definition HBM3_PSEUDOCHANNELS :: int where
  "HBM3_PSEUDOCHANNELS = 2"

definition HBM3_COLS_PER_BURST :: int where
  "HBM3_COLS_PER_BURST = 8"

text \<open>\<open>f"R {a},{b},0,{g},{k},{r},{c}\n"\<close>.\<close>

definition trace_line :: "coords \<Rightarrow> string" where
  "trace_line m =
     ''R '' @ show_int (m Fch div HBM3_PSEUDOCHANNELS) @ '','' @ show_int (m Fch mod HBM3_PSEUDOCHANNELS) @ '',0,''
     @ show_int (m Fbg) @ '','' @ show_int (m Fba) @ '','' @ show_int (m Fro) @ '','' @ show_int (m Fco * HBM3_COLS_PER_BURST)"

definition emit_trace :: "coords list \<Rightarrow> string \<times> int" where
  "emit_trace ms = (concat (map (\<lambda>m. trace_line m @ [newline]) ms), int (length ms))"

section \<open>The statistics\<close>

text \<open>The nested dictionaries, lists and numbers that Ramulator returns. Python's \<open>bool\<close> is a number; strings and
  \<open>None\<close> are \<open>Other\<close>.\<close>

datatype stats =
    Num real
  | Other
  | Seq "stats list"
  | Dict "(string \<times> stats) list"

definition stat_keys :: "string list" where
  "stat_keys = [''row_hits'', ''row_misses'', ''row_conflicts'', ''cycles'', ''num_read_reqs'']"

type_synonym tally = "(string \<Rightarrow> real) \<times> string list"

definition visit_key :: "(string \<times> stats) list \<Rightarrow> string \<Rightarrow> tally \<Rightarrow> tally" where
  "visit_key node k = (\<lambda>(out, found). case map_of node k of
       Some (Num x) \<Rightarrow> (out(k := if k = ''cycles'' then max (out k) x else out k + x), List.insert k found)
     | _ \<Rightarrow> (out, found))"

fun walk_stats :: "stats \<Rightarrow> tally \<Rightarrow> tally" where
  "walk_stats (Num x) t = t"
| "walk_stats Other t = t"
| "walk_stats (Seq vs) t = fold walk_stats vs t"
| "walk_stats (Dict node) t = fold walk_stats (map snd node) (fold (visit_key node) stat_keys t)"

definition collect :: "stats \<Rightarrow> (string \<Rightarrow> real) \<times> string list" where
  "collect s = (let (out, found) = walk_stats s (\<lambda>_. 0, []) in (out, sort found))"

section \<open>Captured sequences\<close>

text \<open>The sampling hook: at the first sampled steps from \<open>min_step\<close> on, until there are \<open>samples\<close> captures. A capture
  is (step, sequence, length, table).\<close>

type_synonym capture = "int \<times> int \<times> int \<times> nat list"

definition hook :: "int \<Rightarrow> int \<Rightarrow> capture \<Rightarrow> capture list \<Rightarrow> capture list" where
  "hook min_step samples s captured = (if fst s \<ge> min_step \<and> int (length captured) < samples then captured @ [s] else captured)"

record ram_row =
  rr_step :: int
  rr_seq_id :: int
  rr_seq_len :: int
  rr_n_bursts :: int
  rr_m1 :: real
  rr_m2 :: real
  rr_m3_gbps :: real
  rr_hits :: real
  rr_misses :: real
  rr_conflicts :: real
  rr_hit_frac :: "real option"
  rr_cycles :: real
  rr_cycles_per_burst :: "real option"

definition ram_compare ::
  "(string \<Rightarrow> int \<Rightarrow> int \<Rightarrow> stats) \<Rightarrow> int \<Rightarrow> dram_geometry \<Rightarrow> model_shape \<Rightarrow> addr_map \<Rightarrow> int \<Rightarrow> int \<Rightarrow> capture
    \<Rightarrow> py_error + ram_row" where
  "ram_compare ram mem_clock_ratio geom shape am bt fb = (\<lambda>(step, rid, seq_len, table).
     bindE (enumerate_bursts table seq_len geom shape bt am) (\<lambda>m.
     let (trace, n) = emit_trace m in
     bindE (measure_seq rid seq_len table am geom shape DEFAULT_TIMING bt 64 ''window'' fb) (\<lambda>ours.
     let r = fst (collect (ram trace (channels geom div HBM3_PSEUDOCHANNELS) mem_clock_ratio));
         acc = r ''row_hits'' + r ''row_misses'' + r ''row_conflicts''
     in Inr \<lparr>rr_step = step, rr_seq_id = rid, rr_seq_len = seq_len, rr_n_bursts = n,
          rr_m1 = m1 (row_metrics ours), rr_m2 = m2 (row_metrics ours), rr_m3_gbps = row_m3_gbps ours,
          rr_hits = r ''row_hits'', rr_misses = r ''row_misses'', rr_conflicts = r ''row_conflicts'',
          rr_hit_frac = (if acc \<noteq> 0 then Some (r ''row_hits'' / acc) else None),
          rr_cycles = r ''cycles'',
          rr_cycles_per_burst = (if n \<noteq> 0 then Some (r ''cycles'' / real_of_int n) else None)\<rparr>)))"

section \<open>Reading a trace back\<close>

text \<open>What a reader of pre-decoded address vectors does with a line: seven numbers, of which channel and
  pseudo-channel make one of our channels, and eight column units one of our columns.\<close>

definition read_fields :: "int list \<Rightarrow> coords option" where
  "read_fields xs = (case xs of
     [a, b, _, g, k, r, c] \<Rightarrow> Some ((\<lambda>_. 0)(Fch := a * HBM3_PSEUDOCHANNELS + b, Fbg := g, Fba := k, Fro := r, Fco := c div HBM3_COLS_PER_BURST))
   | _ \<Rightarrow> None)"

definition read_trace_line :: "string \<Rightarrow> coords option" where
  "read_trace_line s =
     Option.bind (strip_prefix ''R '' s) (\<lambda>rest. Option.bind (mapO (read_int 10) (split_on (CHR '','') rest)) read_fields)"

lemma show_int_comma: "0 \<le> i \<Longrightarrow> CHR '','' \<notin> set (show_int i)"
  by (rule show_int_no_sep) simp_all

lemma trace_line_fields:
  assumes "\<And>f. 0 \<le> m f"
  shows "split_on (CHR '','') (drop 2 (trace_line m)) = map show_int
    [m Fch div 2, m Fch mod 2, 0, m Fbg, m Fba, m Fro, m Fco * 8]"
proof -
  have nn: "0 \<le> m Fch div 2" "0 \<le> m Fch mod 2" "0 \<le> m Fco * 8" using assms by simp_all
  have zero: "show_int 0 = ''0''" by code_simp
  note c = show_int_comma [OF nn(1)] show_int_comma [OF nn(2)] show_int_comma [OF nn(3)]
    show_int_comma [OF assms(1) [of Fbg]] show_int_comma [OF assms(1) [of Fba]] show_int_comma [OF assms(1) [of Fro]]
  show ?thesis
    unfolding trace_line_def HBM3_PSEUDOCHANNELS_def HBM3_COLS_PER_BURST_def by (simp add: c zero)
qed

lemma read_trace_line_ok:
  assumes "\<And>f. 0 \<le> m f"
  shows "read_trace_line (trace_line m) = Some m"
proof -
  have nn: "\<forall>i \<in> set [m Fch div 2, m Fch mod 2, 0, m Fbg, m Fba, m Fro, m Fco * 8]. 0 \<le> i" using assms by simp
  have pre: "strip_prefix ''R '' (trace_line m) = Some (drop 2 (trace_line m))"
    by (simp add: trace_line_def strip_prefix_def)
  have m: "m = (\<lambda>_. 0)(Fch := m Fch, Fbg := m Fbg, Fba := m Fba, Fro := m Fro, Fco := m Fco)"
    by (rule ext) (simp split: dram_field.split add: fun_upd_def, metis dram_field.exhaust)
  have "mapO (read_int 10) (map show_int [m Fch div 2, m Fch mod 2, 0, m Fbg, m Fba, m Fro, m Fco * 8])
      = Some (map id [m Fch div 2, m Fch mod 2, 0, m Fbg, m Fba, m Fro, m Fco * 8])"
    by (rule mapO_map) (use nn read_show_int in auto)
  then have "read_trace_line (trace_line m)
      = read_fields [m Fch div 2, m Fch mod 2, 0, m Fbg, m Fba, m Fro, m Fco * 8]"
    unfolding read_trace_line_def pre by (simp add: trace_line_fields [OF assms])
  also have "\<dots> = Some ((\<lambda>_. 0)(Fch := m Fch, Fbg := m Fbg, Fba := m Fba, Fro := m Fro, Fco := m Fco))"
    by (simp add: read_fields_def HBM3_PSEUDOCHANNELS_def HBM3_COLS_PER_BURST_def)
  also have "\<dots> = Some m" by (rule arg_cong [OF m [symmetric]])
  finally show ?thesis .
qed

lemma trace_line_no_newline:
  assumes "\<And>f. 0 \<le> m f"
  shows "newline \<notin> set (trace_line m)"
proof -
  have "newline \<notin> set (show_int i)" if "0 \<le> i" for i
    using show_int_no_sep [OF that, of newline] by (simp add: newline_def)
  then show ?thesis using assms by (auto simp: trace_line_def HBM3_PSEUDOCHANNELS_def HBM3_COLS_PER_BURST_def newline_def)
qed

lemma read_emit_trace:
  assumes "\<forall>m \<in> set ms. \<forall>f. 0 \<le> m f"
  shows "read_lines read_trace_line (fst (emit_trace ms)) = Some ms"
proof -
  have "\<forall>m \<in> set ms. newline \<notin> set (trace_line m) \<and> read_trace_line (trace_line m) = Some (id m)"
    using assms trace_line_no_newline read_trace_line_ok by simp
  from read_lines_concat [OF this] show ?thesis by (simp add: emit_trace_def)
qed

section \<open>Statistics are sums over all occurrences\<close>

fun occurrences :: "string \<Rightarrow> stats \<Rightarrow> real list" where
  "occurrences k (Num x) = []"
| "occurrences k Other = []"
| "occurrences k (Seq vs) = concat (map (occurrences k) vs)"
| "occurrences k (Dict node) = (case map_of node k of Some (Num x) \<Rightarrow> [x] | _ \<Rightarrow> []) @ concat (map (occurrences k) (map snd node))"

text \<open>The numbers found under a key in one dictionary, and how a tally takes them in.\<close>

definition here :: "string \<Rightarrow> (string \<times> stats) list \<Rightarrow> real list" where
  "here k node = (case map_of node k of Some (Num x) \<Rightarrow> [x] | _ \<Rightarrow> [])"

definition add_occ :: "string \<Rightarrow> real \<Rightarrow> real list \<Rightarrow> real" where
  "add_occ k x xs = (if k = ''cycles'' then foldl max x xs else x + sum_list xs)"

lemma add_occ_simps [simp]: "add_occ k x [] = x" "add_occ k x (xs @ ys) = add_occ k (add_occ k x xs) ys"
  by (simp_all add: add_occ_def)

definition tally_after :: "(string \<Rightarrow> real list) \<Rightarrow> tally \<Rightarrow> tally \<Rightarrow> bool" where
  "tally_after occ t t' \<longleftrightarrow> (\<forall>k. fst t' k = add_occ k (fst t k) (occ k))
     \<and> set (snd t') = set (snd t) \<union> {k. occ k \<noteq> []} \<and> (distinct (snd t) \<longrightarrow> distinct (snd t'))"

lemma tally_refl: "tally_after (\<lambda>_. []) t t"
  by (simp add: tally_after_def)

lemma tally_trans: "tally_after f t t' \<Longrightarrow> tally_after g t' t'' \<Longrightarrow> tally_after (\<lambda>k. f k @ g k) t t''"
  by (auto simp: tally_after_def)

lemma visit_key_ok: "tally_after (\<lambda>j. if j = k then here k node else []) t (visit_key node k t)"
  by (cases t) (auto simp: tally_after_def visit_key_def here_def add_occ_def split: option.split stats.split)

lemma visit_keys_ok:
  "distinct ks \<Longrightarrow> tally_after (\<lambda>k. if k \<in> set ks then here k node else []) t (fold (visit_key node) ks t)"
proof (induction ks arbitrary: t)
  case Nil
  then show ?case by (simp add: tally_refl)
next
  case (Cons k ks)
  have eq: "(\<lambda>j. if j \<in> set (k # ks) then here j node else [])
      = (\<lambda>j. (if j = k then here k node else []) @ (if j \<in> set ks then here j node else []))"
    using Cons.prems by auto
  show ?case unfolding eq using tally_trans [OF visit_key_ok Cons.IH] Cons.prems by simp
qed

lemma fold_walk_ok:
  assumes "\<And>v t. v \<in> set vs \<Longrightarrow> tally_after (f v) t (walk_stats v t)"
  shows "tally_after (\<lambda>k. concat (map (\<lambda>v. f v k) vs)) t (fold walk_stats vs t)"
  using assms
proof (induction vs arbitrary: t)
  case Nil
  then show ?case by (simp add: tally_refl)
next
  case (Cons v vs)
  then show ?case using tally_trans [of "f v" t "walk_stats v t"] by simp
qed

definition known :: "string \<Rightarrow> 'a list \<Rightarrow> 'a list" where
  "known k xs = (if k \<in> set stat_keys then xs else [])"

lemma known_simps [simp]: "known k [] = []" "known k (xs @ ys) = known k xs @ known k ys"
  "concat (map (\<lambda>v. known k (g v)) vs) = known k (concat (map g vs))"
  by (simp_all add: known_def)

lemma walk_stats_ok: "tally_after (\<lambda>k. known k (occurrences k s)) t (walk_stats s t)"
proof (induction s arbitrary: t)
  case (Seq vs)
  then show ?case using fold_walk_ok [of vs "\<lambda>v k. known k (occurrences k v)" t] by simp
next
  case (Dict node)
  have "distinct stat_keys" by code_simp
  note v = visit_keys_ok [OF this, of node t]
  have "tally_after (\<lambda>k. concat (map (\<lambda>v. known k (occurrences k v)) (map snd node)))
      (fold (visit_key node) stat_keys t) (walk_stats (Dict node) t)"
    unfolding walk_stats.simps by (rule fold_walk_ok) (use Dict in fastforce)
  from tally_trans [OF v this] show ?case by (simp add: known_def [symmetric] here_def [symmetric] comp_def)
qed (simp_all add: tally_refl)

lemma collect_ok:
  "k \<in> set stat_keys \<Longrightarrow> fst (collect s) k = (if k = ''cycles'' then foldl max 0 (occurrences k s) else sum_list (occurrences k s))"
  "set (snd (collect s)) = {k \<in> set stat_keys. occurrences k s \<noteq> []}" "sorted (snd (collect s))" "distinct (snd (collect s))"
proof -
  obtain out found where w: "walk_stats s (\<lambda>_. 0, []) = (out, found)" by (metis prod.collapse)
  then have c: "fst (collect s) = out" "snd (collect s) = sort found" by (simp_all add: collect_def)
  have "out k = add_occ k 0 (known k (occurrences k s))" and set: "set found = {k. known k (occurrences k s) \<noteq> []}"
    and dist: "distinct found" for k
    using walk_stats_ok [of s "(\<lambda>_. 0, [])"] unfolding w tally_after_def by simp_all
  then show "fst (collect s) k = (if k = ''cycles'' then foldl max 0 (occurrences k s) else sum_list (occurrences k s))"
    if "k \<in> set stat_keys"
    unfolding c using that by (auto simp: known_def add_occ_def)
  show "set (snd (collect s)) = {k \<in> set stat_keys. occurrences k s \<noteq> []}"
    unfolding c by (auto simp: set known_def)
  show "sorted (snd (collect s))" "distinct (snd (collect s))" unfolding c using dist by simp_all
qed

section \<open>Comparison rows\<close>

lemma foldl_max_nonneg: "(0 :: real) \<le> x \<Longrightarrow> 0 \<le> foldl max x xs"
  by (induction xs arbitrary: x) (auto intro: order_trans)

lemma collect_nonneg:
  assumes "k \<in> set stat_keys" and "\<forall>x \<in> set (occurrences k s). 0 \<le> x"
  shows "0 \<le> fst (collect s) k"
  using collect_ok(1) [OF assms(1), of s] assms(2) foldl_max_nonneg [of 0] by (simp add: sum_list_nonneg)

lemma ram_compare_ok:
  assumes ok: "metrics_ok geom shape am DEFAULT_TIMING 64 ''window''" and bt: "0 < bt" and n: "0 < n"
    and tab: "ceil_div n bt \<le> int (length table)" "\<forall>b \<in> set table. b < N"
    and cap: "int N * (bt * (kv_bytes_per_token shape div burst_bytes geom)) \<le> total_bursts geom"
    and stats: "\<And>trace k x. x \<in> set (occurrences k (ram trace (channels geom div 2) ratio)) \<Longrightarrow> 0 \<le> x"
  shows "\<exists>row. ram_compare ram ratio geom shape am bt fb (step, rid, n, table) = Inr row
    \<and> rr_n_bursts row = n * (kv_bytes_per_token shape div burst_bytes geom) \<and> 0 < rr_n_bursts row
    \<and> 0 \<le> rr_m1 row \<and> rr_m1 row < 1
    \<and> (case rr_hit_frac row of None \<Rightarrow> rr_hits row = 0 \<and> rr_misses row = 0 \<and> rr_conflicts row = 0
       | Some x \<Rightarrow> 0 \<le> x \<and> x \<le> 1)
    \<and> (case rr_cycles_per_burst row of None \<Rightarrow> False | Some x \<Rightarrow> 0 \<le> x)"
proof -
  obtain scheme where g: "valid_geometry geom" "AddrMap geom scheme = Inr am"
    and bpt: "burst_bytes geom \<le> kv_bytes_per_token shape" using ok by (auto simp: metrics_ok_def)
  let ?bpt = "kv_bytes_per_token shape div burst_bytes geom"
  note e = enumerate_bursts_ok [OF g bt bpt tab cap]
  let ?cs = "map (\<lambda>lb. map_burst am (burst_place table (bt * ?bpt) lb)) [0..n * ?bpt - 1]"
  have pos: "0 < n * ?bpt" using n e(1) by simp
  have len: "snd (emit_trace ?cs) = n * ?bpt" using pos by (simp add: emit_trace_def)
  obtain row where row: "measure_seq rid n table am geom shape DEFAULT_TIMING bt 64 ''window'' fb = Inr row"
      "0 \<le> m1 (row_metrics row)" "m1 (row_metrics row) < 1"
    using measure_seq_ok [OF ok bt n tab cap] by metis
  define r where "r = fst (collect (ram (fst (emit_trace ?cs)) (channels geom div 2) ratio))"
  have nn: "0 \<le> r ''row_hits''" "0 \<le> r ''row_misses''" "0 \<le> r ''row_conflicts''" "0 \<le> r ''cycles''"
    unfolding r_def by (rule collect_nonneg, simp add: stat_keys_def, use stats in blast)+
  have frac: "0 \<le> x / (x + y + z) \<and> x / (x + y + z) \<le> 1" if "0 \<le> x" "0 \<le> y" "0 \<le> z" for x y z :: real
    using that by (simp add: divide_le_eq_1) linarith
  have zero: "x = 0 \<and> y = 0 \<and> z = 0" if "0 \<le> x" "0 \<le> y" "0 \<le> z" "x + y + z = 0" for x y z :: real
    using that by linarith
  have run: "ram_compare ram ratio geom shape am bt fb (step, rid, n, table)
      = Inr \<lparr>rr_step = step, rr_seq_id = rid, rr_seq_len = n, rr_n_bursts = n * ?bpt,
          rr_m1 = m1 (row_metrics row), rr_m2 = m2 (row_metrics row), rr_m3_gbps = row_m3_gbps row,
          rr_hits = r ''row_hits'', rr_misses = r ''row_misses'', rr_conflicts = r ''row_conflicts'',
          rr_hit_frac = (if r ''row_hits'' + r ''row_misses'' + r ''row_conflicts'' \<noteq> 0
            then Some (r ''row_hits'' / (r ''row_hits'' + r ''row_misses'' + r ''row_conflicts'')) else None),
          rr_cycles = r ''cycles'',
          rr_cycles_per_burst = (if n * ?bpt \<noteq> 0 then Some (r ''cycles'' / real_of_int (n * ?bpt)) else None)\<rparr>"
    unfolding ram_compare_def Let_def case_prod_beta fst_conv snd_conv e(4) bindE_simps row(1) len HBM3_PSEUDOCHANNELS_def r_def ..
  show ?thesis
    unfolding run using pos row(2,3) frac [OF nn(1-3)] zero [OF nn(1-3)] nn(4) by (auto simp del: of_int_mult)
qed

text \<open>Whatever the table, a row that \<open>measure_seq\<close> returns can be compared, and the comparison repeats it.\<close>

definition ram_repeats :: "int \<Rightarrow> int \<Rightarrow> int \<Rightarrow> seq_row \<Rightarrow> ram_row \<Rightarrow> bool" where
  "ram_repeats step rid n row r \<longleftrightarrow> rr_step r = step \<and> rr_seq_id r = rid \<and> rr_seq_len r = n
     \<and> rr_n_bursts r = n_bursts (row_metrics row) \<and> rr_m1 r = m1 (row_metrics row) \<and> rr_m2 r = m2 (row_metrics row)
     \<and> rr_m3_gbps r = row_m3_gbps row"

lemma ram_compare_measured:
  assumes ok: "metrics_ok geom shape am DEFAULT_TIMING 64 ''window''"
    and row: "measure_seq rid n table am geom shape DEFAULT_TIMING bt 64 ''window'' fb = Inr row"
  shows "\<exists>r. ram_compare ram ratio geom shape am bt fb (step, rid, n, table) = Inr r \<and> ram_repeats step rid n row r"
proof -
  obtain m where m: "enumerate_bursts table n geom shape bt am = Inr m" and len: "n_bursts (row_metrics row) = int (length m)"
    using measured_ok [OF ok row] by blast
  have "snd (emit_trace m) = int (length m)" by (simp add: emit_trace_def)
  then show ?thesis by (simp add: ram_compare_def ram_repeats_def Let_def case_prod_beta m row len)
qed

section \<open>Properties\<close>

text \<open>C30: The trace replayed on Ramulator is the burst stream the model scores: for every captured sequence the file has one
  line per KV burst and, read back, gives exactly the coordinates of the sequence's bursts; the address map's inverse
  of these are the linear burst indices of \<open>measure_seq\<close>, so no address is changed on the way.\<close>

theorem replayed_trace_roundtrip:
  assumes g: "valid_geometry geom" "AddrMap geom scheme = Inr am" and bt: "0 < bt"
    and bpt: "burst_bytes geom \<le> kv_bytes_per_token shape"
    and tab: "ceil_div n bt \<le> int (length table)" "\<forall>b \<in> set table. b < N"
    and cap: "int N * (bt * (kv_bytes_per_token shape div burst_bytes geom)) \<le> total_bursts geom"
  shows "\<exists>cs. enumerate_bursts table n geom shape bt am = Inr cs
    \<and> read_lines read_trace_line (fst (emit_trace cs)) = Some cs
    \<and> nat (snd (emit_trace cs)) = nat (n * (kv_bytes_per_token shape div burst_bytes geom))
    \<and> linear_bursts table n (kv_bytes_per_token shape div burst_bytes geom) bt = Inr (inverse_addrs am cs)"
proof -
  let ?bpt = "kv_bytes_per_token shape div burst_bytes geom"
  note e = enumerate_bursts_ok [OF g bt bpt tab cap]
  let ?cs = "map (\<lambda>lb. map_burst am (burst_place table (bt * ?bpt) lb)) [0..n * ?bpt - 1]"
  have bpb: "0 < bt * ?bpt" using bt e(1) by simp
  have place: "0 \<le> burst_place table (bt * ?bpt) lb \<and> burst_place table (bt * ?bpt) lb < total_bursts geom"
    if "lb \<in> set [0..n * ?bpt - 1]" for lb
  proof -
    have "0 \<le> lb div (bt * ?bpt) \<and> lb div (bt * ?bpt) < int (length table)"
      using burst_in_table [OF bt e(1) tab(1), of lb] that by simp
    then show ?thesis using burst_place_range [OF bpb _ _ tab(2), of lb] cap by auto
  qed
  have "inverse_addrs am ?cs = map (\<lambda>lb. inverse_burst am (map_burst am (burst_place table (bt * ?bpt) lb))) [0..n * ?bpt - 1]"
    by (simp add: inverse_addrs_def comp_def)
  also have "\<dots> = map (burst_place table (bt * ?bpt)) [0..n * ?bpt - 1]"
    using place by (intro map_cong refl inverse_map_burst [OF g]) auto
  finally have inv: "linear_bursts table n ?bpt bt = Inr (inverse_addrs am ?cs)" using e(2) by simp
  have "\<forall>m \<in> set ?cs. \<forall>f. 0 \<le> m f"
    using map_burst_ok [OF g] by (auto simp: coord_ok_def)
  from read_emit_trace [OF this] have "read_lines read_trace_line (fst (emit_trace ?cs)) = Some ?cs" .
  then show ?thesis using e(4) inv by (intro exI [of _ ?cs]) (simp add: emit_trace_def)
qed

text \<open>C31: The statistics collected from Ramulator miss nothing and count nothing twice, however the controllers are nested
  in dictionaries and lists: each row counter is the sum of all its occurrences, the cycle count is their maximum, and
  the names reported as found are the counters that occur.\<close>

theorem collect_is_sum_and_max:
  "(\<forall>k \<in> set stat_keys. fst (collect s) k = (if k = ''cycles'' then foldl max 0 (occurrences k s) else sum_list (occurrences k s)))
    \<and> set (snd (collect s)) = {k \<in> set stat_keys. occurrences k s \<noteq> []} \<and> sorted (snd (collect s)) \<and> distinct (snd (collect s))"
  using collect_ok by blast

text \<open>The cross-validation compares like with like: for every captured sequence \<open>main\<close> writes a row, over as many bursts
  as the model scores, and with counters that are not negative its hit fraction lies between 0 and 1 (it is NaN only
  when Ramulator counted no access at all), and cycles per burst is defined.\<close>

theorem cross_validation_row:
  assumes ok: "metrics_ok geom shape am DEFAULT_TIMING 64 ''window''" and bt: "0 < bt" and n: "0 < n"
    and tab: "ceil_div n bt \<le> int (length table)" "\<forall>b \<in> set table. b < N"
    and cap: "int N * (bt * (kv_bytes_per_token shape div burst_bytes geom)) \<le> total_bursts geom"
    and stats: "\<And>trace k x. x \<in> set (occurrences k (ram trace (channels geom div 2) ratio)) \<Longrightarrow> 0 \<le> x"
  shows "\<exists>row. ram_compare ram ratio geom shape am bt fb (step, rid, n, table) = Inr row
    \<and> rr_n_bursts row = n * (kv_bytes_per_token shape div burst_bytes geom) \<and> 0 < rr_n_bursts row
    \<and> 0 \<le> rr_m1 row \<and> rr_m1 row < 1
    \<and> (case rr_hit_frac row of None \<Rightarrow> rr_hits row = 0 \<and> rr_misses row = 0 \<and> rr_conflicts row = 0
       | Some x \<Rightarrow> 0 \<le> x \<and> x \<le> 1)
    \<and> (case rr_cycles_per_burst row of None \<Rightarrow> False | Some x \<Rightarrow> 0 \<le> x)"
  by (rule ram_compare_ok [OF assms])

section \<open>Witnesses\<close>

lemma replayed_trace_roundtrip_witness:
  "\<exists>cs. enumerate_bursts [3, 9, 4] 10 TINY tiny_shape 4 TINY_map = Inr cs
    \<and> read_lines read_trace_line (fst (emit_trace cs)) = Some cs \<and> nat (snd (emit_trace cs)) = 10"
proof -
  have "ceil_div 10 4 \<le> int (length [3, 9, 4 :: nat])" by code_simp
  moreover have "int 100 * (4 * (kv_bytes_per_token tiny_shape div burst_bytes TINY)) \<le> total_bursts TINY" by code_simp
  moreover have "burst_bytes TINY \<le> kv_bytes_per_token tiny_shape" by code_simp
  moreover have "nat (10 * (kv_bytes_per_token tiny_shape div burst_bytes TINY)) = 10" by code_simp
  ultimately show ?thesis
    using replayed_trace_roundtrip [OF TINY_valid TINY_map, of 4 tiny_shape 10 "[3, 9, 4]" 100] by auto
qed

text \<open>Two controllers and a note.\<close>

definition two_controllers :: stats where
  "two_controllers = Dict [(''cycles'', Num 7), (''ctrl'', Seq [
     Dict [(''row_hits'', Num 3), (''cycles'', Num 9), (''note'', Other)], Dict [(''row_hits'', Num 4), (''row_misses'', Num 1)]])]"

lemma collect_is_sum_and_max_witness:
  "fst (collect two_controllers) ''row_hits'' = 7 \<and> fst (collect two_controllers) ''cycles'' = 9
    \<and> ''row_misses'' \<in> set (snd (collect two_controllers)) \<and> ''row_conflicts'' \<notin> set (snd (collect two_controllers))"
  using collect_is_sum_and_max [of two_controllers] by (simp add: stat_keys_def two_controllers_def)

lemma cross_validation_row_witness:
  "\<exists>row. ram_compare (\<lambda>trace nch ratio. two_controllers) 64 TINY tiny_shape TINY_map 4 16 (400, 7, 10, [3, 9, 4]) = Inr row
    \<and> rr_n_bursts row = 10 \<and> rr_m1 row < 1"
proof -
  have "ceil_div 10 4 \<le> int (length [3, 9, 4 :: nat])" by code_simp
  moreover have "int 100 * (4 * (kv_bytes_per_token tiny_shape div burst_bytes TINY)) \<le> total_bursts TINY" by code_simp
  moreover have "10 * (kv_bytes_per_token tiny_shape div burst_bytes TINY) = 10" by code_simp
  moreover have "0 \<le> x" if "x \<in> set (occurrences k two_controllers)" for x k
    using that by (auto simp: two_controllers_def split: if_splits)
  ultimately show ?thesis
    using cross_validation_row [OF tiny_metrics, of 4 10 "[3, 9, 4]" 100 "\<lambda>trace nch ratio. two_controllers" 64 16 400 7] by auto
qed

end
