(* ===== verification/Attacc.thy ===== *)
theory Attacc
  imports Ramulator Pim_Stream
begin

text \<open>
  The all-bank validation (\<open>pimkv/attacc.py\<close>): byte addresses of AttAcc's HBM3-PIM layout, the all-bank command
  sequence of a captured block table, interleaved over the channels, and the \<open>PIM_MAC_AB\<close> trace. AttAcc's simulator is
  third-party code: the function \<open>pim_sim\<close> from a trace to the cycles it reports, if any, is a parameter.
\<close>

section \<open>Addresses\<close>

text \<open>\<open>BITS\<close> and the shifts computed from it.\<close>

definition BITS :: "(string, nat) dict" where
  "BITS = [(''ch'', 4), (''pch'', 1), (''ra'', 1), (''bg'', 2), (''ba'', 2), (''ro'', 14), (''co'', 5)]"

definition bits_at :: "string \<Rightarrow> nat" where
  "bits_at k = the (map_of BITS k)"

definition SH_CO :: nat where "SH_CO = 0"
definition SH_RO :: nat where "SH_RO = bits_at ''co''"
definition SH_BA :: nat where "SH_BA = SH_RO + bits_at ''ro''"
definition SH_BG :: nat where "SH_BG = SH_BA + bits_at ''ba''"
definition SH_RA :: nat where "SH_RA = SH_BG + bits_at ''bg''"
definition SH_PCH :: nat where "SH_PCH = SH_RA + bits_at ''ra''"
definition SH_CH :: nat where "SH_CH = SH_PCH + bits_at ''pch''"
definition TX_OFFSET :: nat where "TX_OFFSET = 5"

definition pim_address :: "int \<Rightarrow> int \<Rightarrow> int \<Rightarrow> int \<Rightarrow> int" where
  "pim_address ch bank row col =
     push_bit TX_OFFSET
       (push_bit SH_CH (drop_bit 1 ch) OR push_bit SH_PCH (ch AND 1) OR push_bit SH_RA 0
        OR push_bit SH_BG (drop_bit 2 bank) OR push_bit SH_BA (bank AND 3)
        OR push_bit SH_RO row OR push_bit SH_CO col)"

section \<open>The command sequence\<close>

text \<open>The rounds: the \<open>i\<close>-th command of every channel that has one, in ascending order of the channels.\<close>

definition round_robin :: "(int \<times> (int \<times> int) list) list \<Rightarrow> (int \<times> int \<times> int) list" where
  "round_robin per_ch =
     concat (map (\<lambda>i. concat (map (\<lambda>(c, cs). if i < length cs then [(c, cs ! i)] else []) per_ch))
       [0..<foldl max 0 (map (\<lambda>(c, cs). length cs) per_ch)])"

definition channel_cmds ::
  "dram_geometry \<Rightarrow> addr_map \<Rightarrow> int \<Rightarrow> string \<Rightarrow> coords list \<Rightarrow> int \<Rightarrow> py_error + int \<times> (int \<times> int) list" where
  "channel_cmds geom am window mode m c =
     bindE (coalesce_channel_stream (banks_per_channel geom) window mode
       (map (\<lambda>x. ((flat_bank am x, x Fro), x Fco)) (filter (\<lambda>x. x Fch = c) m))) (\<lambda>cs. Inr (c, cs))"

definition command_stream ::
  "nat list \<Rightarrow> int \<Rightarrow> dram_geometry \<Rightarrow> model_shape \<Rightarrow> int \<Rightarrow> addr_map \<Rightarrow> int \<Rightarrow> string \<Rightarrow> py_error + (int \<times> int \<times> int) list" where
  "command_stream table seq_len geom shape block_tokens am window mode =
     bindE (enumerate_bursts table seq_len geom shape block_tokens am) (\<lambda>m.
     bindE (mapE (channel_cmds geom am window mode m) (sort (remdups (map (\<lambda>x. x Fch) m)))) (\<lambda>per_ch.
     Inr (round_robin per_ch)))"

text \<open>\<open>f"PIM_MAC_AB 0x{pim_address(c, 0, r, col):08x}\n"\<close>.\<close>

definition pim_line :: "int \<times> int \<times> int \<Rightarrow> string" where
  "pim_line = (\<lambda>(c, r, col). ''PIM_MAC_AB 0x'' @ show_08x (pim_address c 0 r col))"

definition emit_pim_trace :: "(int \<times> int \<times> int) list \<Rightarrow> string \<times> int" where
  "emit_pim_trace cmds = (concat (map (\<lambda>x. pim_line x @ [newline]) cmds), int (length cmds))"

record attacc_row =
  at_step :: int
  at_seq_id :: int
  at_seq_len :: int
  at_kv_bytes :: int
  at_n_cmds :: int
  at_m1 :: real
  at_m2 :: real
  at_m3_gbps :: real
  at_cycles :: "real option"
  at_cycles_per_kb :: "real option"

definition attacc_compare ::
  "(string \<Rightarrow> int \<Rightarrow> real option) \<Rightarrow> int \<Rightarrow> dram_geometry \<Rightarrow> model_shape \<Rightarrow> addr_map \<Rightarrow> int \<Rightarrow> int \<Rightarrow> capture
    \<Rightarrow> py_error + attacc_row" where
  "attacc_compare pim_sim fe_ratio geom shape am bt fb = (\<lambda>(step, rid, seq_len, table).
     bindE (command_stream table seq_len geom shape bt am 64 ''window'') (\<lambda>cmds.
     let (trace, n) = emit_pim_trace cmds in
     bindE (measure_seq rid seq_len table am geom shape DEFAULT_TIMING bt 64 ''window'' fb) (\<lambda>ours.
     let cyc = pim_sim trace fe_ratio; kv = seq_len * kv_bytes_per_token shape
     in Inr \<lparr>at_step = step, at_seq_id = rid, at_seq_len = seq_len, at_kv_bytes = kv, at_n_cmds = n,
          at_m1 = m1 (row_metrics ours), at_m2 = m2 (row_metrics ours), at_m3_gbps = row_m3_gbps ours,
          at_cycles = cyc,
          at_cycles_per_kb = (if kv \<noteq> 0 then map_option (\<lambda>c. c / (real_of_int kv / 1024)) cyc else None)\<rparr>)))"

section \<open>Reading an address back\<close>

text \<open>How AttAcc slices a byte address (\<open>HBM3PIMMap\<close>): the transaction offset is dropped, then column, row, bank, bank
  group, rank, pseudo-channel and channel from the lowest bits.\<close>

definition field_at :: "nat \<Rightarrow> nat \<Rightarrow> int \<Rightarrow> int" where
  "field_at shift n addr = take_bit n (drop_bit (TX_OFFSET + shift) addr)"

definition read_address :: "int \<Rightarrow> int \<times> int \<times> int \<times> int" where
  "read_address a =
     (field_at SH_CH 4 a * 2 + field_at SH_PCH 1 a, field_at SH_BG 2 a * 4 + field_at SH_BA 2 a,
      field_at SH_RO 14 a, field_at SH_CO 5 a)"

lemmas shifts = SH_CO_def SH_RO_def SH_BA_def SH_BG_def SH_RA_def SH_PCH_def SH_CH_def TX_OFFSET_def bits_at_def BITS_def

text \<open>The fields do not overlap: a bit of the address belongs to the field it lies in.\<close>

lemma shift_values: "SH_CO = 0" "SH_RO = 5" "SH_BA = 19" "SH_BG = 21" "SH_RA = 23" "SH_PCH = 24" "SH_CH = 25"
  by (simp_all add: shifts)

lemma and_small: "(x AND 1) = take_bit 1 x" "(x AND 3) = take_bit 2 x" for x :: int
  using and_mask [of x 1] and_mask [of x 2] by (simp_all add: push_bit_eq_mult)

lemma address_bit:
  "bit (pim_address ch bank row col) n \<longleftrightarrow> 5 \<le> n \<and>
     (30 \<le> n \<and> bit ch (n - 29) \<or> n = 29 \<and> bit ch 0 \<or> 26 \<le> n \<and> bit bank (n - 24) \<or> 24 \<le> n \<and> n < 26 \<and> bit bank (n - 24)
      \<or> 10 \<le> n \<and> bit row (n - 10) \<or> bit col (n - 5))"
proof -
  have "Suc (n - 30) = n - 29" if "30 \<le> n" using that by simp
  moreover have "n - 26 + 2 = n - 24" if "26 \<le> n" using that by simp
  ultimately show ?thesis
    unfolding pim_address_def shift_values and_small TX_OFFSET_def
    by (auto simp: bit_or_iff bit_push_bit_iff bit_take_bit_iff bit_drop_bit_eq bit_0)
qed

lemmas field_bits = field_at_def shift_values TX_OFFSET_def bit_take_bit_iff bit_drop_bit_eq address_bit

lemma read_pim_address:
  assumes c: "0 \<le> ch" "ch < 32" and b: "0 \<le> bank" "bank < 16" and r: "0 \<le> row" "row < 16384" and k: "0 \<le> col" "col < 32"
  shows "read_address (pim_address ch bank row col) = (ch, bank, row, col)"
    and "0 \<le> pim_address ch bank row col" "pim_address ch bank row col < 2 ^ 34"
proof -
  have cb: "bit ch n \<Longrightarrow> n < 5" and bb: "bit bank n \<Longrightarrow> n < 4" and rb: "bit row n \<Longrightarrow> n < 14" and kb: "bit col n \<Longrightarrow> n < 5" for n
    using bit_int_lt [OF c(1), of 5 n] bit_int_lt [OF b(1), of 4 n] bit_int_lt [OF r(1), of 14 n] bit_int_lt [OF k(1), of 5 n]
      c(2) b(2) r(2) k(2) by simp_all
  let ?a = "pim_address ch bank row col"
  have ch4: "field_at SH_CH 4 ?a = drop_bit 1 ch" and bg: "field_at SH_BG 2 ?a = drop_bit 2 bank"
    and ba: "field_at SH_BA 2 ?a = take_bit 2 bank" and ro: "field_at SH_RO 14 ?a = row" and co: "field_at SH_CO 5 ?a = col"
    by (rule bit_eqI, use cb bb rb kb in \<open>fastforce simp: field_bits\<close>)+
  have "bit ?a 29 \<longleftrightarrow> bit ch 0" using bb [of 5] rb [of 19] kb [of 24] by (auto simp: address_bit)
  then have ch1: "field_at SH_PCH 1 ?a = take_bit 1 ch"
    unfolding field_at_def shift_values TX_OFFSET_def bit_iff_odd_drop_bit by (simp add: take_bit_eq_mod mod_2_eq_odd)
  have "drop_bit 1 ch * 2 + take_bit 1 ch = ch" "drop_bit 2 bank * 4 + take_bit 2 bank = bank"
    by (simp_all add: drop_bit_eq_div take_bit_eq_mod)
  then show "read_address ?a = (ch, bank, row, col)" unfolding read_address_def ch4 ch1 bg ba ro co by simp
  have "take_bit 34 ?a = ?a"
    by (rule bit_eqI) (use cb bb rb kb in \<open>fastforce simp: bit_take_bit_iff address_bit\<close>)
  then show "0 \<le> ?a" "?a < 2 ^ 34" by (metis take_bit_nonnegative, metis take_bit_int_less_exp)
qed

definition read_pim_line :: "string \<Rightarrow> (int \<times> int \<times> int \<times> int) option" where
  "read_pim_line s = Option.bind (strip_prefix ''PIM_MAC_AB 0x'' s) (\<lambda>d. map_option read_address (read_int 16 d))"

definition cmd_fits :: "int \<times> int \<times> int \<Rightarrow> bool" where
  "cmd_fits = (\<lambda>(c, r, col). 0 \<le> c \<and> c < 32 \<and> 0 \<le> r \<and> r < 16384 \<and> 0 \<le> col \<and> col < 32)"

lemma read_pim_trace:
  assumes "\<forall>x \<in> set cmds. cmd_fits x"
  shows "read_lines read_pim_line (fst (emit_pim_trace cmds)) = Some (map (\<lambda>(c, r, col). (c, 0, r, col)) cmds)"
proof -
  have "\<forall>x \<in> set cmds. newline \<notin> set (pim_line x) \<and> read_pim_line (pim_line x) = Some ((\<lambda>(c, r, col). (c, 0, r, col)) x)"
  proof
    fix x assume x_in: "x \<in> set cmds"
    obtain c r col where x: "x = (c, r, col)" by (metis prod.collapse)
    have "cmd_fits x" using assms x_in by blast
    then have read: "read_address (pim_address c 0 r col) = (c, 0, r, col)" and nn: "0 \<le> pim_address c 0 r col"
      using read_pim_address [of c 0 r col] by (simp_all add: cmd_fits_def x)
    have "newline \<notin> set (show_08x (pim_address c 0 r col))"
      using show_08x_no_sep [OF nn, of newline] by (simp add: newline_def)
    then show "newline \<notin> set (pim_line x) \<and> read_pim_line (pim_line x) = Some ((\<lambda>(c, r, col). (c, 0, r, col)) x)"
      using read read_show_08x [OF nn] unfolding x pim_line_def read_pim_line_def
      by (simp add: newline_def del: strip_prefix_append) (simp add: strip_prefix_def)
  qed
  from read_lines_concat [OF this] show ?thesis by (simp add: emit_pim_trace_def)
qed

section \<open>The interleaving\<close>

lemma foldl_max_ge: "(x :: nat) \<le> foldl max x xs \<and> (\<forall>y \<in> set xs. y \<le> foldl max x xs)"
proof (induction xs arbitrary: x)
  case (Cons y xs)
  show ?case using Cons [of "max x y"] by (auto intro: order_trans [of _ "max x y"])
qed simp

lemma one_round:
  assumes "distinct (map fst per)" and "(c, cs) \<in> set per"
  shows "filter (\<lambda>x. fst x = c) (concat (map (\<lambda>(c, cs). if i < length cs then [(c, cs ! i)] else []) per))
    = (if i < length cs then [(c, cs ! i)] else [])"
  using assms
proof (induction per)
  case (Cons p per)
  obtain c' cs' where p: "p = (c', cs')" by (cases p)
  have none: "filter (\<lambda>x. fst x = c) (concat (map (\<lambda>(c, cs). if i < length cs then [(c, cs ! i)] else []) per)) = []"
    if "c \<notin> fst ` set per" using that by (force simp: filter_empty_conv)
  show ?case
  proof (cases "(c, cs) = p")
    case True
    then show ?thesis using none Cons.prems(1) p by (auto simp: image_image)
  next
    case False
    then have "(c, cs) \<in> set per" "c \<noteq> c'" using Cons.prems p by force+
    then show ?thesis using Cons p by auto
  qed
qed simp

lemma concat_nths: "k \<le> m \<Longrightarrow> k = length cs \<Longrightarrow> concat (map (\<lambda>i. if i < length cs then [f (cs ! i)] else []) [0..<m]) = map f cs"
proof (induction m arbitrary: k cs rule: nat_induct)
  case (Suc m)
  show ?case
  proof (cases "k \<le> m")
    case False
    then have k: "k = Suc m" using Suc.prems by simp
    have "concat (map (\<lambda>i. if i < length cs then [f (cs ! i)] else []) [0..<Suc m]) = map (\<lambda>i. f (cs ! i)) [0..<Suc m]"
    proof -
      have "concat (map (\<lambda>i. if i < length cs then [f (cs ! i)] else []) [0..<Suc m]) = concat (map (\<lambda>i. [f (cs ! i)]) [0..<Suc m])"
        using k Suc.prems by (intro arg_cong [of _ _ concat] map_cong) auto
      then show ?thesis by simp
    qed
    also have "\<dots> = map f (map ((!) cs) [0..<length cs])" using k Suc.prems by simp
    finally show ?thesis by (simp only: map_nth)
  qed (use Suc in auto)
qed simp

lemma round_robin_channel:
  assumes "distinct (map fst per)" and "(c, cs) \<in> set per"
  shows "map snd (filter (\<lambda>x. fst x = c) (round_robin per)) = cs"
proof -
  let ?m = "foldl max 0 (map (\<lambda>(c, cs). length cs) per)"
  have "length cs \<le> ?m" using foldl_max_ge [of 0 "map (\<lambda>(c, cs). length cs) per"] assms(2) by force
  then have "concat (map (\<lambda>i. if i < length cs then [(c, cs ! i)] else []) [0..<?m]) = map (Pair c) cs"
    using concat_nths [of "length cs" ?m cs "Pair c"] by simp
  moreover have "filter (\<lambda>x. fst x = c) (round_robin per) = concat (map (\<lambda>i. filter (\<lambda>x. fst x = c)
      (concat (map (\<lambda>(c, cs). if i < length cs then [(c, cs ! i)] else []) per))) [0..<?m])"
    by (subst round_robin_def, subst filter_concat, subst map_map) (simp only: comp_def)
  ultimately have "filter (\<lambda>x. fst x = c) (round_robin per) = map (Pair c) cs"
    by (simp only: one_round [OF assms])
  then show ?thesis by (simp add: comp_def)
qed

lemma round_robin_channels: "fst ` set (round_robin per) \<subseteq> fst ` set per"
  by (force simp: round_robin_def split: if_splits)

lemma length_round_robin:
  assumes "distinct (map fst per)"
  shows "int (length (round_robin per)) = (\<Sum>p \<leftarrow> per. int (length (snd p)))"
proof -
  have "int (length (round_robin per)) = (\<Sum>c \<leftarrow> map fst per. int (length (filter (\<lambda>x. fst x = c) (round_robin per))))"
    using filter_partition [OF assms, of "round_robin per"] round_robin_channels [of per] by simp
  also have "\<dots> = (\<Sum>p \<leftarrow> per. int (length (snd p)))"
  proof -
    have "length (filter (\<lambda>x. fst x = fst p) (round_robin per)) = length (snd p)" if "p \<in> set per" for p
      using round_robin_channel [OF assms, of "fst p" "snd p"] that by (metis length_map prod.collapse)
    then show ?thesis by (simp add: comp_def cong: map_cong)
  qed
  finally show ?thesis .
qed

section \<open>The commands are those that are counted\<close>

abbreviation channel_bursts :: "addr_map \<Rightarrow> coords list \<Rightarrow> int \<Rightarrow> cburst list" where
  "channel_bursts am m c \<equiv> map (\<lambda>x. ((flat_bank am x, x Fro), x Fco)) (filter (\<lambda>x. x Fch = c) m)"

lemma streams_match_loop:
  assumes ok: "\<forall>x \<in> set m. 0 \<le> flat_bank am x \<and> flat_bank am x < banks_per_channel geom \<and> 0 \<le> x Fro"
    and w: "0 < window" "mode \<in> {''window'', ''inorder''}"
  shows "\<exists>per. mapE (channel_cmds geom am window mode m) cs = Inr per \<and> map fst per = cs
    \<and> (\<forall>(c, out) \<in> set per. coalesce_channel_stream (banks_per_channel geom) window mode (channel_bursts am m c) = Inr out)
    \<and> (\<exists>h' nb'. channel_loop (banks_per_channel geom) window mode (map (\<lambda>c. (c Fch, flat_bank am c, c Fro)) m) cs (k, h, nb)
        = Inr (k + (\<Sum>p \<leftarrow> per. int (length (snd p))), h', nb'))"
proof (induction cs arbitrary: k h nb)
  case Nil
  then show ?case by simp
next
  case (Cons c cs)
  let ?B = "banks_per_channel geom" and ?bs = "channel_bursts am m c"
  have "bursts_ok ?B (map fst ?bs)" using ok by (auto simp: bursts_ok_def)
  from stream_counts_ok [OF this w] obtain n h' out where
    one: "coalesce_channel ?B window mode (map fst ?bs) = Inr (n, h', int (length ?bs))"
      "coalesce_channel_stream ?B window mode ?bs = Inr out" "int (length out) = n" by blast
  have bs: "map snd (filter (\<lambda>x. fst x = c) (map (\<lambda>c. (c Fch, flat_bank am c, c Fro)) m)) = map fst ?bs"
    by (simp add: filter_map comp_def)
  from Cons [of "k + n" "h + h'" "nb + int (length ?bs)"] obtain per where
    rest: "mapE (channel_cmds geom am window mode m) cs = Inr per" "map fst per = cs"
      "\<forall>(c, out) \<in> set per. coalesce_channel_stream ?B window mode (channel_bursts am m c) = Inr out"
    and loop: "\<exists>h'' nb''. channel_loop ?B window mode (map (\<lambda>c. (c Fch, flat_bank am c, c Fro)) m) cs (k + n, h + h', nb + int (length ?bs))
        = Inr (k + n + (\<Sum>p \<leftarrow> per. int (length (snd p))), h'', nb'')" by blast
  have cmds: "channel_cmds geom am window mode m c = Inr (c, out)" using one(2) by (simp add: channel_cmds_def)
  show ?case
    using rest cmds one loop bs by (intro exI [of _ "(c, out) # per"]) (auto simp: add.assoc)
qed

text \<open>Every command addresses the row and the column of a burst of its channel.\<close>

lemma hd_mem: "x \<in> set xs \<Longrightarrow> hd xs \<in> set xs"
  by (cases xs) simp_all

lemma emit_rows: "(r, c) \<in> set (emit_groups gs) \<Longrightarrow> \<exists>k. (r, k, c) \<in> set gs"
  by (auto simp: emit_groups_def)

lemma stream_groups_place:
  assumes ok: "bursts_ok B (map fst w)" and g: "(r, k, c) \<in> set (stream_order B carry w)"
  shows "\<exists>x \<in> set w. snd (fst x) = r \<and> snd x = c"
proof -
  have "set (stream_order B carry w) = set (stream_groups B w)"
    unfolding stream_order_def by (metis group_first_mset group_last_mset mset_eq_setD)
  with g have g': "(r, k) \<in> set (win_rows B (map fst w))" "c = row_column B w r" by (auto simp: stream_groups_def)
  have "r \<in> snd ` set (map fst w)" using win_rows_ok(1) [OF ok] g'(1) by force
  then obtain y where y: "y \<in> set w" "snd (fst y) = r" by auto
  let ?f = "filter (\<lambda>x. burst_key B (fst x) div B = r) (sort_key (\<lambda>x. burst_key B (fst x)) w)"
  have key: "burst_key B (fst x) div B = snd (fst x)" if "x \<in> set w" for x
    using key_row [OF ok] that by simp
  then have "y \<in> set ?f" using y by simp
  then have "hd ?f \<in> set ?f" by (rule hd_mem)
  then have "hd ?f \<in> set w" "burst_key B (fst (hd ?f)) div B = r" by simp_all
  moreover have "c = snd (hd ?f)" using g'(2) by (simp add: row_column_def)
  ultimately show ?thesis using key [of "hd ?f"] by (intro bexI [of _ "hd ?f"]) simp_all
qed

lemma emit_all_place:
  "\<forall>w \<in> set ws. bursts_ok B (map fst w) \<Longrightarrow> (r, c) \<in> set (emit_all B carry ws) \<Longrightarrow>
    \<exists>x \<in> set (concat ws). snd (fst x) = r \<and> snd x = c"
proof (induction ws arbitrary: carry)
  case (Cons w ws)
  then show ?case using emit_rows [of r c] stream_groups_place [of B w r _ c carry] by fastforce
qed simp

definition placed :: "cburst set \<Rightarrow> (int \<times> int) list \<times> int \<times> int \<times> int list \<Rightarrow> bool" where
  "placed S = (\<lambda>(out, cr, cc, cb). (\<forall>(r, c) \<in> set out. \<exists>x \<in> S. snd (fst x) = r \<and> snd x = c)
     \<and> (cr = - 1 \<or> (\<exists>x \<in> S. snd (fst x) = cr \<and> snd x = cc)))"

lemma placed_step: "placed S s \<Longrightarrow> x \<in> S \<Longrightarrow> placed S (stream_inorder_step B s x)"
  by (cases s; cases x) (force simp: placed_def stream_inorder_step_def)

lemma inorder_place: "\<forall>(r, c) \<in> set (stream_inorder B bs). \<exists>x \<in> set bs. snd (fst x) = r \<and> snd x = c"
proof -
  have "placed S (foldl (stream_inorder_step B) s xs)" if "placed S s" "set xs \<subseteq> S" for S s xs
    using that by (induction xs arbitrary: s) (simp_all add: placed_step)
  from this [of "set bs" "([], - 1, 0, [])" bs] show ?thesis
    by (auto simp: placed_def stream_inorder_def split: prod.splits)
qed

lemma stream_place:
  assumes ok: "bursts_ok B (map fst bs)" and w: "0 < window"
    and run: "coalesce_channel_stream B window mode bs = Inr out" and cmd: "(r, c) \<in> set out"
  shows "\<exists>x \<in> set bs. snd (fst x) = r \<and> snd x = c"
proof (cases "bs = [] \<or> mode = ''inorder''")
  case True
  then show ?thesis using run cmd inorder_place [of B bs] by (auto simp: coalesce_channel_stream_def split: if_splits)
next
  case False
  let ?ws = "chunks (nat window) bs"
  have ws: "\<forall>v \<in> set ?ws. bursts_ok B (map fst v)"
    using bursts_ok_chunk [OF ok, of _ "nat window"] by (auto simp: chunks_map)
  have "out = emit_all B (- 1) ?ws"
    using run False w by (auto simp: coalesce_channel_stream_def windows_def stream_fold split: if_splits)
  from emit_all_place [OF ws, of r c "- 1"] cmd this show ?thesis using concat_chunks [of "nat window" bs] w by simp
qed

lemma round_robin_mem: "(c, r, k) \<in> set (round_robin per) \<Longrightarrow> \<exists>cs. (c, cs) \<in> set per \<and> (r, k) \<in> set cs"
  by (force simp: round_robin_def split: if_splits)

lemma command_stream_measured:
  assumes ok: "metrics_ok geom shape am timing window mode"
    and row: "measure_seq k n table am geom shape timing bt window mode fb = Inr row"
  shows "\<exists>m cmds. enumerate_bursts table n geom shape bt am = Inr m \<and> (\<forall>x \<in> set m. coord_ok geom x)
    \<and> command_stream table n geom shape bt am window mode = Inr cmds
    \<and> int (length cmds) = n_cmds (row_metrics row)
    \<and> (\<forall>c. channel_cmds geom am window mode m c = Inr (c, map snd (filter (\<lambda>x. fst x = c) cmds)))
    \<and> (\<forall>(c, r, col) \<in> set cmds. \<exists>x \<in> set m. x Fch = c \<and> x Fro = r \<and> x Fco = col)"
proof -
  obtain scheme where g: "valid_geometry geom" "AddrMap geom scheme = Inr am" and w: "0 < window" "mode \<in> {''window'', ''inorder''}"
    using ok by (auto simp: metrics_ok_def)
  obtain m where m: "enumerate_bursts table n geom shape bt am = Inr m" and coord: "\<forall>x \<in> set m. coord_ok geom x"
    and metrics: "sequence_metrics geom window mode (map (\<lambda>c. (c Fch, flat_bank am c, c Fro)) m) = Inr (row_metrics row)"
    using measured_ok [OF ok row] by blast
  note banks = coords_banks [OF g coord]
  let ?chans = "sort (remdups (map (\<lambda>x. x Fch) m))"
  from streams_match_loop [OF banks w, of ?chans 0 0 0] obtain per h' nb' where
    per: "mapE (channel_cmds geom am window mode m) ?chans = Inr per" "map fst per = ?chans"
      "\<forall>(c, out) \<in> set per. coalesce_channel_stream (banks_per_channel geom) window mode (channel_bursts am m c) = Inr out"
    and loop: "channel_loop (banks_per_channel geom) window mode (map (\<lambda>c. (c Fch, flat_bank am c, c Fro)) m) ?chans (0, 0, 0)
      = Inr ((\<Sum>p \<leftarrow> per. int (length (snd p))), h', nb')" by auto
  have dist: "distinct (map fst per)" unfolding per(2) by simp
  have count: "n_cmds (row_metrics row) = (\<Sum>p \<leftarrow> per. int (length (snd p)))"
    using metrics loop by (simp add: sequence_metrics_def comp_def) (drule sym, simp)
  have stream: "channel_cmds geom am window mode m c = Inr (c, map snd (filter (\<lambda>x. fst x = c) (round_robin per)))" for c
  proof (cases "c \<in> fst ` set per")
    case True
    then obtain out where out: "(c, out) \<in> set per" by auto
    then show ?thesis using per(3) round_robin_channel [OF dist out] by (auto simp: channel_cmds_def)
  next
    case False
    then have "filter (\<lambda>x. x Fch = c) m = []" using arg_cong [OF per(2), of set] by (auto simp: filter_empty_conv)
    moreover have "filter (\<lambda>x. fst x = c) (round_robin per) = []"
      using False round_robin_channels [of per] by (auto simp: filter_empty_conv)
    ultimately show ?thesis by (simp add: channel_cmds_def coalesce_channel_stream_def)
  qed
  have place: "\<exists>x \<in> set m. x Fch = c \<and> x Fro = r \<and> x Fco = col" if cmd: "(c, r, col) \<in> set (round_robin per)" for c r col
  proof -
    obtain out where out: "(c, out) \<in> set per" "(r, col) \<in> set out" using round_robin_mem [OF cmd] by blast
    have "bursts_ok (banks_per_channel geom) (map fst (channel_bursts am m c))" using banks by (auto simp: bursts_ok_def)
    from stream_place [OF this w(1) _ out(2)] out(1) per(3)
    show ?thesis by fastforce
  qed
  show ?thesis
    using m coord per(1) count length_round_robin [OF dist] stream place
    by (intro exI [of _ m] exI [of _ "round_robin per"]) (auto simp: command_stream_def)
qed

lemma command_stream_ok:
  assumes ok: "metrics_ok geom shape am timing window mode" and bt: "0 < bt" and n: "0 < n"
    and tab: "ceil_div n bt \<le> int (length table)" "\<forall>b \<in> set table. b < N"
    and cap: "int N * (bt * (kv_bytes_per_token shape div burst_bytes geom)) \<le> total_bursts geom"
  shows "\<exists>m cmds row. enumerate_bursts table n geom shape bt am = Inr m \<and> (\<forall>x \<in> set m. coord_ok geom x)
    \<and> command_stream table n geom shape bt am window mode = Inr cmds
    \<and> measure_seq k n table am geom shape timing bt window mode fb = Inr row
    \<and> int (length cmds) = n_cmds (row_metrics row)
    \<and> (\<forall>c. channel_cmds geom am window mode m c = Inr (c, map snd (filter (\<lambda>x. fst x = c) cmds)))
    \<and> (\<forall>(c, r, col) \<in> set cmds. \<exists>x \<in> set m. x Fch = c \<and> x Fro = r \<and> x Fco = col)"
proof -
  obtain row where row: "measure_seq k n table am geom shape timing bt window mode fb = Inr row"
    using measure_seq_ok [OF ok bt n tab cap] by metis
  from command_stream_measured [OF ok row] row show ?thesis by blast
qed

text \<open>Whatever the table, a row that \<open>measure_seq\<close> returns can be compared, and the comparison repeats it.\<close>

definition attacc_repeats :: "int \<Rightarrow> int \<Rightarrow> int \<Rightarrow> seq_row \<Rightarrow> attacc_row \<Rightarrow> bool" where
  "attacc_repeats step rid n row r \<longleftrightarrow> at_step r = step \<and> at_seq_id r = rid \<and> at_seq_len r = n
     \<and> at_kv_bytes r = row_kv_bytes row \<and> at_n_cmds r = n_cmds (row_metrics row) \<and> at_m1 r = m1 (row_metrics row)
     \<and> at_m2 r = m2 (row_metrics row) \<and> at_m3_gbps r = row_m3_gbps row"

lemma attacc_compare_measured:
  assumes ok: "metrics_ok geom shape am DEFAULT_TIMING 64 ''window''"
    and row: "measure_seq rid n table am geom shape DEFAULT_TIMING bt 64 ''window'' fb = Inr row"
  shows "\<exists>r. attacc_compare pim_sim ratio geom shape am bt fb (step, rid, n, table) = Inr r \<and> attacc_repeats step rid n row r"
proof -
  obtain cmds where cmds: "command_stream table n geom shape bt am 64 ''window'' = Inr cmds"
    and len: "int (length cmds) = n_cmds (row_metrics row)"
    using command_stream_measured [OF ok row] by blast
  have "row_kv_bytes row = n * kv_bytes_per_token shape" using row by (auto simp: measure_seq_def bindE_Inr Let_def)
  then show ?thesis
    by (simp add: attacc_compare_def attacc_repeats_def emit_pim_trace_def Let_def case_prod_beta cmds row len)
qed

section \<open>Properties\<close>

text \<open>C28: The all-bank validation replays exactly the commands the metrics count: for every sequence that can be measured,
  in either controller mode and for any positive window, \<open>command_stream\<close> succeeds with \<open>n_cmds\<close> commands, the
  commands of each channel are that channel's coalesced stream in its own order, and every command addresses the row
  and the column of a KV burst of its channel.\<close>

theorem command_stream_is_counted:
  assumes ok: "metrics_ok geom shape am timing window mode" and bt: "0 < bt" and n: "0 < n"
    and tab: "ceil_div n bt \<le> int (length table)" "\<forall>b \<in> set table. b < N"
    and cap: "int N * (bt * (kv_bytes_per_token shape div burst_bytes geom)) \<le> total_bursts geom"
  shows "\<exists>m cmds row. enumerate_bursts table n geom shape bt am = Inr m \<and> (\<forall>x \<in> set m. coord_ok geom x)
    \<and> command_stream table n geom shape bt am window mode = Inr cmds
    \<and> measure_seq k n table am geom shape timing bt window mode fb = Inr row
    \<and> int (length cmds) = n_cmds (row_metrics row)
    \<and> (\<forall>c. channel_cmds geom am window mode m c = Inr (c, map snd (filter (\<lambda>x. fst x = c) cmds)))
    \<and> (\<forall>(c, r, col) \<in> set cmds. \<exists>x \<in> set m. x Fch = c \<and> x Fro = r \<and> x Fco = col)"
  by (rule command_stream_ok [OF assms])

text \<open>The address encoding loses nothing: within the sizes of the simulated device (32 all-bank domains, 16 banks, 16384
  rows, 32 columns) every coordinate is read back from its byte address under AttAcc's slicing, and the address lies
  below 16 GiB.\<close>

theorem pim_address_roundtrip:
  assumes "0 \<le> ch" "ch < 32" and "0 \<le> bank" "bank < 16" and "0 \<le> row" "row < 16384" and "0 \<le> col" "col < 32"
  shows "read_address (pim_address ch bank row col) = (ch, bank, row, col)
    \<and> 0 \<le> pim_address ch bank row col \<and> pim_address ch bank row col < 2 ^ 34"
  using read_pim_address [OF assms] by blast


section \<open>Witnesses\<close>

lemma command_stream_is_counted_witness:
  "\<exists>cmds row. command_stream [3, 9, 4] 10 TINY tiny_shape 4 TINY_map 64 ''window'' = Inr cmds
    \<and> measure_seq 7 10 [3, 9, 4] TINY_map TINY tiny_shape DEFAULT_TIMING 4 64 ''window'' 16 = Inr row
    \<and> int (length cmds) = n_cmds (row_metrics row)"
proof -
  have "ceil_div 10 4 \<le> int (length [3, 9, 4 :: nat])" by code_simp
  moreover have "int 100 * (4 * (kv_bytes_per_token tiny_shape div burst_bytes TINY)) \<le> total_bursts TINY" by code_simp
  ultimately show ?thesis
    using command_stream_is_counted [OF tiny_metrics, of 4 10 "[3, 9, 4]" 100 7 16] by auto
qed

lemma pim_address_roundtrip_witness:
  "read_address (pim_address 31 13 16383 30) = (31, 13, 16383, 30) \<and> pim_address 31 13 16383 30 < 2 ^ 34"
  using pim_address_roundtrip [of 31 13 16383 30] by simp


end
