(* ===== verification/Validation.thy ===== *)
theory Validation
  imports Run Attacc
begin

text \<open>
  The two validation tools end to end (\<open>main\<close> of \<open>pimkv/ramulator.py\<close> and of \<open>pimkv/attacc.py\<close>): run the simulator
  with the sampling hook, capture sequences with their tables, and compare each with an external simulator. The tools
  differ in the comparison only, so what they share is stated once, for any comparison that repeats a measured row.
\<close>

section \<open>A run with its samples\<close>

type_synonym sample = "int \<times> seq_state \<times> nat list \<times> seq_row \<times> int \<times> int"

definition simulate_log ::
  "nat \<Rightarrow> ('p, 'g) env \<Rightarrow> ('p \<Rightarrow> int \<times> int) \<Rightarrow> request list \<Rightarrow> 'p kv \<Rightarrow> 'g \<Rightarrow> 'g \<Rightarrow> py_error + sample list option" where
  "simulate_log fuel e copied rs p g gs =
     bindE (simulate_summary fuel e copied rs p g gs) (\<lambda>sm.
     Inr (map_option (\<lambda>_. samples (snd (simulate fuel e (sim_init rs p g gs)))) sm))"

definition simulate_log_any ::
  "nat \<Rightarrow> 'g numpy \<Rightarrow> request list \<Rightarrow> 'g any_pool \<Rightarrow> dram_geometry \<Rightarrow> model_shape \<Rightarrow> addr_map \<Rightarrow> sim_kwargs \<Rightarrow> int
    \<Rightarrow> py_error + sample list option" where
  "simulate_log_any fuel R rs made geom shape am k seed =
     (let g = default_rng R (seed + 1); gs = default_rng R (seed + 2) in
      case made of
        PagedPool p \<Rightarrow> simulate_log fuel (make_env paged_allocator R geom shape am k) (\<lambda>_. (0, 0)) rs p g gs
      | RandomPool p \<Rightarrow> simulate_log fuel (make_env (random_allocator (\<lambda>g n. np_below R g (int n))) R geom shape am k) (\<lambda>_. (0, 0)) rs p g gs
      | ContigPool p \<Rightarrow> simulate_log fuel (make_env contiguous_allocator R geom shape am k) (\<lambda>_. (0, 0)) rs p g gs
      | PimPool p \<Rightarrow> simulate_log fuel (make_env pim_allocator R geom shape am k) (\<lambda>q. (blocks_copied q, compactions q)) rs p g gs)"

section \<open>The tools\<close>

text \<open>The options the tools share.\<close>

record val_args =
  v_workload :: string
  v_addrmap :: string
  v_block_tokens :: int
  v_requests :: nat
  v_seed :: int
  v_max_batch :: int
  v_samples :: int
  v_min_step :: int

text \<open>The defaults; \<open>--min-step 400\<close> lets the free list churn first.\<close>

definition val_defaults :: val_args where
  "val_defaults = \<lparr>v_workload = ''steady'', v_addrmap = ''host-cacheline'', v_block_tokens = 16, v_requests = 300, v_seed = 0,
     v_max_batch = 64, v_samples = 3, v_min_step = 400\<rparr>"

definition default_allocators :: string where
  "default_allocators = ''paged,pim-aware,contiguous''"

text \<open>One allocator's run: the frame size and the samples.\<close>

definition capture_run ::
  "nat \<Rightarrow> 'g numpy \<Rightarrow> val_args \<Rightarrow> string \<Rightarrow> addr_map \<Rightarrow> string \<Rightarrow> py_error + (int \<times> sample list) option" where
  "capture_run fuel R a adopt am al =
     bindE (lookupE (v_workload a) (WORKLOADS R)) (\<lambda>gen.
     let rs = gen (v_requests a) (v_seed a) in
     bindE (auto_pool_blocks rs (v_block_tokens a) (v_max_batch a) (13 / 10)) (\<lambda>pool_size.
     bindE (frame_blocks_for HBM3_PIM LLAMA_GQA_8KV (v_block_tokens a)) (\<lambda>fb.
     bindE (make_allocator al (nat pool_size) (default_rng R (v_seed a)) (if al = ''pim-aware'' then fb else 1)
        ''separate'' ''bestfit'' 0) (\<lambda>made.
     bindE (simulate_log_any fuel R rs made HBM3_PIM LLAMA_GQA_8KV am
       \<lparr>k_block_tokens = v_block_tokens a, k_max_batch = v_max_batch a, k_sample_every = 16, k_sample_seqs = 8, k_window = 64,
        k_mode = ''window'', k_frame_blocks = fb,
        k_spec = (if v_workload a = ''spec''
          then Some \<lparr>sp_width = 4, sp_depth = 3, sp_accept = 4 / 5, sp_adopt = adopt\<rparr> else None),
        k_admission = ''oracle''\<rparr> (v_seed a)) (\<lambda>recs.
     Inr (map_option (Pair fb) recs))))))"

definition captured :: "val_args \<Rightarrow> sample list \<Rightarrow> capture list" where
  "captured a recs =
     fold (hook (v_min_step a) (v_samples a)) (map (\<lambda>(step, st, tab, row, live, free). (step, sq_rid st, sq_length st, tab)) recs) []"

fun gather :: "('a \<Rightarrow> py_error + 'b list option) \<Rightarrow> 'a list \<Rightarrow> py_error + 'b list option" where
  "gather f [] = Inr (Some [])"
| "gather f (x # xs) = bindE (f x) (\<lambda>ys. case ys of None \<Rightarrow> Inr None
     | Some ys \<Rightarrow> bindE (gather f xs) (\<lambda>zs. Inr (map_option ((@) ys) zs)))"

text \<open>The rows of \<open>main\<close>, each with its allocator.\<close>

definition validate ::
  "(addr_map \<Rightarrow> int \<Rightarrow> capture \<Rightarrow> py_error + 'r) \<Rightarrow> nat \<Rightarrow> 'g numpy \<Rightarrow> val_args \<Rightarrow> string \<Rightarrow> string
    \<Rightarrow> py_error + (string \<times> 'r) list option" where
  "validate compare fuel R a adopt allocators =
     bindE (AddrMap HBM3_PIM (v_addrmap a)) (\<lambda>am.
     gather (\<lambda>al. bindE (capture_run fuel R a adopt am al) (\<lambda>run. case run of None \<Rightarrow> Inr None
       | Some (fb, recs) \<Rightarrow> bindE (mapE (compare am fb) (captured a recs)) (\<lambda>rows. Inr (Some (map (Pair al) rows)))))
     (split_on (CHR '','') allocators))"

definition ram_main ::
  "nat \<Rightarrow> 'g numpy \<Rightarrow> (string \<Rightarrow> int \<Rightarrow> int \<Rightarrow> stats) \<Rightarrow> int \<Rightarrow> val_args \<Rightarrow> string \<Rightarrow> string
    \<Rightarrow> py_error + (string \<times> ram_row) list option" where
  "ram_main fuel R ram mem_clock_ratio a adopt =
     validate (\<lambda>am fb. ram_compare ram mem_clock_ratio HBM3_PIM LLAMA_GQA_8KV am (v_block_tokens a) fb) fuel R a adopt"

definition attacc_main ::
  "nat \<Rightarrow> 'g numpy \<Rightarrow> (string \<Rightarrow> int \<Rightarrow> real option) \<Rightarrow> int \<Rightarrow> val_args \<Rightarrow> string
    \<Rightarrow> py_error + (string \<times> attacc_row) list option" where
  "attacc_main fuel R pim_sim fe_ratio a =
     validate (\<lambda>am fb. attacc_compare pim_sim fe_ratio HBM3_PIM LLAMA_GQA_8KV am (v_block_tokens a) fb) fuel R a ''copyback''"

section \<open>What is captured\<close>

lemma hook_count: "int (length cs) \<le> max 0 n \<Longrightarrow> int (length (fold (hook m n) xs cs)) \<le> max 0 n"
  by (induction xs arbitrary: cs) (auto simp: hook_def)

lemma hook_mem: "x \<in> set (fold (hook m n) xs cs) \<Longrightarrow> x \<in> set cs \<or> (x \<in> set xs \<and> m \<le> fst x)"
proof (induction xs arbitrary: cs)
  case (Cons y ys)
  then have "x \<in> set (hook m n y cs) \<or> x \<in> set ys \<and> m \<le> fst x" by simp
  then show ?case by (auto simp: hook_def split: if_splits)
qed simp

lemma captured_count: "length (captured a recs) \<le> nat (v_samples a)"
proof -
  have "int (length (captured a recs)) \<le> max 0 (v_samples a)" unfolding captured_def by (rule hook_count) simp
  then show ?thesis by simp
qed

lemma captured_mem:
  assumes "c \<in> set (captured a recs)"
  shows "\<exists>(step, st, tab, row, live, free) \<in> set recs. v_min_step a \<le> step \<and> c = (step, sq_rid st, sq_length st, tab)"
  using hook_mem [OF assms [unfolded captured_def]] by force

section \<open>The runs behind a validation\<close>

definition recorded_default :: "addr_map \<Rightarrow> int \<Rightarrow> int \<Rightarrow> sample \<Rightarrow> bool" where
  "recorded_default am bt fb = (\<lambda>(step, st, tab, row, live, free).
     measure_seq (sq_rid st) (sq_length st) tab am HBM3_PIM LLAMA_GQA_8KV DEFAULT_TIMING bt 64 ''window'' fb = Inr row)"

lemma log_recorded: "simulate_log fuel e copied rs p g gs = Inr (Some recs) \<Longrightarrow> x \<in> set recs \<Longrightarrow> recorded e x"
  by (auto simp: simulate_log_def bindE_Inr intro: simulate_recorded)

lemma capture_recorded:
  assumes "capture_run fuel R a adopt am al = Inr (Some (fb, recs))" and "x \<in> set recs"
  shows "recorded_default am (v_block_tokens a) fb x"
proof -
  obtain rs made k where run: "simulate_log_any fuel R rs made HBM3_PIM LLAMA_GQA_8KV am k (v_seed a) = Inr (Some recs)"
    and k: "k_block_tokens k = v_block_tokens a" "k_window k = 64" "k_mode k = ''window''" "k_frame_blocks k = fb"
    using assms(1) by (auto simp: capture_run_def bindE_Inr Let_def)
  have same: "recorded_default am (v_block_tokens a) fb x" if "recorded (make_env A R HBM3_PIM LLAMA_GQA_8KV am k) x" for A :: "'p allocator"
    using that k by (auto simp: recorded_def recorded_default_def make_env_def)
  show ?thesis using run assms(2)
    by (auto simp: simulate_log_any_def Let_def dest!: log_recorded intro: same split: any_pool.splits)
qed

text \<open>The run a tool makes is the run of \<open>run.py\<close> with the same options.\<close>

definition run_of :: "val_args \<Rightarrow> string \<Rightarrow> string \<Rightarrow> run_args" where
  "run_of a adopt al = run_defaults\<lparr>a_workload := v_workload a, a_allocator := al, a_addrmap := v_addrmap a,
     a_block_tokens := v_block_tokens a, a_requests := v_requests a, a_seed := v_seed a, a_max_batch := v_max_batch a,
     a_spec_adopt := adopt\<rparr>"

lemma log_summary:
  "simulate_any fuel R rs made geom shape am k seed = Inr (Some sm) \<Longrightarrow>
    \<exists>recs. simulate_log_any fuel R rs made geom shape am k seed = Inr (Some recs)"
  by (auto simp: simulate_any_def simulate_log_any_def simulate_log_def Let_def split: any_pool.splits)

lemma capture_of_run:
  assumes bt: "v_block_tokens a \<noteq> 0" and adopt: "adopt \<noteq> ''auto''" and am: "AddrMap HBM3_PIM (v_addrmap a) = Inr am"
    and run: "run_main fuel R (run_of a adopt al) = Inr (Some sm)"
  shows "\<exists>fb recs. capture_run fuel R a adopt am al = Inr (Some (fb, recs))"
proof -
  have look: "lookupE ''hbm3-pim'' DRAM_PRESETS = Inr HBM3_PIM" "lookupE ''llama-gqa-8kv'' MODEL_PRESETS = Inr LLAMA_GQA_8KV"
    by (simp_all add: lookupE_def DRAM_PRESETS_def MODEL_PRESETS_def)
  have "resolve_adopt adopt al = adopt" using adopt by (simp add: resolve_adopt_def)
  let ?k = "\<lambda>fb. \<lparr>k_block_tokens = v_block_tokens a, k_max_batch = v_max_batch a, k_sample_every = 16, k_sample_seqs = 8,
    k_window = 64, k_mode = ''window'', k_frame_blocks = fb, k_spec = (if v_workload a = ''spec''
      then Some \<lparr>sp_width = 4, sp_depth = 3, sp_accept = 4 / 5, sp_adopt = adopt\<rparr> else None), k_admission = ''oracle''\<rparr>"
  from run bt \<open>resolve_adopt adopt al = adopt\<close> obtain gen pool_size fb made where
    1: "lookupE (v_workload a) (WORKLOADS R) = Inr gen"
      "auto_pool_blocks (gen (v_requests a) (v_seed a)) (v_block_tokens a) (v_max_batch a) (13 / 10) = Inr pool_size"
      "frame_blocks_for HBM3_PIM LLAMA_GQA_8KV (v_block_tokens a) = Inr fb"
    and 2: "make_allocator al (nat pool_size) (default_rng R (v_seed a)) (if al = ''pim-aware'' then fb else 1)
        ''separate'' ''bestfit'' 0 = Inr made"
    and 3: "simulate_any fuel R (gen (v_requests a) (v_seed a)) made HBM3_PIM LLAMA_GQA_8KV am (?k fb) (v_seed a) = Inr (Some sm)"
    by (simp add: run_main_def run_of_def run_defaults_def look shard_kv_def am bindE_Inr Let_def cong: if_cong) (elim exE conjE, rule that)
  from log_summary [OF 3] obtain recs where
    "simulate_log_any fuel R (gen (v_requests a) (v_seed a)) made HBM3_PIM LLAMA_GQA_8KV am (?k fb) (v_seed a) = Inr (Some recs)"
    by blast
  then have "capture_run fuel R a adopt am al = Inr (Some (fb, recs))"
    unfolding capture_run_def Let_def 1 bindE_simps 2 by simp
  then show ?thesis by blast
qed

section \<open>Comparisons\<close>

text \<open>A row that repeats a sample taken at or after the first step of interest.\<close>

definition of_sample ::
  "(int \<Rightarrow> int \<Rightarrow> int \<Rightarrow> seq_row \<Rightarrow> 'r \<Rightarrow> bool) \<Rightarrow> val_args \<Rightarrow> sample list \<Rightarrow> 'r \<Rightarrow> bool" where
  "of_sample repeats a recs r \<longleftrightarrow> (\<exists>(step, st, tab, row, live, free) \<in> set recs. v_min_step a \<le> step
     \<and> repeats step (sq_rid st) (sq_length st) row r)"

locale comparison =
  fixes compare :: "addr_map \<Rightarrow> int \<Rightarrow> capture \<Rightarrow> py_error + 'r"
    and bt :: int
    and repeats :: "int \<Rightarrow> int \<Rightarrow> int \<Rightarrow> seq_row \<Rightarrow> 'r \<Rightarrow> bool"
  assumes compare_law: "AddrMap HBM3_PIM scheme = Inr am \<Longrightarrow>
      measure_seq k n table am HBM3_PIM LLAMA_GQA_8KV DEFAULT_TIMING bt 64 ''window'' fb = Inr row \<Longrightarrow>
      \<exists>r. compare am fb (step, k, n, table) = Inr r \<and> repeats step k n row r"
begin

lemma compare_all:
  assumes am: "AddrMap HBM3_PIM (v_addrmap a) = Inr am" and bt: "v_block_tokens a = bt"
    and run: "capture_run fuel R a adopt am al = Inr (Some (fb, recs))"
  shows "\<exists>rows. mapE (compare am fb) (captured a recs) = Inr rows \<and> length rows \<le> nat (v_samples a)
    \<and> (\<forall>r \<in> set rows. of_sample repeats a recs r)"
proof -
  have one: "\<exists>r. compare am fb c = Inr r \<and> of_sample repeats a recs r" if c: "c \<in> set (captured a recs)" for c
  proof -
    obtain step st tab row live free where mem: "(step, st, tab, row, live, free) \<in> set recs" "v_min_step a \<le> step"
        "c = (step, sq_rid st, sq_length st, tab)" using captured_mem [OF c] by auto
    have "measure_seq (sq_rid st) (sq_length st) tab am HBM3_PIM LLAMA_GQA_8KV DEFAULT_TIMING bt 64 ''window'' fb = Inr row"
      using capture_recorded [OF run mem(1)] bt by (simp add: recorded_default_def)
    from compare_law [OF am this, of step] mem show ?thesis unfolding of_sample_def by fast
  qed
  have "\<exists>rows. mapE (compare am fb) cs = Inr rows \<and> length rows = length cs \<and> (\<forall>r \<in> set rows. of_sample repeats a recs r)"
    if "set cs \<subseteq> set (captured a recs)" for cs using that
  proof (induction cs)
    case (Cons c cs)
    then obtain r rows where "compare am fb c = Inr r" "of_sample repeats a recs r" "mapE (compare am fb) cs = Inr rows"
      "length rows = length cs" "\<forall>r \<in> set rows. of_sample repeats a recs r" using one [of c] by auto
    then show ?case by simp
  qed simp
  from this [of "captured a recs"] captured_count [of a recs] show ?thesis by auto
qed

lemma validate_ok:
  assumes am: "AddrMap HBM3_PIM (v_addrmap a) = Inr am" and bt: "v_block_tokens a = bt"
    and runs: "\<And>al. al \<in> set (split_on (CHR '','') als) \<Longrightarrow> \<exists>fb recs. capture_run fuel R a adopt am al = Inr (Some (fb, recs))"
  shows "\<exists>rows. validate compare fuel R a adopt als = Inr (Some rows)
    \<and> length rows \<le> nat (v_samples a) * length (split_on (CHR '','') als)
    \<and> (\<forall>(al, r) \<in> set rows. al \<in> set (split_on (CHR '','') als)
        \<and> (\<exists>fb recs. capture_run fuel R a adopt am al = Inr (Some (fb, recs)) \<and> of_sample repeats a recs r))"
proof -
  let ?f = "\<lambda>al. bindE (capture_run fuel R a adopt am al) (\<lambda>run. case run of None \<Rightarrow> Inr None
       | Some (fb, recs) \<Rightarrow> bindE (mapE (compare am fb) (captured a recs)) (\<lambda>rows. Inr (Some (map (Pair al) rows))))"
  have "\<exists>rows. gather ?f xs = Inr (Some rows) \<and> length rows \<le> nat (v_samples a) * length xs
      \<and> (\<forall>(al, r) \<in> set rows. al \<in> set xs
        \<and> (\<exists>fb recs. capture_run fuel R a adopt am al = Inr (Some (fb, recs)) \<and> of_sample repeats a recs r))"
    if "set xs \<subseteq> set (split_on (CHR '','') als)" for xs using that
  proof (induction xs)
    case (Cons al xs)
    then obtain rest where rest: "gather ?f xs = Inr (Some rest)" "length rest \<le> nat (v_samples a) * length xs"
      "\<forall>(al, r) \<in> set rest. al \<in> set xs
        \<and> (\<exists>fb recs. capture_run fuel R a adopt am al = Inr (Some (fb, recs)) \<and> of_sample repeats a recs r)" by auto
    obtain fb recs where run: "capture_run fuel R a adopt am al = Inr (Some (fb, recs))" using runs [of al] Cons.prems by auto
    obtain rows where "mapE (compare am fb) (captured a recs) = Inr rows" "length rows \<le> nat (v_samples a)"
      "\<forall>r \<in> set rows. of_sample repeats a recs r" using compare_all [OF am bt run] by blast
    with rest run show ?case by fastforce
  qed simp
  from this [OF subset_refl] show ?thesis by (simp add: validate_def am)
qed

lemma validate_default:
  assumes R: "numpy_ok R" and bt: "v_block_tokens a = bt" and adopt: "adopt \<noteq> ''auto''" and fuel: "4098 * v_requests a + 2 \<le> fuel"
    and runs: "\<And>al. al \<in> set (split_on (CHR '','') als) \<Longrightarrow> default_like (run_of a adopt al)"
  shows "\<exists>am rows. AddrMap HBM3_PIM (v_addrmap a) = Inr am \<and> validate compare fuel R a adopt als = Inr (Some rows)
    \<and> length rows \<le> nat (v_samples a) * length (split_on (CHR '','') als)
    \<and> (\<forall>(al, r) \<in> set rows. al \<in> set (split_on (CHR '','') als)
        \<and> (\<exists>fb recs. capture_run fuel R a adopt am al = Inr (Some (fb, recs)) \<and> of_sample repeats a recs r))"
proof -
  have "split_on (CHR '','') als \<noteq> []" by (induction als) (auto split: list.split)
  then have "default_like (run_of a adopt (hd (split_on (CHR '','') als)))" using runs by simp
  then have d: "v_addrmap a \<in> set SCHEMES" "v_block_tokens a = 16" by (simp_all add: default_like_def run_of_def)
  obtain am where am: "AddrMap HBM3_PIM (v_addrmap a) = Inr am" using AddrMap_ok [OF hbm3_facts(1) d(1)] by blast
  have "\<exists>fb recs. capture_run fuel R a adopt am al = Inr (Some (fb, recs))" if al: "al \<in> set (split_on (CHR '','') als)" for al
  proof -
    have "a_requests (run_of a adopt al) = v_requests a" by (simp add: run_of_def)
    then obtain sm where "run_main fuel R (run_of a adopt al) = Inr (Some sm)"
      using run_default_ok [OF R runs [OF al], of fuel] fuel by auto
    from capture_of_run [OF _ adopt am this] d(2) show ?thesis by simp
  qed
  from validate_ok [OF am bt this] am show ?thesis by blast
qed

end

lemma hbm3_metrics: "AddrMap HBM3_PIM scheme = Inr am \<Longrightarrow> metrics_ok HBM3_PIM LLAMA_GQA_8KV am DEFAULT_TIMING 64 ''window''"
  using hbm3_facts by (auto simp: metrics_ok_def DEFAULT_TIMING_def)

interpretation ram_tool: comparison "\<lambda>am fb. ram_compare ram ratio HBM3_PIM LLAMA_GQA_8KV am bt fb" bt ram_repeats
  for ram ratio bt
  by unfold_locales (rule ram_compare_measured [OF hbm3_metrics])

interpretation attacc_tool: comparison "\<lambda>am fb. attacc_compare pim_sim ratio HBM3_PIM LLAMA_GQA_8KV am bt fb" bt attacc_repeats
  for pim_sim ratio bt
  by unfold_locales (rule attacc_compare_measured [OF hbm3_metrics])

section \<open>Properties\<close>



section \<open>Witnesses\<close>

lemma val_runs:
  assumes "al \<in> set (split_on (CHR '','') ''paged,pim-aware'')"
  shows "default_like (run_of val_defaults ''copyback'' al)"
  using assms by (auto simp: default_like_def run_of_def val_defaults_def run_defaults_def SCHEMES_def)



end
