(* ===== verification/Sweep.thy ===== *)
theory Sweep
  imports Run Trace_Text "HOL-Library.Char_ord" "HOL-Library.List_Lexorder"
begin

text \<open>
  The sweep runner (\<open>pimkv/sweep.py\<close>): the expansion of a configuration into jobs, the file name of a job and the run
  of one cell. A YAML value is a string, an integer or a float; how Python prints a float is the parameter \<open>show_float\<close>.
  An option of the wrong type raises \<open>TypeError\<close>. The rows and the summary are in \<open>Sweep_Main\<close>.
\<close>

section \<open>Values and jobs\<close>

datatype val = VS string | VI int | VF rat

text \<open>Python's \<open>==\<close>: an integer equals a float of the same value.\<close>

fun val_eq :: "val \<Rightarrow> val \<Rightarrow> bool" where
  "val_eq (VS s) (VS t) = (s = t)"
| "val_eq (VI i) (VI j) = (i = j)"
| "val_eq (VF x) (VF y) = (x = y)"
| "val_eq (VI i) (VF y) = (of_int i = y)"
| "val_eq (VF x) (VI j) = (x = of_int j)"
| "val_eq (VS s) _ = False"
| "val_eq _ (VS t) = False"

fun show_val :: "(rat \<Rightarrow> string) \<Rightarrow> val \<Rightarrow> string" where
  "show_val sf (VS s) = s"
| "show_val sf (VI i) = show_int i"
| "show_val sf (VF x) = sf x"

text \<open>A job: its options, and the keyword arguments of the workload where there are any.\<close>

record job =
  opts :: "(string, val) dict"
  workload_kwargs :: "(string, val) dict option"

definition DEFAULTS :: "(string, val) dict" where
  "DEFAULTS = [(''dram'', VS ''hbm3-pim''), (''addrmap'', VS ''host-cacheline''), (''model'', VS ''llama-gqa-8kv''),
     (''requests'', VI 1000), (''max_batch'', VI 64), (''sample_every'', VI 16), (''sample_seqs'', VI 8), (''window'', VI 64),
     (''coalesce'', VS ''window''), (''pool_blocks'', VI 0), (''headroom'', VF (13 / 10)), (''kv_shards'', VI 1),
     (''spec_adopt'', VS ''auto''), (''pim_scratch'', VS ''separate''), (''pim_plan'', VS ''bestfit''),
     (''pim_compact'', VF 0), (''admission'', VS ''oracle'')]"

text \<open>Cell key, job key, and whether it goes into the workload's keyword arguments.\<close>

definition AXES :: "(string, string \<times> bool) dict" where
  "AXES = [(''block_tokens'', ''block_tokens'', False), (''seeds'', ''seed'', False), (''headrooms'', ''headroom'', False),
     (''kv_shards'', ''kv_shards'', False), (''coalesce_modes'', ''coalesce'', False), (''addrmaps'', ''addrmap'', False),
     (''models'', ''model'', False), (''spec_adopts'', ''spec_adopt'', False), (''pim_scratch_modes'', ''pim_scratch'', False),
     (''pim_plans'', ''pim_plan'', False), (''pim_compacts'', ''pim_compact'', False), (''max_batches'', ''max_batch'', False),
     (''admission_modes'', ''admission'', False), (''prompt_lens'', ''prompt_len'', True), (''arrival_rates'', ''arrival_rate'', True)]"

section \<open>Expansion\<close>

text \<open>A cell: its workloads and allocators, its axes, and the remaining keys.\<close>

record cell =
  c_workloads :: "string list"
  c_allocators :: "string list"
  c_axes :: "(string, val list) dict"
  c_opts :: "(string, val) dict"
  c_kwargs :: "(string, val) dict option"

record config =
  common_opts :: "(string, val) dict"
  common_kwargs :: "(string, val) dict option"
  cells :: "cell list"

text \<open>\<open>dict(d, **d')\<close>, \<open>d.setdefault(k, v)\<close>.\<close>

definition merge :: "('k, 'v) dict \<Rightarrow> ('k, 'v) dict \<Rightarrow> ('k, 'v) dict" where
  "merge d d' = foldl (\<lambda>acc (k, v). AList.update k v acc) d d'"

definition setdefault :: "'k \<Rightarrow> 'v \<Rightarrow> ('k, 'v) dict \<Rightarrow> ('k, 'v) dict" where
  "setdefault k v d = (case map_of d k of None \<Rightarrow> AList.update k v d | Some _ \<Rightarrow> d)"

definition axis_names :: "cell \<Rightarrow> string list" where
  "axis_names c = filter (\<lambda>a. map_of (c_axes c) a \<noteq> None) (map fst AXES)"

definition axis_values :: "cell \<Rightarrow> val list list" where
  "axis_values c = map (\<lambda>a. the (map_of (c_axes c) a)) (axis_names c)"

definition apply_axis :: "(string \<times> val) \<Rightarrow> (string, val) dict \<times> (string, val) dict \<Rightarrow> (string, val) dict \<times> (string, val) dict" where
  "apply_axis = (\<lambda>(axis, v) (d, wkw). case the (map_of AXES axis) of (key, is_wkw) \<Rightarrow>
     if is_wkw then (d, AList.update key v wkw) else (AList.update key v d, wkw))"

definition make_job :: "(string, val) dict \<Rightarrow> (string, val) dict option \<Rightarrow> string \<Rightarrow> cell \<Rightarrow> string \<Rightarrow> string \<Rightarrow> val list \<Rightarrow> job" where
  "make_job common kwargs out_dir c wl al combo =
     (let base = merge common (c_opts c);
          base_kwargs = (case c_kwargs c of None \<Rightarrow> kwargs | Some w \<Rightarrow> Some w);
          d = AList.update ''out_dir'' (VS out_dir) (AList.update ''allocator'' (VS al) (AList.update ''workload'' (VS wl) base));
          d = setdefault ''seed'' (VI 0) (setdefault ''block_tokens'' (VI 16) d);
          (d, wkw) = fold apply_axis (zip (axis_names c) combo) (d, case base_kwargs of None \<Rightarrow> [] | Some w \<Rightarrow> w)
      in \<lparr>opts = d, workload_kwargs = (if wkw \<noteq> [] then Some wkw else base_kwargs)\<rparr>)"

definition expand_cell :: "(string, val) dict \<Rightarrow> (string, val) dict option \<Rightarrow> string \<Rightarrow> cell \<Rightarrow> job list" where
  "expand_cell common kwargs out_dir c =
     concat (map (\<lambda>wl. concat (map (\<lambda>al. map (make_job common kwargs out_dir c wl al) (product_lists (axis_values c)))
       (c_allocators c))) (c_workloads c))"

definition expand :: "config \<Rightarrow> string \<Rightarrow> job list" where
  "expand cfg out_dir =
     concat (map (expand_cell (merge DEFAULTS (common_opts cfg)) (common_kwargs cfg) out_dir) (cells cfg))"

section \<open>The name of a job\<close>

definition TAGS :: "(string \<times> string) list" where
  "TAGS = [(''headroom'', ''hr''), (''kv_shards'', ''sh''), (''coalesce'', ''cm''), (''model'', ''md''), (''addrmap'', ''am''),
     (''spec_adopt'', ''ad''), (''pim_scratch'', ''ps''), (''admission'', ''adm''), (''pim_plan'', ''pl''), (''pim_compact'', ''cp''),
     (''max_batch'', ''mb''), (''requests'', ''rq'')]"

definition opt_of :: "job \<Rightarrow> string \<Rightarrow> py_error + val" where
  "opt_of j k = lookupE k (opts j)"

text \<open>\<open>sorted(wkw.items())\<close>: the keys are different, so they decide.\<close>

definition kwargs_tag :: "(rat \<Rightarrow> string) \<Rightarrow> (string, val) dict \<Rightarrow> string" where
  "kwargs_tag sf wkw = concat (map (\<lambda>(k, v). ''_'' @ take 2 k @ show_val sf v) (sort_key fst wkw))"

text \<open>\<open>job.get(k) != DEFAULTS[k]\<close> holds of a missing key, and then \<open>job[k]\<close> raises.\<close>

definition option_tag :: "(rat \<Rightarrow> string) \<Rightarrow> job \<Rightarrow> string \<times> string \<Rightarrow> py_error + string" where
  "option_tag sf j = (\<lambda>(k, short). case map_of (opts j) k of
       None \<Rightarrow> Inl KeyError
     | Some v \<Rightarrow> if val_eq v (the (map_of DEFAULTS k)) then Inr '''' else Inr (''_'' @ short @ show_val sf v))"

definition job_name :: "(rat \<Rightarrow> string) \<Rightarrow> job \<Rightarrow> py_error + string" where
  "job_name sf j =
     (let wkw = (case workload_kwargs j of None \<Rightarrow> [] | Some w \<Rightarrow> w) in
      bindE (mapE (option_tag sf j) TAGS) (\<lambda>tags.
      bindE (opt_of j ''workload'') (\<lambda>wl. bindE (opt_of j ''allocator'') (\<lambda>al. bindE (opt_of j ''addrmap'') (\<lambda>am.
      bindE (opt_of j ''block_tokens'') (\<lambda>bt. bindE (opt_of j ''seed'') (\<lambda>seed.
      Inr (show_val sf wl @ ''_'' @ show_val sf al @ ''_'' @ show_val sf am @ ''_bt'' @ show_val sf bt
        @ kwargs_tag sf wkw @ concat tags @ ''_s'' @ show_val sf seed))))))))"

section \<open>Running a cell\<close>

definition int_opt :: "job \<Rightarrow> string \<Rightarrow> py_error + int" where
  "int_opt j k = bindE (opt_of j k) (\<lambda>v. case v of VI i \<Rightarrow> Inr i | _ \<Rightarrow> Inl TypeError)"

definition str_opt :: "job \<Rightarrow> string \<Rightarrow> py_error + string" where
  "str_opt j k = bindE (opt_of j k) (\<lambda>v. case v of VS s \<Rightarrow> Inr s | _ \<Rightarrow> Inl TypeError)"

fun num_val :: "val \<Rightarrow> py_error + rat" where
  "num_val (VI i) = Inr (of_int i)"
| "num_val (VF x) = Inr x"
| "num_val (VS s) = Inl TypeError"

definition num_opt :: "job \<Rightarrow> string \<Rightarrow> py_error + rat" where
  "num_opt j k = bindE (opt_of j k) num_val"

text \<open>\<open>WORKLOADS[name](n, seed, **wkw)\<close>: a keyword the generator does not have raises, and so do an arrival rate of 0
  (\<open>1.0 / rate\<close>), a negative one and a negative size (numpy).\<close>

definition kwarg :: "string \<Rightarrow> real \<Rightarrow> (string, rat) dict \<Rightarrow> real" where
  "kwarg k dflt w = (case map_of w k of None \<Rightarrow> dflt | Some v \<Rightarrow> real_of_rat v)"

definition steady_kwargs :: "(string, rat) dict \<Rightarrow> steady_args" where
  "steady_kwargs w = \<lparr>arrival_rate = kwarg ''arrival_rate'' (1 / 4) w, prompt_median = kwarg ''prompt_median'' 200 w,
     prompt_sigma = kwarg ''prompt_sigma'' 1 w, output_median = kwarg ''output_median'' 200 w, output_sigma = kwarg ''output_sigma'' (4 / 5) w\<rparr>"

definition known_kwargs :: "string \<Rightarrow> string list" where
  "known_kwargs name =
     (if name = ''steady'' \<or> name = ''spec''
      then [''arrival_rate'', ''prompt_median'', ''prompt_sigma'', ''output_median'', ''output_sigma'']
      else if name = ''longctx'' then [''arrival_rate'']
      else if name = ''prefix'' then [''arrival_rate'', ''share_frac'', ''unique_median'', ''output_median'']
      else [''prompt_len'', ''output_len'', ''arrival_rate''])"

definition int_kwarg :: "string \<Rightarrow> int \<Rightarrow> (string, rat) dict \<Rightarrow> int" where
  "int_kwarg k dflt w = (case map_of w k of None \<Rightarrow> dflt | Some v \<Rightarrow> floor v)"

definition call_workload :: "'g numpy \<Rightarrow> string \<Rightarrow> (string, val) dict \<Rightarrow> int \<Rightarrow> int \<Rightarrow> py_error + request list" where
  "call_workload R name wkw num seed =
     bindE (lookupE name (WORKLOADS R)) (\<lambda>_.
     if \<not> set (map fst wkw) \<subseteq> set (known_kwargs name) then Inl TypeError
     else bindE (mapE (\<lambda>(k, v). bindE (num_val v) (\<lambda>x. Inr (k, x))) wkw) (\<lambda>w. let n = nat num in
       if map_of w ''arrival_rate'' = Some 0 then Inl ZeroDivisionError
       else if num < 0 \<or> (case map_of w ''arrival_rate'' of None \<Rightarrow> False | Some x \<Rightarrow> x < 0) then Inl ValueError
       else if name = ''steady'' then Inr (steady R (steady_kwargs w) n seed)
       else if name = ''spec'' then Inr (spec_wl R (steady_kwargs w) n seed)
       else if name = ''longctx'' then Inr (longctx R (kwarg ''arrival_rate'' (1 / 5) w) n seed)
       else if name = ''prefix'' then
         Inr (prefix_wl R \<lparr>px_arrival_rate = kwarg ''arrival_rate'' (1 / 4) w, share_frac = kwarg ''share_frac'' (7 / 10) w,
           unique_median = kwarg ''unique_median'' 150 w, px_output_median = kwarg ''output_median'' 200 w\<rparr> n seed)
       else Inr (fixedlen R \<lparr>fx_prompt_len = int_kwarg ''prompt_len'' 2048 w, fx_output_len = int_kwarg ''output_len'' 128 w,
           fx_arrival_rate = kwarg ''arrival_rate'' (3 / 10) w\<rparr> n seed)))"

definition run_cell :: "nat \<Rightarrow> 'g numpy \<Rightarrow> job \<Rightarrow> py_error + summary option" where
  "run_cell fuel R j =
     (let wkw = (case workload_kwargs j of None \<Rightarrow> [] | Some w \<Rightarrow> w) in
     bindE (str_opt j ''dram'') (\<lambda>dram_name. bindE (lookupE dram_name DRAM_PRESETS) (\<lambda>dram.
     bindE (str_opt j ''model'') (\<lambda>model_name. bindE (lookupE model_name MODEL_PRESETS) (\<lambda>model.
     bindE (int_opt j ''kv_shards'') (\<lambda>shards. bindE (shard_kv dram model shards) (\<lambda>(geom, shape).
     bindE (int_opt j ''block_tokens'') (\<lambda>bt.
     bindE (str_opt j ''addrmap'') (\<lambda>scheme. bindE (AddrMap geom scheme) (\<lambda>am.
     bindE (str_opt j ''workload'') (\<lambda>wl. bindE (int_opt j ''requests'') (\<lambda>n. bindE (int_opt j ''seed'') (\<lambda>seed.
     bindE (call_workload R wl wkw n seed) (\<lambda>rs.
     bindE (int_opt j ''pool_blocks'') (\<lambda>pb. bindE (int_opt j ''max_batch'') (\<lambda>mb. bindE (num_opt j ''headroom'') (\<lambda>h.
     bindE (if pb \<noteq> 0 then Inr pb else auto_pool_blocks rs bt mb (real_of_rat h)) (\<lambda>pool_size.
     bindE (frame_blocks_for geom shape bt) (\<lambda>fb.
     bindE (str_opt j ''allocator'') (\<lambda>al. bindE (str_opt j ''pim_scratch'') (\<lambda>ps. bindE (str_opt j ''pim_plan'') (\<lambda>pl.
     bindE (num_opt j ''pim_compact'') (\<lambda>cp.
     bindE (make_allocator al (nat pool_size) (default_rng R seed) (if al = ''pim-aware'' then fb else 1) ps pl cp) (\<lambda>made.
     bindE (str_opt j ''spec_adopt'') (\<lambda>adopt. bindE (int_opt j ''sample_every'') (\<lambda>se. bindE (int_opt j ''sample_seqs'') (\<lambda>ss.
     bindE (int_opt j ''window'') (\<lambda>w. bindE (str_opt j ''coalesce'') (\<lambda>mode. bindE (str_opt j ''admission'') (\<lambda>adm.
     simulate_any fuel R rs made geom shape am
       \<lparr>k_block_tokens = bt, k_max_batch = mb, k_sample_every = se, k_sample_seqs = ss, k_window = w, k_mode = mode,
        k_frame_blocks = fb,
        k_spec = (if wl = ''spec''
          then Some \<lparr>sp_width = 4, sp_depth = 3, sp_accept = 4 / 5, sp_adopt = resolve_adopt adopt al\<rparr> else None),
        k_admission = adm\<rparr> seed))))))))))))))))))))))))))))))"

section \<open>A cell is a run\<close>

text \<open>The job that has the options of a command line.\<close>

definition job_of :: "run_args \<Rightarrow> job" where
  "job_of a = \<lparr>opts =
     [(''dram'', VS (a_dram a)), (''model'', VS (a_model a)), (''kv_shards'', VI (a_kv_shards a)), (''block_tokens'', VI (a_block_tokens a)),
      (''addrmap'', VS (a_addrmap a)), (''workload'', VS (a_workload a)), (''requests'', VI (int (a_requests a))), (''seed'', VI (a_seed a)),
      (''pool_blocks'', VI (int (a_pool_blocks a))), (''max_batch'', VI (a_max_batch a)), (''headroom'', VF (13 / 10)),
      (''allocator'', VS (a_allocator a)), (''pim_scratch'', VS (a_pim_scratch a)), (''pim_plan'', VS (a_pim_plan a)),
      (''pim_compact'', VF (a_pim_compact a)), (''spec_adopt'', VS (a_spec_adopt a)), (''sample_every'', VI (a_sample_every a)),
      (''sample_seqs'', VI (a_sample_seqs a)), (''window'', VI (a_window a)), (''coalesce'', VS (a_coalesce a)),
      (''admission'', VS (a_admission a))],
     workload_kwargs = None\<rparr>"

lemma call_workload_plain: "call_workload R name [] n seed = bindE (lookupE name (WORKLOADS R)) (\<lambda>gen. Inr (gen n seed))"
  by (auto simp: call_workload_def lookupE_def WORKLOADS_def steady_kwargs_def steady_defaults_def prefix_defaults_def
      fixedlen_defaults_def kwarg_def int_kwarg_def)

lemma job_of_opts:
  "str_opt (job_of a) ''dram'' = Inr (a_dram a)" "str_opt (job_of a) ''model'' = Inr (a_model a)"
  "int_opt (job_of a) ''kv_shards'' = Inr (a_kv_shards a)" "int_opt (job_of a) ''block_tokens'' = Inr (a_block_tokens a)"
  "str_opt (job_of a) ''addrmap'' = Inr (a_addrmap a)" "str_opt (job_of a) ''workload'' = Inr (a_workload a)"
  "int_opt (job_of a) ''requests'' = Inr (int (a_requests a))" "int_opt (job_of a) ''seed'' = Inr (a_seed a)"
  "int_opt (job_of a) ''pool_blocks'' = Inr (int (a_pool_blocks a))" "int_opt (job_of a) ''max_batch'' = Inr (a_max_batch a)"
  "num_opt (job_of a) ''headroom'' = Inr (13 / 10)" "str_opt (job_of a) ''allocator'' = Inr (a_allocator a)"
  "str_opt (job_of a) ''pim_scratch'' = Inr (a_pim_scratch a)" "str_opt (job_of a) ''pim_plan'' = Inr (a_pim_plan a)"
  "num_opt (job_of a) ''pim_compact'' = Inr (a_pim_compact a)" "str_opt (job_of a) ''spec_adopt'' = Inr (a_spec_adopt a)"
  "int_opt (job_of a) ''sample_every'' = Inr (a_sample_every a)" "int_opt (job_of a) ''sample_seqs'' = Inr (a_sample_seqs a)"
  "int_opt (job_of a) ''window'' = Inr (a_window a)" "str_opt (job_of a) ''coalesce'' = Inr (a_coalesce a)"
  "str_opt (job_of a) ''admission'' = Inr (a_admission a)" "workload_kwargs (job_of a) = None"
  by (simp_all add: str_opt_def int_opt_def num_opt_def opt_of_def lookupE_def job_of_def)

lemma real_of_thirteen_tenths: "real_of_rat (13 / 10) = 13 / 10"
  by (simp add: of_rat_divide)

lemma run_cell_job_of:
  assumes "a_block_tokens a \<noteq> 0" "a_spec_width a = 4" "a_spec_depth a = 3" "a_spec_accept a = 4 / 5"
  shows "run_cell fuel R (job_of a) = run_main fuel R a"
proof -
  have "\<not> int (a_requests a) < 0" by simp
  note n = if_not_P [OF this]
  have m: "nat (int (a_requests a)) = a_requests a" "int (a_pool_blocks a) \<noteq> 0 \<longleftrightarrow> a_pool_blocks a \<noteq> 0" by simp_all
  show ?thesis
    unfolding run_cell_def run_main_def Let_def job_of_opts option.case bindE_simps call_workload_plain bindE_assoc n m
      real_of_thirteen_tenths assms(2-4) if_P [OF assms(1)] ..
qed

section \<open>The grid\<close>

lemma length_product_lists: "length (product_lists xss) = prod_list (map length xss)"
  by (induction xss) (simp_all add: length_concat comp_def sum_list_triv)

lemma length_expand_cell:
  "length (expand_cell common kwargs out_dir c)
    = length (c_workloads c) * length (c_allocators c) * prod_list (map length (axis_values c))"
  by (simp add: expand_cell_def length_concat comp_def length_product_lists sum_list_triv)

text \<open>Setting an option keeps the others; the job keys of the axes differ from each other and from \<open>workload\<close> and
  \<open>allocator\<close>.\<close>

lemma axis_keys: "distinct (map (fst \<circ> snd) AXES)" "distinct (map fst AXES)"
    "''workload'' \<notin> set (map (fst \<circ> snd) AXES)" "''allocator'' \<notin> set (map (fst \<circ> snd) AXES)"
  by code_simp+

lemma axis_key_in: "map_of AXES axis = Some (k, w) \<Longrightarrow> k \<in> set (map (fst \<circ> snd) AXES)"
  by (force dest: map_of_SomeD)

lemma axis_key_inj:
  assumes "map_of AXES axis = Some (k, w)" and "map_of AXES axis' = Some (k, w')"
  shows "axis = axis'"
proof -
  have "inj_on (fst \<circ> snd) (set AXES)" using axis_keys(1) by (simp add: distinct_map)
  from inj_onD [OF this, of "(axis, k, w)" "(axis', k, w')"] map_of_SomeD [OF assms(1)] map_of_SomeD [OF assms(2)]
  show ?thesis by simp
qed

lemma apply_axis_other:
  assumes "map_of AXES axis = Some (k', w)" and "k \<noteq> k'"
  shows "map_of (fst (apply_axis (axis, v) dw)) k = map_of (fst dw) k" "map_of (snd (apply_axis (axis, v) dw)) k = map_of (snd dw) k"
  using assms by (cases dw; simp add: apply_axis_def)+

lemma fold_axis_other:
  assumes "\<forall>(axis, v) \<in> set avs. \<exists>k' w. map_of AXES axis = Some (k', w) \<and> k' \<noteq> k"
  shows "map_of (fst (fold apply_axis avs dw)) k = map_of (fst dw) k \<and> map_of (snd (fold apply_axis avs dw)) k = map_of (snd dw) k"
  using assms
proof (induction avs arbitrary: dw)
  case (Cons av avs)
  obtain axis v where av: "av = (axis, v)" by (cases av)
  with Cons.prems obtain k' w where "map_of AXES axis = Some (k', w)" "k \<noteq> k'" by auto
  from apply_axis_other [OF this, of v dw] Cons show ?case by (simp add: av)
qed simp

lemma fold_axis_set:
  assumes "distinct (map fst avs)" and "(axis, v) \<in> set avs" and "\<forall>(axis, v) \<in> set avs. map_of AXES axis \<noteq> None"
    and key: "map_of AXES axis = Some (k, w)"
  shows "map_of (if w then snd (fold apply_axis avs dw) else fst (fold apply_axis avs dw)) k = Some v"
  using assms(1-3)
proof (induction avs arbitrary: dw)
  case (Cons av avs)
  obtain axis' v' where av: "av = (axis', v')" by (cases av)
  show ?case
  proof (cases "axis' = axis")
    case True
    then have v: "v' = v" using Cons.prems(1,2) av by force
    have "\<forall>(a, u) \<in> set avs. \<exists>k' w'. map_of AXES a = Some (k', w') \<and> k' \<noteq> k"
    proof clarify
      fix a u assume a: "(a, u) \<in> set avs"
      then obtain k' w' where k': "map_of AXES a = Some (k', w')" using Cons.prems(3) by fastforce
      moreover have "a \<noteq> axis" using a Cons.prems(1) av True by force
      ultimately show "\<exists>k' w'. map_of AXES a = Some (k', w') \<and> k' \<noteq> k" using axis_key_inj [OF key] by blast
    qed
    from fold_axis_other [OF this] show ?thesis
      using av True v key by (cases dw) (simp add: apply_axis_def)
  next
    case False
    show ?thesis
      unfolding fold_Cons comp_apply by (rule Cons.IH) (use Cons.prems av False in auto)
  qed
qed simp

lemma setdefault_other [simp]: "k \<noteq> k' \<Longrightarrow> map_of (setdefault k' v d) k = map_of d k"
  by (simp add: setdefault_def split: option.split)

lemma zip_axes:
  "distinct (map fst (zip (axis_names c) combo))" "\<forall>(axis, v) \<in> set (zip (axis_names c) combo). map_of AXES axis \<noteq> None"
proof -
  have "distinct (axis_names c)" using axis_keys(2) by (simp add: axis_names_def)
  then show "distinct (map fst (zip (axis_names c) combo))" by (simp add: map_fst_zip_take)
  show "\<forall>(axis, v) \<in> set (zip (axis_names c) combo). map_of AXES axis \<noteq> None"
    by (auto dest!: set_zip_leftD simp: axis_names_def map_of_eq_None_iff)
qed

lemma make_job_opts:
  fixes combo :: "val list"
  defines "j \<equiv> \<lambda>common kwargs out_dir c wl al. make_job common kwargs out_dir c wl al combo"
  shows "map_of (opts (j common kwargs out_dir c wl al)) ''workload'' = Some (VS wl)"
    and "map_of (opts (j common kwargs out_dir c wl al)) ''allocator'' = Some (VS al)"
    and "(axis, v) \<in> set (zip (axis_names c) combo) \<Longrightarrow> map_of AXES axis = Some (k, False) \<Longrightarrow>
      map_of (opts (j common kwargs out_dir c wl al)) k = Some v"
    and "(axis, v) \<in> set (zip (axis_names c) combo) \<Longrightarrow> map_of AXES axis = Some (k, True) \<Longrightarrow>
      \<exists>w. workload_kwargs (j common kwargs out_dir c wl al) = Some w \<and> map_of w k = Some v"
proof -
  define d where "d = setdefault ''seed'' (VI 0) (setdefault ''block_tokens'' (VI 16) (AList.update ''out_dir'' (VS out_dir)
    (AList.update ''allocator'' (VS al) (AList.update ''workload'' (VS wl) (merge common (c_opts c))))))"
  define w0 where "w0 = (case (case c_kwargs c of None \<Rightarrow> kwargs | Some w \<Rightarrow> Some w) of None \<Rightarrow> [] | Some w \<Rightarrow> w)"
  define r where "r = fold apply_axis (zip (axis_names c) combo) (d, w0)"
  have job: "opts (j common kwargs out_dir c wl al) = fst r"
      "workload_kwargs (j common kwargs out_dir c wl al) = (if snd r \<noteq> [] then Some (snd r) else case c_kwargs c of None \<Rightarrow> kwargs | Some w \<Rightarrow> Some w)"
    unfolding j_def make_job_def Let_def d_def [symmetric] w0_def [symmetric] r_def [symmetric] by (simp_all split: prod.split)
  have other: "map_of (fst r) k = map_of d k" if "k \<notin> set (map (fst \<circ> snd) AXES)" for k
  proof -
    have "\<forall>(axis, v) \<in> set (zip (axis_names c) combo). \<exists>k' w. map_of AXES axis = Some (k', w) \<and> k' \<noteq> k"
      using zip_axes(2) [of c combo] axis_key_in that by fastforce
    from fold_axis_other [OF this, of "(d, w0)"] show ?thesis unfolding r_def by simp
  qed
  show "map_of (opts (j common kwargs out_dir c wl al)) ''workload'' = Some (VS wl)"
    "map_of (opts (j common kwargs out_dir c wl al)) ''allocator'' = Some (VS al)"
    unfolding job other [OF axis_keys(3)] other [OF axis_keys(4)] by (simp_all add: d_def)
  show "map_of (opts (j common kwargs out_dir c wl al)) k = Some v"
    if "(axis, v) \<in> set (zip (axis_names c) combo)" "map_of AXES axis = Some (k, False)"
    using fold_axis_set [OF zip_axes(1) that(1) zip_axes(2) that(2), of "(d, w0)"] unfolding job r_def by simp
  show "\<exists>w. workload_kwargs (j common kwargs out_dir c wl al) = Some w \<and> map_of w k = Some v"
    if "(axis, v) \<in> set (zip (axis_names c) combo)" "map_of AXES axis = Some (k, True)"
  proof -
    have "map_of (snd r) k = Some v"
      using fold_axis_set [OF zip_axes(1) that(1) zip_axes(2) that(2), of "(d, w0)"] unfolding r_def by simp
    moreover from this have "snd r \<noteq> []" by auto
    ultimately show ?thesis unfolding job by simp
  qed
qed

lemma in_expand:
  assumes "c \<in> set (cells cfg)" "wl \<in> set (c_workloads c)" "al \<in> set (c_allocators c)" "combo \<in> set (product_lists (axis_values c))"
  shows "make_job (merge DEFAULTS (common_opts cfg)) (common_kwargs cfg) out_dir c wl al combo \<in> set (expand cfg out_dir)"
  using assms by (auto simp: expand_def expand_cell_def)

section \<open>Properties\<close>

text \<open>C26: \<open>expand\<close> is the whole grid: a cell gives one job for every workload, allocator and combination of its axis
  values, no more; every combination has a job that carries its workload, its allocator and every axis value under the
  axis's key, those of the workload's own axes among the workload's keyword arguments.\<close>

theorem expand_is_the_grid:
  assumes "c \<in> set (cells cfg)" "wl \<in> set (c_workloads c)" "al \<in> set (c_allocators c)" "combo \<in> set (product_lists (axis_values c))"
  shows "(\<exists>j \<in> set (expand cfg out_dir). map_of (opts j) ''workload'' = Some (VS wl) \<and> map_of (opts j) ''allocator'' = Some (VS al)
      \<and> (\<forall>(axis, v) \<in> set (zip (axis_names c) combo). case map_of AXES axis of
          None \<Rightarrow> False
        | Some (k, is_wkw) \<Rightarrow> if is_wkw then \<exists>w. workload_kwargs j = Some w \<and> map_of w k = Some v else map_of (opts j) k = Some v))
    \<and> length (expand cfg out_dir)
      = (\<Sum>c \<leftarrow> cells cfg. length (c_workloads c) * length (c_allocators c) * prod_list (map length (axis_values c)))"
proof -
  let ?j = "make_job (merge DEFAULTS (common_opts cfg)) (common_kwargs cfg) out_dir c wl al combo"
  have "case map_of AXES axis of None \<Rightarrow> False
      | Some (k, is_wkw) \<Rightarrow> if is_wkw then \<exists>w. workload_kwargs ?j = Some w \<and> map_of w k = Some v else map_of (opts ?j) k = Some v"
    if av: "(axis, v) \<in> set (zip (axis_names c) combo)" for axis v
  proof -
    obtain k w where "map_of AXES axis = Some (k, w)" using zip_axes(2) [of c combo] av by fastforce
    then show ?thesis using make_job_opts(3,4) [OF av] by (cases w) simp_all
  qed
  then have all: "\<forall>(axis, v) \<in> set (zip (axis_names c) combo). case map_of AXES axis of None \<Rightarrow> False
      | Some (k, is_wkw) \<Rightarrow> if is_wkw then \<exists>w. workload_kwargs ?j = Some w \<and> map_of w k = Some v else map_of (opts ?j) k = Some v"
    by blast
  have len: "length (expand cfg out_dir)
      = (\<Sum>c \<leftarrow> cells cfg. length (c_workloads c) * length (c_allocators c) * prod_list (map length (axis_values c)))"
    by (simp add: expand_def length_concat comp_def length_expand_cell)
  show ?thesis
    by (intro conjI bexI [OF _ in_expand [OF assms]]) (rule make_job_opts(1), rule make_job_opts(2), rule all, rule len)
qed

text \<open>C32: Jobs can overwrite each other's files: the name of a job does not depend on its device, sampling, window or pool
  size, so two jobs that differ only there write the same CSV file (the module's text says that every run has its own
  file).\<close>

theorem jobs_can_share_a_file:
  assumes "k \<in> {''dram'', ''sample_every'', ''sample_seqs'', ''window'', ''pool_blocks''}"
  shows "job_name sf (j\<lparr>opts := AList.update k v (opts j)\<rparr>) = job_name sf j"
proof -
  have "option_tag sf (j\<lparr>opts := AList.update k v (opts j)\<rparr>) t = option_tag sf j t" if "t \<in> set TAGS" for t
  proof -
    have "fst t \<noteq> k" using assms that by (auto simp: TAGS_def)
    then show ?thesis by (cases t) (simp add: option_tag_def)
  qed
  moreover have "mapE f xs = mapE g xs" if "\<And>x. x \<in> set xs \<Longrightarrow> f x = g x" for f g :: "string \<times> string \<Rightarrow> py_error + string" and xs
    using that by (induction xs) simp_all
  ultimately have tags: "mapE (option_tag sf (j\<lparr>opts := AList.update k v (opts j)\<rparr>)) TAGS = mapE (option_tag sf j) TAGS" by blast
  have "opt_of (j\<lparr>opts := AList.update k v (opts j)\<rparr>) k' = opt_of j k'" if "k' \<noteq> k" for k'
    using that by (simp add: opt_of_def lookupE_def)
  then show ?thesis unfolding job_name_def tags using assms by auto
qed

text \<open>C19: A sweep cell is a run: with the draft tree of the default width, depth and acceptance and an explicit block size,
  \<open>_run_cell\<close> on the job with the options of a command line does exactly what \<open>run.main\<close> does on that command line.\<close>

theorem sweep_cell_is_run:
  assumes "a_block_tokens a \<noteq> 0" "a_spec_width a = 4" "a_spec_depth a = 3" "a_spec_accept a = 4 / 5"
  shows "run_cell fuel R (job_of a) = run_main fuel R a"
  by (rule run_cell_job_of [OF assms])

section \<open>Witnesses\<close>

definition demo_cell :: cell where
  "demo_cell = \<lparr>c_workloads = [''steady'', ''fixedlen''], c_allocators = [''paged'', ''pim-aware'', ''contiguous''],
     c_axes = [(''seeds'', [VI 0, VI 1]), (''prompt_lens'', [VI 512, VI 2048]), (''block_tokens'', [VI 16])],
     c_opts = [(''requests'', VI 300)], c_kwargs = None\<rparr>"

definition demo_config :: config where
  "demo_config = \<lparr>common_opts = [(''max_batch'', VI 32)], common_kwargs = None, cells = [demo_cell]\<rparr>"

lemma expand_is_the_grid_witness:
  "(\<exists>j \<in> set (expand demo_config ''out''). map_of (opts j) ''allocator'' = Some (VS ''pim-aware'')
      \<and> (\<exists>w. workload_kwargs j = Some w \<and> map_of w ''prompt_len'' = Some (VI 2048)))
    \<and> length (expand demo_config ''out'') = 24"
proof -
  have names: "axis_names demo_cell = [''block_tokens'', ''seeds'', ''prompt_lens'']" by code_simp
  have "demo_cell \<in> set (cells demo_config)" "''fixedlen'' \<in> set (c_workloads demo_cell)" "''pim-aware'' \<in> set (c_allocators demo_cell)"
    by (simp_all add: demo_config_def demo_cell_def)
  moreover have "[VI 16, VI 1, VI 2048] \<in> set (product_lists (axis_values demo_cell))"
    unfolding axis_values_def names by (simp add: demo_cell_def)
  moreover have "map_of AXES ''prompt_lens'' = Some (''prompt_len'', True)" by code_simp
  moreover have "(\<Sum>c \<leftarrow> cells demo_config. length (c_workloads c) * length (c_allocators c) * prod_list (map length (axis_values c))) = 24"
    by code_simp
  ultimately show ?thesis
    using expand_is_the_grid [of demo_cell demo_config "''fixedlen''" "''pim-aware''" "[VI 16, VI 1, VI 2048]" "''out''"] names by fastforce
qed

lemma jobs_can_share_a_file_witness:
  "job_name (\<lambda>x. ''1.3'') ((job_of run_defaults)\<lparr>opts := AList.update ''dram'' (VS ''gddr6-pim'') (opts (job_of run_defaults))\<rparr>)
    = job_name (\<lambda>x. ''1.3'') (job_of run_defaults)"
  by (rule jobs_can_share_a_file) simp

lemma sweep_cell_is_run_witness: "run_cell 100 least_draws (job_of run_defaults) = run_main 100 least_draws run_defaults"
  by (rule sweep_cell_is_run) (simp_all add: run_defaults_def)

end
