(* ===== verification/Sweep_Main.thy ===== *)
theory Sweep_Main
  imports Sweep "HOL-Library.Product_Lexorder"
begin

text \<open>
  A whole sweep (\<open>_run_cell\<close> and \<open>main\<close> of \<open>pimkv/sweep.py\<close>): the row of every job and the summary, sorted. Reading the
  YAML file, the processes of the pool and the files are left out; \<open>pool.map\<close> keeps the order of the jobs.
\<close>

section \<open>The sweep\<close>

lemma mapE_map: "mapE f (map h xs) = mapE (\<lambda>x. f (h x)) xs"
  by (induction xs) simp_all

record cell_row =
  cr_workload :: string
  cr_allocator :: string
  cr_addrmap :: string
  cr_block_tokens :: int
  cr_seed :: int
  cr_options :: "(string \<times> val) list"
  cr_spec_adopt :: string
  cr_csv :: string
  cr_kwargs :: "(string, val) dict"
  cr_summary :: summary

definition row_options :: "string list" where
  "row_options = [''headroom'', ''kv_shards'', ''coalesce'', ''model'', ''pim_scratch'', ''admission'', ''pim_plan'', ''pim_compact'', ''max_batch'']"

definition cell_row_of :: "string \<Rightarrow> job \<Rightarrow> summary \<Rightarrow> py_error + cell_row" where
  "cell_row_of name j sm =
     bindE (str_opt j ''workload'') (\<lambda>wl. bindE (str_opt j ''allocator'') (\<lambda>al. bindE (str_opt j ''addrmap'') (\<lambda>am.
     bindE (int_opt j ''block_tokens'') (\<lambda>bt. bindE (int_opt j ''seed'') (\<lambda>seed. bindE (str_opt j ''spec_adopt'') (\<lambda>adopt.
     bindE (mapE (\<lambda>k. bindE (opt_of j k) (\<lambda>v. Inr (k, v))) row_options) (\<lambda>os.
     Inr \<lparr>cr_workload = wl, cr_allocator = al, cr_addrmap = am, cr_block_tokens = bt, cr_seed = seed, cr_options = os,
       cr_spec_adopt = (if wl = ''spec'' then resolve_adopt adopt al else ''n/a''), cr_csv = name,
       cr_kwargs = (case workload_kwargs j of None \<Rightarrow> [] | Some w \<Rightarrow> w), cr_summary = sm\<rparr>)))))))"

definition sweep_cell :: "(rat \<Rightarrow> string) \<Rightarrow> nat \<Rightarrow> 'g numpy \<Rightarrow> job \<Rightarrow> py_error + cell_row option" where
  "sweep_cell sf fuel R j =
     bindE (job_name sf j) (\<lambda>name. bindE (run_cell fuel R j) (\<lambda>res. case res of
       None \<Rightarrow> Inr None
     | Some sm \<Rightarrow> bindE (cell_row_of name j sm) (\<lambda>row. Inr (Some row))))"

fun all_some :: "'a option list \<Rightarrow> 'a list option" where
  "all_some [] = Some []"
| "all_some (x # xs) = (case x of None \<Rightarrow> None | Some y \<Rightarrow> map_option ((#) y) (all_some xs))"

definition row_key :: "cell_row \<Rightarrow> string \<times> string \<times> string \<times> int \<times> int" where
  "row_key r = (cr_workload r, cr_allocator r, cr_addrmap r, cr_block_tokens r, cr_seed r)"

text \<open>Sorting a frame without rows and columns raises.\<close>

definition sweep_main :: "(rat \<Rightarrow> string) \<Rightarrow> nat \<Rightarrow> 'g numpy \<Rightarrow> config \<Rightarrow> string \<Rightarrow> py_error + cell_row list option" where
  "sweep_main sf fuel R cfg out_dir =
     bindE (mapE (sweep_cell sf fuel R) (expand cfg out_dir)) (\<lambda>rs. case all_some rs of
       None \<Rightarrow> Inr None
     | Some rows \<Rightarrow> if rows = [] then Inl KeyError else Inr (Some (sort_key row_key rows)))"

section \<open>A run depends on the options only\<close>

definition run_options :: "string list" where
  "run_options = [''dram'', ''model'', ''kv_shards'', ''block_tokens'', ''addrmap'', ''workload'', ''requests'', ''seed'', ''pool_blocks'',
     ''max_batch'', ''headroom'', ''allocator'', ''pim_scratch'', ''pim_plan'', ''pim_compact'', ''spec_adopt'', ''sample_every'',
     ''sample_seqs'', ''window'', ''coalesce'', ''admission'']"

definition same_options :: "job \<Rightarrow> job \<Rightarrow> bool" where
  "same_options j j' \<longleftrightarrow> (\<forall>k \<in> set run_options. map_of (opts j) k = map_of (opts j') k) \<and> workload_kwargs j = workload_kwargs j'"

lemma same_opt:
  assumes "same_options j j'" and "k \<in> set run_options"
  shows "opt_of j k = opt_of j' k" "str_opt j k = str_opt j' k" "int_opt j k = int_opt j' k" "num_opt j k = num_opt j' k"
  using assms by (simp_all add: same_options_def opt_of_def lookupE_def str_opt_def int_opt_def num_opt_def)

lemma run_cell_same:
  assumes "same_options j j'"
  shows "run_cell fuel R j = run_cell fuel R j'"
proof -
  have kw: "workload_kwargs j = workload_kwargs j'" using assms by (simp add: same_options_def)
  have strs: "str_opt j ''dram'' = str_opt j' ''dram''" "str_opt j ''model'' = str_opt j' ''model''"
    "str_opt j ''addrmap'' = str_opt j' ''addrmap''" "str_opt j ''workload'' = str_opt j' ''workload''"
    "str_opt j ''allocator'' = str_opt j' ''allocator''" "str_opt j ''pim_scratch'' = str_opt j' ''pim_scratch''"
    "str_opt j ''pim_plan'' = str_opt j' ''pim_plan''" "str_opt j ''spec_adopt'' = str_opt j' ''spec_adopt''"
    "str_opt j ''coalesce'' = str_opt j' ''coalesce''" "str_opt j ''admission'' = str_opt j' ''admission''"
    by (rule same_opt(2) [OF assms], simp add: run_options_def)+
  have ints: "int_opt j ''kv_shards'' = int_opt j' ''kv_shards''" "int_opt j ''block_tokens'' = int_opt j' ''block_tokens''"
    "int_opt j ''requests'' = int_opt j' ''requests''" "int_opt j ''seed'' = int_opt j' ''seed''"
    "int_opt j ''pool_blocks'' = int_opt j' ''pool_blocks''" "int_opt j ''max_batch'' = int_opt j' ''max_batch''"
    "int_opt j ''sample_every'' = int_opt j' ''sample_every''" "int_opt j ''sample_seqs'' = int_opt j' ''sample_seqs''"
    "int_opt j ''window'' = int_opt j' ''window''" "num_opt j ''headroom'' = num_opt j' ''headroom''"
    "num_opt j ''pim_compact'' = num_opt j' ''pim_compact''"
    by (rule same_opt(3,4) [OF assms], simp add: run_options_def)+
  show ?thesis unfolding run_cell_def kw strs ints ..
qed

section \<open>Sweeps over workloads, allocators and seeds\<close>

definition plain_sweep :: "string list \<Rightarrow> string list \<Rightarrow> int list \<Rightarrow> config" where
  "plain_sweep wls als seeds = \<lparr>common_opts = [], common_kwargs = None, cells = [\<lparr>c_workloads = wls, c_allocators = als,
     c_axes = [(''seeds'', map VI seeds)], c_opts = [], c_kwargs = None\<rparr>]\<rparr>"

definition plain_job :: "string \<Rightarrow> string \<times> string \<times> int \<Rightarrow> job" where
  "plain_job out_dir = (\<lambda>(wl, al, seed). \<lparr>opts = AList.update ''seed'' (VI seed) (setdefault ''seed'' (VI 0) (setdefault ''block_tokens'' (VI 16)
     (AList.update ''out_dir'' (VS out_dir) (AList.update ''allocator'' (VS al) (AList.update ''workload'' (VS wl) DEFAULTS))))),
     workload_kwargs = None\<rparr>)"

definition plain_run :: "string \<times> string \<times> int \<Rightarrow> run_args" where
  "plain_run = (\<lambda>(wl, al, seed). run_defaults\<lparr>a_workload := wl, a_allocator := al, a_addrmap := ''host-cacheline'',
     a_requests := 1000, a_seed := seed\<rparr>)"

lemma expand_plain:
  "expand (plain_sweep wls als seeds) out_dir = map (plain_job out_dir) (List.product wls (List.product als seeds))"
proof -
  let ?c = "\<lparr>c_workloads = wls, c_allocators = als, c_axes = [(''seeds'', map VI seeds)], c_opts = [], c_kwargs = None\<rparr>"
  have names: "axis_names ?c = [''seeds'']" by (simp add: axis_names_def AXES_def)
  then have axes: "product_lists (axis_values ?c) = map (\<lambda>s. [VI s]) seeds"
    by (simp add: axis_values_def comp_def concat_map_singleton)
  have job: "make_job DEFAULTS None out_dir ?c wl al [VI s] = plain_job out_dir (wl, al, s)" for wl al s
    unfolding make_job_def names by (simp add: plain_job_def merge_def apply_axis_def AXES_def Let_def)
  have "expand_cell DEFAULTS None out_dir ?c
      = concat (map (\<lambda>wl. concat (map (\<lambda>al. map (\<lambda>s. plain_job out_dir (wl, al, s)) seeds) als)) wls)"
    by (simp add: expand_cell_def axes comp_def job)
  also have "\<dots> = map (plain_job out_dir) (List.product wls (List.product als seeds))"
    by (simp add: List.product_concat_map map_concat comp_def)
  finally show ?thesis by (simp add: expand_def plain_sweep_def merge_def)
qed

lemma plain_job_opts:
  assumes "k \<noteq> ''seed''" "k \<noteq> ''workload''" "k \<noteq> ''allocator''" "k \<noteq> ''out_dir''" "k \<noteq> ''block_tokens''"
  shows "map_of (opts (plain_job out_dir t)) k = map_of DEFAULTS k"
  using assms by (cases t) (simp add: plain_job_def)

lemma plain_job_set:
  "map_of (opts (plain_job out_dir (wl, al, seed))) ''seed'' = Some (VI seed)"
  "map_of (opts (plain_job out_dir (wl, al, seed))) ''workload'' = Some (VS wl)"
  "map_of (opts (plain_job out_dir (wl, al, seed))) ''allocator'' = Some (VS al)"
  "map_of (opts (plain_job out_dir (wl, al, seed))) ''block_tokens'' = Some (VI 16)"
  by (simp_all add: plain_job_def) (simp add: setdefault_def DEFAULTS_def)

lemma plain_same: "same_options (plain_job out_dir t) (job_of (plain_run t))"
proof -
  obtain wl al seed where t: "t = (wl, al, seed)" by (cases t)
  have kw: "workload_kwargs (plain_job out_dir t) = workload_kwargs (job_of (plain_run t))" by (simp add: t plain_job_def job_of_def)
  have "map_of (opts (plain_job out_dir (wl, al, seed))) k = map_of (opts (job_of (plain_run (wl, al, seed)))) k"
    if "k \<in> set run_options" for k
    using that plain_job_set [of out_dir wl al seed] plain_job_opts [of k out_dir "(wl, al, seed)"]
    unfolding run_options_def list.set insert_iff empty_iff
    by (elim disjE) (simp_all add: DEFAULTS_def job_of_def plain_run_def run_defaults_def)
  then show ?thesis using kw by (simp add: same_options_def t)
qed

lemma plain_name: "\<exists>name. job_name sf (plain_job out_dir t) = Inr name"
proof -
  obtain wl al seed where t: "t = (wl, al, seed)" by (cases t)
  have "\<exists>tag. option_tag sf (plain_job out_dir t) x = Inr tag" if "x \<in> set TAGS" for x
  proof -
    have "fst x \<notin> {''seed'', ''workload'', ''allocator'', ''out_dir'', ''block_tokens''} \<and> map_of DEFAULTS (fst x) \<noteq> None"
      using that unfolding TAGS_def list.set insert_iff empty_iff by (elim disjE) (simp_all add: DEFAULTS_def)
    then show ?thesis using plain_job_opts [of "fst x" out_dir t] by (auto simp: option_tag_def split: prod.split)
  qed
  then have "\<exists>tags. mapE (option_tag sf (plain_job out_dir t)) xs = Inr tags" if "set xs \<subseteq> set TAGS" for xs
    using that by (induction xs) fastforce+
  then obtain tags where "mapE (option_tag sf (plain_job out_dir t)) TAGS = Inr tags" by blast
  moreover have "map_of (opts (plain_job out_dir t)) ''addrmap'' = Some (VS ''host-cacheline'')"
    by (simp add: plain_job_opts) (simp add: DEFAULTS_def)
  ultimately show ?thesis using plain_job_set [of out_dir wl al seed] by (simp add: job_name_def t opt_of_def lookupE_def Let_def)
qed

definition plain_triple :: "cell_row \<Rightarrow> string \<times> string \<times> int" where
  "plain_triple r = (cr_workload r, cr_allocator r, cr_seed r)"

lemma plain_cell_ok:
  assumes R: "numpy_ok R" and fuel: "4098002 \<le> fuel" and t: "fst t \<in> {''steady'', ''fixedlen''}" "fst (snd t) \<in> {''paged'', ''random'', ''pim-aware''}"
  shows "\<exists>r. sweep_cell sf fuel R (plain_job out_dir t) = Inr (Some r) \<and> plain_triple r = t
    \<and> cr_addrmap r = ''host-cacheline'' \<and> cr_block_tokens r = 16 \<and> served_all 1000 (cr_summary r) \<and> means_ok 16 (cr_summary r)"
proof -
  obtain wl al seed where wl: "t = (wl, al, seed)" by (cases t)
  have a: "default_like (plain_run t)" "a_requests (plain_run t) = 1000"
    using t by (auto simp: default_like_def plain_run_def run_defaults_def SCHEMES_def wl)
  obtain sm where sm: "run_main fuel R (plain_run t) = Inr (Some sm)" "served_all 1000 sm" "means_ok 16 sm"
    using run_default_ok [OF R a(1), of fuel] fuel a(2) by auto
  have "run_cell fuel R (job_of (plain_run t)) = run_main fuel R (plain_run t)"
    by (rule run_cell_job_of) (simp_all add: wl plain_run_def run_defaults_def)
  then have run: "run_cell fuel R (plain_job out_dir t) = Inr (Some sm)" using run_cell_same [OF plain_same, of fuel R out_dir t] sm(1) by simp
  have "\<exists>v. opt_of (plain_job out_dir t) k = Inr v" if "k \<in> set row_options" for k
  proof -
    have "k \<noteq> ''seed'' \<and> k \<noteq> ''workload'' \<and> k \<noteq> ''allocator'' \<and> k \<noteq> ''out_dir'' \<and> k \<noteq> ''block_tokens'' \<and> map_of DEFAULTS k \<noteq> None"
      using that unfolding row_options_def list.set insert_iff empty_iff by (elim disjE) (simp_all add: DEFAULTS_def)
    then show ?thesis using plain_job_opts [of k out_dir t] by (auto simp: opt_of_def lookupE_def)
  qed
  then have "\<exists>os. mapE (\<lambda>k. bindE (opt_of (plain_job out_dir t) k) (\<lambda>v. Inr (k, v))) ks = Inr os" if "set ks \<subseteq> set row_options" for ks
    using that by (induction ks) fastforce+
  then obtain os where os: "mapE (\<lambda>k. bindE (opt_of (plain_job out_dir t) k) (\<lambda>v. Inr (k, v))) row_options = Inr os" by blast
  have "map_of (opts (plain_job out_dir t)) ''addrmap'' = Some (VS ''host-cacheline'')"
    "map_of (opts (plain_job out_dir t)) ''spec_adopt'' = Some (VS ''auto'')"
    by (simp_all add: plain_job_opts) (simp_all add: DEFAULTS_def)
  then have "\<exists>r. cell_row_of name (plain_job out_dir t) sm = Inr r \<and> plain_triple r = t \<and> cr_addrmap r = ''host-cacheline''
      \<and> cr_block_tokens r = 16 \<and> cr_summary r = sm" for name
    using plain_job_set [of out_dir wl al seed] os
    by (simp add: cell_row_of_def str_opt_def int_opt_def opt_of_def lookupE_def wl plain_triple_def)
  moreover obtain name where name: "job_name sf (plain_job out_dir t) = Inr name" using plain_name by blast
  ultimately obtain r where "cell_row_of name (plain_job out_dir t) sm = Inr r" "plain_triple r = t" "cr_addrmap r = ''host-cacheline''"
      "cr_block_tokens r = 16" "cr_summary r = sm" by blast
  then show ?thesis using run sm(2,3) name by (simp add: sweep_cell_def)
qed

lemma all_some_map: "all_some (map (\<lambda>x. Some (g x)) xs) = Some (map g xs)"
  by (induction xs) simp_all

section \<open>Properties\<close>



end
