(* ===== verification/Kv_Split.thy ===== *)
theory Kv_Split
  imports Validation
begin

text \<open>
  The layout experiment (\<open>scripts/kv_split.py\<close>): the headline configuration with one tensor for keys and values, and
  with two, where each tensor holds half the bytes of a token.
\<close>

section \<open>The experiment\<close>

text \<open>Name, description and KV heads of a layout.\<close>

definition LAYOUTS :: "(string \<times> string \<times> int) list" where
  "LAYOUTS = [(''combined K+V'', ''one tensor, 4 KB/token'', 8), (''split K | V'', ''per tensor, 2 KB/token'', 4)]"

record split_row =
  sr_layout :: string
  sr_detail :: string
  sr_allocator :: string
  sr_bytes_per_token :: int
  sr_block_kib :: int
  sr_blocks_per_region :: int
  sr_m1_mean :: "real option"
  sr_m2_mean :: "real option"
  sr_m3_gbps_mean :: "real option"
  sr_frame_spread_mean :: "real option"

definition split_run ::
  "nat \<Rightarrow> 'g numpy \<Rightarrow> nat \<Rightarrow> int \<Rightarrow> int \<Rightarrow> addr_map \<Rightarrow> (string \<times> string \<times> int) \<times> string \<Rightarrow> py_error + split_row list option" where
  "split_run fuel R requests seed bt am = (\<lambda>((layout, detail, heads), al).
     let shape = \<lparr>shape_name = layout, kv_heads = heads, head_dim = 128, dtype_bytes = 2\<rparr>;
         rs = steady R steady_defaults requests seed in
     bindE (frame_blocks_for HBM3_PIM shape bt) (\<lambda>fb.
     bindE (auto_pool_blocks rs bt 64 (13 / 10)) (\<lambda>pool_size.
     bindE (bindE (make_allocator al (nat pool_size) (default_rng R seed) (if al = ''pim-aware'' then fb else 1)
         ''separate'' ''bestfit'' 0) (\<lambda>made.
       simulate_any fuel R rs made HBM3_PIM shape am
         \<lparr>k_block_tokens = bt, k_max_batch = 64, k_sample_every = 16, k_sample_seqs = 8, k_window = 64, k_mode = ''window'',
          k_frame_blocks = fb, k_spec = None, k_admission = ''oracle''\<rparr> seed)) (\<lambda>res.
     Inr (map_option (\<lambda>sm. [\<lparr>sr_layout = layout, sr_detail = detail, sr_allocator = al,
       sr_bytes_per_token = kv_bytes_per_token shape, sr_block_kib = bt * kv_bytes_per_token shape div 1024,
       sr_blocks_per_region = fb, sr_m1_mean = sm_m1_mean sm, sr_m2_mean = sm_m2_mean sm,
       sr_m3_gbps_mean = sm_m3_gbps_mean sm, sr_frame_spread_mean = sm_frame_spread_mean sm\<rparr>]) res)))))"

definition kv_split_main :: "nat \<Rightarrow> 'g numpy \<Rightarrow> nat \<Rightarrow> int \<Rightarrow> int \<Rightarrow> py_error + split_row list option" where
  "kv_split_main fuel R requests seed bt =
     bindE (AddrMap HBM3_PIM ''host-cacheline'') (\<lambda>am.
     gather (split_run fuel R requests seed bt am) (List.product LAYOUTS [''paged'', ''pim-aware'']))"

section \<open>All four runs return\<close>

text \<open>What a row says, beside its means.\<close>

definition row_facts :: "split_row \<Rightarrow> string \<times> string \<times> int \<times> int \<times> int" where
  "row_facts r = (sr_layout r, sr_allocator r, sr_bytes_per_token r, sr_block_kib r, sr_blocks_per_region r)"

definition row_means_ok :: "split_row \<Rightarrow> bool" where
  "row_means_ok r \<longleftrightarrow> (case sr_m1_mean r of None \<Rightarrow> True | Some x \<Rightarrow> 0 \<le> x \<and> x \<le> 1)
     \<and> (case sr_m2_mean r of None \<Rightarrow> True | Some x \<Rightarrow> 1 / 16 \<le> x \<and> x \<le> 1)"

lemma split_run_ok:
  assumes R: "numpy_ok R" and n: "0 < n" and fuel: "4098 * n + 2 \<le> fuel"
    and am: "AddrMap HBM3_PIM ''host-cacheline'' = Inr am"
    and fb: "frame_blocks_for HBM3_PIM \<lparr>shape_name = layout, kv_heads = heads, head_dim = 128, dtype_bytes = 2\<rparr> 16 = Inr fb"
      "0 < fb" "fb \<le> 1024"
    and heads: "heads = 8 \<or> heads = 4" and al: "al \<in> {''paged'', ''pim-aware''}"
  shows "\<exists>r. split_run fuel R n seed 16 am ((layout, detail, heads), al) = Inr (Some [r])
    \<and> row_facts r = (layout, al, 512 * heads, 8 * heads, fb) \<and> row_means_ok r"
proof -
  let ?shape = "\<lparr>shape_name = layout, kv_heads = heads, head_dim = 128, dtype_bytes = 2\<rparr>" and ?rs = "steady R steady_defaults n seed"
  let ?k = "\<lparr>k_block_tokens = 16, k_max_batch = 64, k_sample_every = 16, k_sample_seqs = 8, k_window = 64, k_mode = ''window'',
          k_frame_blocks = fb, k_spec = None, k_admission = ''oracle''\<rparr>"
  obtain gen where gen: "lookupE ''steady'' (WORKLOADS R) = Inr gen" "\<And>n seed. small_stream n (gen n seed)"
    by (rule default_stream [OF R, of "''steady''"]) auto
  have "gen = steady R steady_defaults" using gen(1) by (simp add: lookupE_def WORKLOADS_def)
  then have small: "small_stream n ?rs" using gen(2) by simp
  then have rs: "length ?rs = n" "distinct (map rid ?rs)" "\<forall>r \<in> set ?rs. request_ok r" by (simp_all add: small_stream_def)
  obtain size where size: "auto_pool_blocks ?rs 16 64 (13 / 10) = Inr size" "64 \<le> size" "size \<le> 53331" by (rule default_pool [OF small n])
  have kvb: "kv_bytes_per_token ?shape = 512 * heads" by (simp add: kv_bytes_per_token_def)
  have shape: "plain_shape ?shape" using heads by (auto simp: plain_shape_def kvb)
  have k: "plain_kwargs ?k" by (simp add: plain_kwargs_def)
  have few: "loop_fuel ?rs \<le> fuel" using small_stream_fuel [OF small] fuel by simp
  obtain sm where sm: "bindE (make_allocator al (nat size) (default_rng R seed) (if al = ''pim-aware'' then fb else 1)
         ''separate'' ''bestfit'' 0) (\<lambda>made. simulate_any fuel R ?rs made HBM3_PIM ?shape am ?k seed) = Inr (Some sm)" "means_ok 16 sm"
    using simulated_default [OF R shape am k rs(2,3) few _ size(2,3) fb(2,3), of al "''bestfit''"] al by blast
  show ?thesis
    using sm(2) by (auto simp: split_run_def Let_def fb(1) size(1) sm(1) kvb row_facts_def row_means_ok_def means_ok_def split: option.split)
qed

lemma split_frames:
  "frame_blocks_for HBM3_PIM \<lparr>shape_name = layout, kv_heads = 8, head_dim = 128, dtype_bytes = 2\<rparr> 16 = Inr 8"
  "frame_blocks_for HBM3_PIM \<lparr>shape_name = layout, kv_heads = 4, head_dim = 128, dtype_bytes = 2\<rparr> 16 = Inr 16"
  by (simp_all add: frame_blocks_for_def frame_bytes_def kv_bytes_per_token_def rowgroup_bytes_def banks_per_channel_def HBM3_PIM_def Let_def)

section \<open>Properties\<close>

text \<open>C23: The layout experiment always comes to an end with its four rows, in order: for any seed and number of requests,
  and whatever numpy draws within its documented ranges, the combined tensor has 4096 bytes per token, 64 KiB blocks and 8
  blocks per region and each split tensor 2048 bytes, 32 KiB and 16 blocks, as the script's text says, and the mean row-hit
  rate and bank parallelism of every row are in range.\<close>

theorem kv_split_rows:
  assumes "numpy_ok R" and "0 < n" and "4098 * n + 2 \<le> fuel"
  shows "\<exists>rows. kv_split_main fuel R n seed 16 = Inr (Some rows)
    \<and> map row_facts rows =
       [(''combined K+V'', ''paged'', 4096, 64, 8), (''combined K+V'', ''pim-aware'', 4096, 64, 8),
        (''split K | V'', ''paged'', 2048, 32, 16), (''split K | V'', ''pim-aware'', 2048, 32, 16)]
    \<and> (\<forall>r \<in> set rows. row_means_ok r)"
proof -
  have "''host-cacheline'' \<in> set SCHEMES" by (simp add: SCHEMES_def)
  then obtain am where am: "AddrMap HBM3_PIM ''host-cacheline'' = Inr am" using AddrMap_ok [OF hbm3_facts(1)] by blast
  let ?run = "split_run fuel R n seed 16 am"
  have one: "\<exists>r. ?run ((''combined K+V'', ''one tensor, 4 KB/token'', 8), al) = Inr (Some [r])
      \<and> row_facts r = (''combined K+V'', al, 4096, 64, 8) \<and> row_means_ok r" if "al \<in> {''paged'', ''pim-aware''}" for al
    using split_run_ok [where detail = "''one tensor, 4 KB/token''" and seed = seed, OF assms am split_frames(1) _ _ _ that] by simp
  have two: "\<exists>r. ?run ((''split K | V'', ''per tensor, 2 KB/token'', 4), al) = Inr (Some [r])
      \<and> row_facts r = (''split K | V'', al, 2048, 32, 16) \<and> row_means_ok r" if "al \<in> {''paged'', ''pim-aware''}" for al
    using split_run_ok [where detail = "''per tensor, 2 KB/token''" and seed = seed, OF assms am split_frames(2) _ _ _ that] by simp
  obtain r1 where r1: "?run ((''combined K+V'', ''one tensor, 4 KB/token'', 8), ''paged'') = Inr (Some [r1])"
      "row_facts r1 = (''combined K+V'', ''paged'', 4096, 64, 8)" "row_means_ok r1" using one [of "''paged''"] by blast
  obtain r2 where r2: "?run ((''combined K+V'', ''one tensor, 4 KB/token'', 8), ''pim-aware'') = Inr (Some [r2])"
      "row_facts r2 = (''combined K+V'', ''pim-aware'', 4096, 64, 8)" "row_means_ok r2" using one [of "''pim-aware''"] by blast
  obtain r3 where r3: "?run ((''split K | V'', ''per tensor, 2 KB/token'', 4), ''paged'') = Inr (Some [r3])"
      "row_facts r3 = (''split K | V'', ''paged'', 2048, 32, 16)" "row_means_ok r3" using two [of "''paged''"] by blast
  obtain r4 where r4: "?run ((''split K | V'', ''per tensor, 2 KB/token'', 4), ''pim-aware'') = Inr (Some [r4])"
      "row_facts r4 = (''split K | V'', ''pim-aware'', 2048, 32, 16)" "row_means_ok r4" using two [of "''pim-aware''"] by blast
  have "kv_split_main fuel R n seed 16 = Inr (Some [r1, r2, r3, r4])"
    by (simp add: kv_split_main_def am LAYOUTS_def r1(1) r2(1) r3(1) r4(1))
  then show ?thesis using r1(2,3) r2(2,3) r3(2,3) r4(2,3) by simp
qed

lemma kv_split_rows_witness:
  "\<exists>rows. kv_split_main 4098002 least_draws 1000 0 16 = Inr (Some rows) \<and> length rows = 4"
proof -
  obtain rows where "kv_split_main 4098002 least_draws 1000 0 16 = Inr (Some rows)" "length (map row_facts rows) = 4"
    using kv_split_rows [OF least_draws_ok, of 1000 4098002 0] by auto
  then show ?thesis by auto
qed

end
