(* ===== verification/Bench.thy ===== *)
theory Bench
  imports Run
begin

text \<open>
  The two measurements of \<open>scripts/bench_alloc.py\<close>. In situ (\<open>run_in_situ\<close>): a simulator run without samples. Worst
  case (\<open>run_worst_case\<close>): fill the pool with one-block sequences, free all blocks of every region but the last, and time
  appends and admissions on what is left. The clock is left out; what remains is the run, the sequence of allocator
  calls, the assertions and the counts of the rows.
\<close>

section \<open>In situ\<close>

record insitu_row =
  ir_allocator :: string
  ir_workload :: string
  ir_admission :: string
  ir_headroom :: real
  ir_pool_blocks :: int
  ir_decode_steps :: int
  ir_blocks_allocated :: int
  ir_preemptions :: int

text \<open>The timing proxy forwards every call to the allocator. The row divides the time spent by the number of steps.\<close>

definition insitu_row_of :: "string \<Rightarrow> string \<Rightarrow> string \<Rightarrow> real \<Rightarrow> summary \<Rightarrow> py_error + insitu_row" where
  "insitu_row_of name workload adm headroom sm =
     (if sm_decode_steps sm = 0 then Inl ZeroDivisionError
      else Inr \<lparr>ir_allocator = name, ir_workload = workload, ir_admission = adm, ir_headroom = headroom,
        ir_pool_blocks = sm_pool_blocks sm, ir_decode_steps = sm_decode_steps sm,
        ir_blocks_allocated = sm_blocks_allocated_total sm, ir_preemptions = sm_preemptions sm\<rparr>)"

definition row_of_run :: "(summary \<Rightarrow> py_error + 'r) \<Rightarrow> summary option \<Rightarrow> py_error + 'r option" where
  "row_of_run f res = (case res of None \<Rightarrow> Inr None | Some sm \<Rightarrow> bindE (f sm) (\<lambda>r. Inr (Some r)))"

definition run_in_situ ::
  "nat \<Rightarrow> 'g numpy \<Rightarrow> string \<Rightarrow> string \<Rightarrow> string \<Rightarrow> real \<Rightarrow> nat \<Rightarrow> int \<Rightarrow> int \<Rightarrow> py_error + insitu_row option" where
  "run_in_situ fuel R name workload adm headroom requests seed bt =
     bindE (AddrMap HBM3_PIM ''host-cacheline'') (\<lambda>am.
     bindE (lookupE workload (WORKLOADS R)) (\<lambda>gen.
     let rs = gen requests seed in
     bindE (auto_pool_blocks rs bt 64 headroom) (\<lambda>pool_size.
     bindE (frame_blocks_for HBM3_PIM LLAMA_GQA_8KV bt) (\<lambda>fb.
     bindE (make_allocator name (nat pool_size) (default_rng R seed) (if name = ''pim-aware'' then fb else 1)
        ''separate'' ''bestfit'' 0) (\<lambda>made.
     bindE (simulate_any fuel R rs made HBM3_PIM LLAMA_GQA_8KV am
       \<lparr>k_block_tokens = bt, k_max_batch = 64, k_sample_every = 10 ^ 9, k_sample_seqs = 1, k_window = 64, k_mode = ''window'',
        k_frame_blocks = fb,
        k_spec = (if workload = ''spec''
          then Some \<lparr>sp_width = 4, sp_depth = 3, sp_accept = 4 / 5,
            sp_adopt = (if name = ''pim-aware'' then ''copyback'' else ''splice'')\<rparr> else None),
        k_admission = adm\<rparr> seed)
       (row_of_run (insitu_row_of name workload adm headroom)))))))"

text \<open>C24: The in-situ benchmark measures the runs that are reported: at the headroom of \<open>run.py\<close>, its row holds the pool,
  steps, allocations and preemptions of the summary that \<open>run.main\<close> computes for the same workload, allocator and
  admission mode with sampling turned off; it raises what that run raises, or a division by zero when no step was made.\<close>

theorem in_situ_is_run:
  assumes "bt \<noteq> 0"
  shows "run_in_situ fuel R name workload adm (13 / 10) requests seed bt =
    bindE (run_main fuel R (run_defaults\<lparr>a_workload := workload, a_allocator := name, a_addrmap := ''host-cacheline'',
        a_block_tokens := bt, a_requests := requests, a_seed := seed, a_sample_every := 10 ^ 9, a_sample_seqs := 1,
        a_admission := adm\<rparr>))
      (row_of_run (insitu_row_of name workload adm (13 / 10)))"
proof -
  have "lookupE ''hbm3-pim'' DRAM_PRESETS = Inr HBM3_PIM" "lookupE ''llama-gqa-8kv'' MODEL_PRESETS = Inr LLAMA_GQA_8KV"
    by (simp_all add: lookupE_def DRAM_PRESETS_def MODEL_PRESETS_def)
  then show ?thesis
    using assms by (simp add: run_in_situ_def run_main_def run_defaults_def shard_kv_def resolve_adopt_def Let_def bindE_assoc)
qed

section \<open>The measurement\<close>

record bench_row =
  br_pool_blocks :: int
  br_regions :: int
  br_calls :: int

text \<open>\<open>for sid in range(n): owner[alloc.admit(sid, 1, 1)[0]] = sid\<close>.\<close>

definition fill_one :: "'p allocator \<Rightarrow> nat \<Rightarrow> (nat, int) dict \<Rightarrow> ('p kv, (nat, int) dict) prog" where
  "fill_one A i owner = bindS (m_admit A (int i) 1 1) (\<lambda>bs.
     if bs = [] then raise IndexError else ret (AList.update (hd bs) (int i) owner))"

definition fill_pool :: "'p allocator \<Rightarrow> nat \<Rightarrow> ('p kv, (nat, int) dict) prog" where
  "fill_pool A n = foldS (fill_one A) [0..<n] []"

definition release_owner :: "'p allocator \<Rightarrow> (nat, int) dict \<Rightarrow> nat \<Rightarrow> ('p kv, unit) prog" where
  "release_owner A owner b = (case map_of owner b of None \<Rightarrow> raise KeyError | Some sid \<Rightarrow> m_release A sid)"

definition punch_holes :: "'p allocator \<Rightarrow> nat \<Rightarrow> nat \<Rightarrow> (nat, int) dict \<Rightarrow> ('p kv, unit) prog" where
  "punch_holes A fb n owner =
     eachS (\<lambda>r. eachS (\<lambda>off. release_owner A owner (r * fb + off)) [0..<fb - 1]) [0..<n div fb]"

definition timed_calls :: "'p allocator \<Rightarrow> nat \<Rightarrow> int \<Rightarrow> ('p kv, unit) prog" where
  "timed_calls A n reps =
     (let grower = int n + 10 ^ 6 in
      bindS (m_admit A grower 1 1) (\<lambda>_.
      bindS (repeatS reps (m_append A grower)) (\<lambda>_.
      eachS (\<lambda>sid. bindS (m_admit A sid 1 1) (\<lambda>_. ret ())) [int n + 1..int n + reps div 10])))"

text \<open>\<open>count_empty\<close> is the number of empty regions that the assertion on a \<open>pim-aware\<close> pool counts. The row divides by
  the number of appends and of admissions.\<close>

definition worst_case :: "'p allocator \<Rightarrow> ('p \<Rightarrow> nat) \<Rightarrow> bool \<Rightarrow> nat \<Rightarrow> int \<Rightarrow> ('p kv, bench_row) prog" where
  "worst_case A count_empty pim_aware fb reps =
     bindS (getS num_blocks) (\<lambda>n.
     bindS (fill_pool A n) (\<lambda>owner.
     if fb = 0 then raise ZeroDivisionError else
     thenS (punch_holes A fb n owner)
     (thenS (assertS (\<lambda>s. count_empty (policy s) = 0) AssertionError)
     (thenS (assertS (\<lambda>s. m_free A s \<ge> reps) AssertionError)
     (thenS (timed_calls A n reps)
     (if reps = 0 \<or> reps div 10 = 0 then raise ZeroDivisionError
      else ret \<lparr>br_pool_blocks = int n, br_regions = (if pim_aware then int (n div fb) else int n), br_calls = reps\<rparr>))))))"

definition run_worst_case :: "string \<Rightarrow> nat \<Rightarrow> nat \<Rightarrow> int \<Rightarrow> 'g numpy \<Rightarrow> int \<Rightarrow> py_error + bench_row" where
  "run_worst_case name pool_blocks fb reps R seed =
     bindE (make_allocator name pool_blocks (default_rng R seed) (if name = ''pim-aware'' then int fb else 1)
       ''separate'' ''bestfit'' 0) (\<lambda>made. case made of
         PagedPool p \<Rightarrow> outcome (worst_case paged_allocator (\<lambda>_. 0) False fb reps) p
       | RandomPool p \<Rightarrow> outcome (worst_case (random_allocator (\<lambda>g n. np_below R g (int n))) (\<lambda>_. 0) False fb reps) p
       | ContigPool p \<Rightarrow> outcome (worst_case contiguous_allocator (\<lambda>_. 0) False fb reps) p
       | PimPool p \<Rightarrow> outcome (worst_case pim_allocator (\<lambda>q. length (empties q)) True fb reps) p)"

section \<open>What the measurement needs of an allocator\<close>

locale bench_pool =
  fixes A :: "'p allocator" and Inv :: "'p kv \<Rightarrow> bool" and count_empty :: "'p \<Rightarrow> nat" and fb :: nat
  assumes admit_one: "Inv s \<Longrightarrow> map_of (tables s) sid = None \<Longrightarrow> (case m_admit A sid 1 1 s of
      (Inl e, s') \<Rightarrow> e = AdmissionFailure \<and> m_free A s < 1
    | (Inr bs, s') \<Rightarrow> (\<exists>b. bs = [b] \<and> b < num_blocks s \<and> b \<notin># table_refs s
        \<and> tables s' = AList.update sid [b] (tables s)) \<and> num_blocks s' = num_blocks s
        \<and> m_free A s' = m_free A s - 1 \<and> Inv s')"
    and append_one: "Inv s \<Longrightarrow> map_of (tables s) sid = Some t \<Longrightarrow> (case m_append A sid s of
      (Inl e, s') \<Rightarrow> e = AdmissionFailure \<and> m_free A s < 1
    | (Inr b, s') \<Rightarrow> tables s' = AList.update sid (t @ [b]) (tables s) \<and> num_blocks s' = num_blocks s
        \<and> m_free A s' = m_free A s - 1 \<and> Inv s')"
    and release_one: "Inv s \<Longrightarrow> map_of (tables s) sid = Some t \<Longrightarrow>
      \<exists>s'. m_release A sid s = (Inr (), s') \<and> tables s' = AList.delete sid (tables s) \<and> num_blocks s' = num_blocks s \<and> Inv s'"
    and free_exact: "Inv s \<Longrightarrow> 0 \<le> m_free A s \<and> m_free A s = int (num_blocks s) - int (card (set_mset (table_refs s))) \<and> dict_ok (tables s)"
    and none_empty: "Inv s \<Longrightarrow> (\<And>r. r < num_blocks s div fb \<Longrightarrow> \<exists>b. b \<in># table_refs s \<and> b div fb = r) \<Longrightarrow> count_empty (policy s) = 0"
begin

text \<open>Every live sequence \<open>i\<close> holds exactly the block \<open>f i\<close>.\<close>

definition singles :: "nat \<Rightarrow> int set \<Rightarrow> (int \<Rightarrow> nat) \<Rightarrow> 'p kv \<Rightarrow> bool" where
  "singles n L f s \<longleftrightarrow> Inv s \<and> num_blocks s = n \<and> finite L \<and> inj_on f L \<and> f ` L \<subseteq> {..<n}
     \<and> (\<forall>i. map_of (tables s) i = (if i \<in> L then Some [f i] else None))"

definition owned :: "int set \<Rightarrow> (int \<Rightarrow> nat) \<Rightarrow> (nat, int) dict \<Rightarrow> bool" where
  "owned L f owner \<longleftrightarrow> (\<forall>i \<in> L. map_of owner (f i) = Some i)"

lemma singles_refs:
  assumes "singles n L f s"
  shows "set_mset (table_refs s) = f ` L" "m_free A s = int n - int (card L)"
proof -
  have inv: "Inv s" using assms by (simp add: singles_def)
  have dict: "dict_ok (tables s)" using free_exact [OF inv] by simp
  have "b \<in># table_refs s \<longleftrightarrow> (\<exists>i t. map_of (tables s) i = Some t \<and> b \<in> set t)" for b
    using in_table_refs [of b "tables s"] dict by (simp add: table_refs_def)
  then show 1: "set_mset (table_refs s) = f ` L" using assms by (auto simp: singles_def split: if_splits)
  show "m_free A s = int n - int (card L)"
    using assms free_exact [OF inv] 1 by (simp add: singles_def card_image)
qed

lemma fill_loop:
  assumes "singles n {0..<int k} f s" and "owned {0..<int k} f owner" and "k + m = n"
  shows "\<exists>s' f' owner'. foldS (fill_one A) [k..<n] owner s = (Inr owner', s')
     \<and> singles n {0..<int n} f' s' \<and> owned {0..<int n} f' owner'"
  using assms
proof (induction m arbitrary: k f s owner)
  case 0
  then show ?case by (auto simp: ret_def)
next
  case (Suc m)
  have inv: "Inv s" and new: "map_of (tables s) (int k) = None" and n: "num_blocks s = n" "inj_on f {0..<int k}" "f ` {0..<int k} \<subseteq> {..<n}"
    and tab: "\<And>i. map_of (tables s) i = (if i \<in> {0..<int k} then Some [f i] else None)"
    using Suc.prems(1) by (simp_all add: singles_def)
  have "0 < m_free A s" using singles_refs(2) [OF Suc.prems(1)] Suc.prems(3) by simp
  then obtain b s1 where b: "m_admit A (int k) 1 1 s = (Inr [b], s1)" "b < n" "b \<notin> f ` {0..<int k}"
      "tables s1 = AList.update (int k) [b] (tables s)" "num_blocks s1 = n" "Inv s1"
    using admit_one [OF inv new] n(1) singles_refs(1) [OF Suc.prems(1)] by (fastforce split: prod.splits sum.splits)
  let ?f = "f(int k := b)"
  have range: "{0..<int (Suc k)} = insert (int k) {0..<int k}" by auto
  have "singles n {0..<int (Suc k)} ?f s1"
    using b n tab unfolding singles_def range by (auto simp: inj_on_def)
  moreover have "owned {0..<int (Suc k)} ?f (AList.update b (int k) owner)"
    using Suc.prems(2) b(3) unfolding owned_def range by auto
  moreover have "[k..<n] = k # [Suc k..<n]" using Suc.prems(3) by (simp add: upt_conv_Cons)
  moreover have "fill_one A k owner s = (Inr (AList.update b (int k) owner), s1)" using b(1) by (simp add: fill_one_def bindS_def ret_def)
  moreover have "Suc k + m = n" using Suc.prems(3) by simp
  ultimately have "foldS (fill_one A) [k..<n] owner s = foldS (fill_one A) [Suc k..<n] (AList.update b (int k) owner) s1"
      and IH: "singles n {0..<int (Suc k)} ?f s1" "owned {0..<int (Suc k)} ?f (AList.update b (int k) owner)" "Suc k + m = n"
    by (simp_all add: bindS_def del: of_nat_Suc fun_upd_apply)
  with Suc.IH [OF IH] show ?case by (simp del: fun_upd_apply)
qed

lemma fill_ok:
  assumes "Inv s" and "num_blocks s = n" and "tables s = []"
  shows "\<exists>owner s' f. fill_pool A n s = (Inr owner, s') \<and> singles n {0..<int n} f s' \<and> owned {0..<int n} f owner"
  using fill_loop [of n 0 "\<lambda>_. 0" s "[]" n] assms by (auto simp: fill_pool_def singles_def owned_def)

lemma release_all:
  assumes "distinct bs" and "set bs \<subseteq> f ` L"
  shows "singles n L f s \<Longrightarrow> owned L f owner \<Longrightarrow>
    \<exists>s'. eachS (release_owner A owner) bs s = (Inr (), s') \<and> singles n {i \<in> L. f i \<notin> set bs} f s'"
  using assms
proof (induction bs arbitrary: L s)
  case Nil
  then show ?case by (simp add: ret_def)
next
  case (Cons b bs)
  obtain i where i: "i \<in> L" "f i = b" using Cons.prems(4) by auto
  have inv: "Inv s" and tab: "map_of (tables s) i = Some [b]" and inj: "inj_on f L"
    using Cons.prems(1) i by (auto simp: singles_def)
  obtain s1 where s1: "m_release A i s = (Inr (), s1)" "tables s1 = AList.delete i (tables s)" "num_blocks s1 = num_blocks s" "Inv s1"
    using release_one [OF inv tab] by blast
  let ?L = "L - {i}"
  have "singles n ?L f s1" using Cons.prems(1) s1 by (auto simp: singles_def inj_on_diff)
  moreover have "owned ?L f owner" using Cons.prems(2) by (simp add: owned_def)
  moreover have "set bs \<subseteq> f ` ?L" using Cons.prems(3,4) i by auto
  ultimately obtain s' where s': "eachS (release_owner A owner) bs s1 = (Inr (), s')" "singles n {j \<in> ?L. f j \<notin> set bs} f s'"
    using Cons.IH [of ?L s1] Cons.prems(3) by (auto simp del: Diff_iff)
  have "release_owner A owner b s = (Inr (), s1)" using Cons.prems(2) i s1(1) by (auto simp: release_owner_def owned_def)
  then have "eachS (release_owner A owner) (b # bs) s = (Inr (), s')" using s'(1) by (simp add: thenS_def bindS_def)
  moreover have "{j \<in> ?L. f j \<notin> set bs} = {j \<in> L. f j \<notin> set (b # bs)}"
    using i inj by (auto simp: inj_on_def)
  ultimately show ?case using s'(2) by auto
qed

text \<open>The blocks that are freed: all of a region but its last.\<close>

definition holes :: "nat \<Rightarrow> nat list" where
  "holes n = concat (map (\<lambda>r. map (\<lambda>off. r * fb + off) [0..<fb - 1]) [0..<n div fb])"

lemma punch_flat: "punch_holes A fb n owner = eachS (release_owner A owner) (holes n)"
proof -
  have "eachS (\<lambda>off. g (h off)) xs = eachS g (map h xs)" for g :: "nat \<Rightarrow> ('p kv, unit) prog" and h :: "nat \<Rightarrow> nat" and xs
    by (induction xs) simp_all
  then have "punch_holes A fb n owner
      = eachS (\<lambda>r. eachS (release_owner A owner) (map (\<lambda>off. r * fb + off) [0..<fb - 1])) [0..<n div fb]"
    by (simp add: punch_holes_def)
  also have "\<dots> = eachS (release_owner A owner) (holes n)"
  proof -
    have "eachS (\<lambda>r. eachS g (h r)) xs = eachS g (concat (map h xs))" for g :: "nat \<Rightarrow> ('p kv, unit) prog" and h :: "nat \<Rightarrow> nat list" and xs
      by (induction xs) (simp_all add: eachS_append)
    then show ?thesis by (simp add: holes_def)
  qed
  finally show ?thesis .
qed

lemma holes_set:
  assumes "0 < fb"
  shows "set (holes n) = {b. b div fb < n div fb \<and> b mod fb < fb - 1}"
proof (intro equalityI subsetI)
  fix b assume b: "b \<in> {b. b div fb < n div fb \<and> b mod fb < fb - 1}"
  moreover from b have "b mod fb < fb - Suc 0" by simp
  then have "b div fb * fb + b mod fb < fb + b div fb * fb - Suc 0" by linarith
  then have "b < fb + b div fb * fb - Suc 0" by (simp only: div_mult_mod_eq)
  ultimately show "b \<in> set (holes n)"
    by (auto simp: holes_def intro!: bexI [of _ "b div fb"] image_eqI [of _ _ "b mod fb"])
next
  fix b assume "b \<in> set (holes n)"
  then obtain r off where "b = r * fb + off" "r < n div fb" "off < fb - 1"
  proof -
    obtain r where r: "r < n div fb" "b \<in> set (map (\<lambda>off. r * fb + off) [0..<fb - 1])"
      using \<open>b \<in> set (holes n)\<close> by (auto simp: holes_def)
    then obtain off where "off \<in> set [0..<fb - 1]" "b = r * fb + off" by (metis (no_types) imageE set_map)
    with r(1) show ?thesis by (intro that [of r off]) simp_all
  qed
  then show "b \<in> {b. b div fb < n div fb \<and> b mod fb < fb - 1}" using block_in_frame [OF assms, of off r] by simp
qed

lemma holes_distinct: "distinct (holes n)"
proof -
  have "distinct (concat (map (\<lambda>r. map (\<lambda>off. r * fb + off) [0..<fb - 1]) [0..<m]))" for m
  proof (induction m)
    case (Suc m)
    have "False" if "r < m" "x < fb + r * fb - Suc 0" "m * fb \<le> x" for r x
    proof -
      have "x < Suc r * fb" using that(2) by simp
      also have "\<dots> \<le> m * fb" using that(1) by (intro mult_le_mono1) simp
      finally show False using that(3) by simp
    qed
    then show ?case using Suc by (auto simp: distinct_map inj_on_def)
  qed simp
  then show ?thesis by (simp add: holes_def)
qed

lemma holes_length: "length (holes n) = n div fb * (fb - 1)"
  by (simp add: holes_def length_concat comp_def sum_list_triv)

lemma holes_lt: "0 < fb \<Longrightarrow> set (holes n) \<subseteq> {..<n}"
proof -
  assume fb: "0 < fb"
  have "b < n" if "b div fb < n div fb" for b
    using that by (meson div_le_mono leI not_less)
  then show ?thesis using holes_set [OF fb] by auto
qed

text \<open>The state before the clock starts.\<close>

lemma punched:
  assumes s: "singles n {0..<int n} f s" and owner: "owned {0..<int n} f owner" and fb: "0 < fb"
  shows "\<exists>s'. punch_holes A fb n owner s = (Inr (), s') \<and> Inv s' \<and> num_blocks s' = n
    \<and> count_empty (policy s') = 0 \<and> m_free A s' = int (n div fb * (fb - 1))
    \<and> (\<forall>i. int n \<le> i \<longrightarrow> map_of (tables s') i = None)"
proof -
  let ?L = "{0..<int n}"
  have inj: "inj_on f ?L" and sub: "f ` ?L \<subseteq> {..<n}" using s by (simp_all add: singles_def)
  have onto: "f ` ?L = {..<n}" using sub card_image [OF inj] by (intro card_subset_eq) simp_all
  have "set (holes n) \<subseteq> f ` ?L" using holes_lt [OF fb] onto by simp
  from release_all [OF holes_distinct this s owner] obtain s' where
    run: "eachS (release_owner A owner) (holes n) s = (Inr (), s')" and s': "singles n {i \<in> ?L. f i \<notin> set (holes n)} f s'" by blast
  let ?M = "{i \<in> ?L. f i \<notin> set (holes n)}"
  have "f ` {i \<in> L. f i \<notin> H} = f ` L - H" for L H by auto
  from this [of ?L "set (holes n)"] have img: "f ` ?M = {..<n} - set (holes n)" unfolding onto .
  have "inj_on f ?M" using inj by (rule inj_on_subset) auto
  then have "card ?M = card ({..<n} - set (holes n))" using card_image [of f ?M] img by simp
  also have "\<dots> = n - length (holes n)" using holes_lt [OF fb] by (simp add: card_Diff_subset distinct_card [OF holes_distinct])
  finally have card: "card ?M = n - length (holes n)" .
  have "length (holes n) \<le> n" using card_mono [OF _ holes_lt [OF fb], of n] by (simp add: distinct_card [OF holes_distinct])
  then have free: "m_free A s' = int (n div fb * (fb - 1))" using singles_refs(2) [OF s'] card holes_length [of n] by simp
  have inv: "Inv s'" "num_blocks s' = n" using s' by (simp_all add: singles_def)
  have "\<exists>b. b \<in># table_refs s' \<and> b div fb = r" if r: "r < num_blocks s' div fb" for r
  proof -
    let ?b = "r * fb + (fb - 1)"
    have b: "?b div fb = r" "?b mod fb = fb - 1" using block_in_frame [OF fb, of "fb - 1" r] fb by simp_all
    have "?b < Suc r * fb" using fb by simp
    also have "\<dots> \<le> n div fb * fb" using r inv(2) by (intro mult_le_mono1) simp
    finally have "?b < n" using div_times_less_eq_dividend [of n fb] by linarith
    then have "?b \<in> {..<n} - set (holes n)" unfolding holes_set [OF fb] using b by simp
    then have "?b \<in> f ` ?M" unfolding img .
    then show ?thesis using singles_refs(1) [OF s'] b(1) by blast
  qed
  then have "count_empty (policy s') = 0" using none_empty [OF inv(1)] by blast
  moreover have "map_of (tables s') i = None" if "int n \<le> i" for i using s' that by (auto simp: singles_def)
  ultimately show ?thesis using run inv free unfolding punch_flat by blast
qed

text \<open>Appends and admissions take one block each until there is none.\<close>

lemma append_run:
  assumes "Inv s" and "map_of (tables s) sid = Some t"
  shows "if int m \<le> m_free A s
     then \<exists>bs s'. repeatN m (m_append A sid) s = (Inr bs, s') \<and> Inv s' \<and> m_free A s' = m_free A s - int m
       \<and> num_blocks s' = num_blocks s \<and> (\<forall>i. i \<noteq> sid \<longrightarrow> map_of (tables s') i = map_of (tables s) i)
     else outcome (repeatN m (m_append A sid)) s = Inl AdmissionFailure"
  using assms
proof (induction m arbitrary: s t)
  case 0
  then show ?case using free_exact [OF 0(1)] by (simp add: ret_def)
next
  case (Suc m)
  show ?case
  proof (cases "m_append A sid s")
    case (Pair r s1)
    show ?thesis
    proof (cases r)
      case (Inl e)
      with Pair append_one [OF Suc.prems] show ?thesis by (simp add: bindS_def)
    next
      case (Inr b)
      with Pair append_one [OF Suc.prems] have s1: "tables s1 = AList.update sid (t @ [b]) (tables s)" "num_blocks s1 = num_blocks s"
        "m_free A s1 = m_free A s - 1" "Inv s1" by auto
      then have "map_of (tables s1) sid = Some (t @ [b])" by simp
      from Suc.IH [OF s1(4) this] s1 Pair Inr show ?thesis
        by (auto simp: bindS_def ret_def split: if_splits prod.splits sum.splits)
    qed
  qed
qed

lemma admit_run:
  assumes "Inv s" and "\<forall>i \<in> set sids. map_of (tables s) i = None" and "distinct sids"
  shows "if int (length sids) \<le> m_free A s
     then \<exists>s'. eachS (\<lambda>sid. bindS (m_admit A sid 1 1) (\<lambda>_. ret ())) sids s = (Inr (), s')
     else outcome (eachS (\<lambda>sid. bindS (m_admit A sid 1 1) (\<lambda>_. ret ())) sids) s = Inl AdmissionFailure"
  using assms
proof (induction sids arbitrary: s)
  case Nil
  then show ?case using free_exact [OF Nil(1)] by (simp add: ret_def)
next
  case (Cons sid sids)
  have new: "map_of (tables s) sid = None" using Cons.prems(2) by simp
  show ?case
  proof (cases "m_admit A sid 1 1 s")
    case (Pair r s1)
    show ?thesis
    proof (cases r)
      case (Inl e)
      with Pair admit_one [OF Cons.prems(1) new] show ?thesis by (simp add: bindS_def thenS_def)
    next
      case (Inr bs)
      with Pair admit_one [OF Cons.prems(1) new] obtain b where s1: "tables s1 = AList.update sid [b] (tables s)"
        "m_free A s1 = m_free A s - 1" "Inv s1" by auto
      have "\<forall>i \<in> set sids. map_of (tables s1) i = None" using Cons.prems(2,3) s1(1) by auto
      from Cons.IH [OF s1(3) this] Cons.prems(3) s1(2) Pair Inr show ?thesis
        by (auto simp: bindS_def thenS_def ret_def split: if_splits)
    qed
  qed
qed

lemma timed_ok:
  assumes inv: "Inv s" and new: "\<forall>i. int n \<le> i \<longrightarrow> map_of (tables s) i = None" and reps: "0 \<le> reps" "reps div 10 < 10 ^ 6"
  shows "if 1 + reps + reps div 10 \<le> m_free A s then \<exists>s'. timed_calls A n reps s = (Inr (), s')
     else outcome (timed_calls A n reps) s = Inl AdmissionFailure"
proof -
  let ?g = "int n + 10 ^ 6" and ?sids = "[int n + 1..int n + reps div 10]"
  have g: "map_of (tables s) ?g = None" using new by simp
  have tenth: "0 \<le> reps div 10" using reps(1) by simp
  show ?thesis
  proof (cases "m_admit A ?g 1 1 s")
    case (Pair r s1)
    show ?thesis
    proof (cases r)
      case (Inl e)
      with Pair admit_one [OF inv g] reps(1) tenth show ?thesis by (simp add: timed_calls_def Let_def bindS_def)
    next
      case (Inr bs)
      with Pair admit_one [OF inv g] obtain b where s1: "tables s1 = AList.update ?g [b] (tables s)"
        "m_free A s1 = m_free A s - 1" "Inv s1" by auto
      have tab: "map_of (tables s1) ?g = Some [b]" using s1(1) by simp
      note app = append_run [OF s1(3) tab, of "nat reps"]
      show ?thesis
      proof (cases "reps \<le> m_free A s1")
        case False
        with app reps(1) have "outcome (repeatS reps (m_append A ?g)) s1 = Inl AdmissionFailure" by (simp add: repeatS_def)
        then show ?thesis using Pair Inr False s1(2) tenth
          by (cases "repeatS reps (m_append A ?g) s1") (simp add: timed_calls_def Let_def bindS_def)
      next
        case True
        with app reps(1) obtain cs s2 where s2: "repeatS reps (m_append A ?g) s1 = (Inr cs, s2)" "Inv s2"
          "m_free A s2 = m_free A s1 - reps" "\<forall>i. i \<noteq> ?g \<longrightarrow> map_of (tables s2) i = map_of (tables s1) i"
          by (auto simp: repeatS_def)
        have "\<forall>i \<in> set ?sids. map_of (tables s2) i = None" using s2(4) s1(1) new reps(2) by auto
        note adm = admit_run [OF s2(2) this]
        have "timed_calls A n reps s = eachS (\<lambda>sid. bindS (m_admit A sid 1 1) (\<lambda>_. ret ())) ?sids s2"
          unfolding timed_calls_def Let_def runs_on(1) [of "m_admit A ?g 1 1", OF Pair [unfolded Inr]]
            runs_on(1) [of "repeatS reps (m_append A ?g)", OF s2(1)] ..
        with adm s2(3) s1(2) tenth show ?thesis by (simp split: if_splits)
      qed
    qed
  qed
qed

lemma worst_case_ok:
  assumes inv: "Inv s" "tables s = []" and fb: "0 < fb" and reps: "0 \<le> reps" "reps div 10 < 10 ^ 6"
  defines "free \<equiv> int (num_blocks s div fb * (fb - 1))"
  shows "outcome (worst_case A count_empty pim fb reps) s =
    (if free < reps then Inl AssertionError
     else if free < 1 + reps + reps div 10 then Inl AdmissionFailure
     else if reps div 10 = 0 then Inl ZeroDivisionError
     else Inr \<lparr>br_pool_blocks = int (num_blocks s), br_regions = (if pim then int (num_blocks s div fb) else int (num_blocks s)),
       br_calls = reps\<rparr>)"
proof -
  let ?n = "num_blocks s"
  obtain owner s1 f where s1: "fill_pool A ?n s = (Inr owner, s1)" "singles ?n {0..<int ?n} f s1" "owned {0..<int ?n} f owner"
    using fill_ok [OF inv(1) refl inv(2)] by blast
  obtain s2 where s2: "punch_holes A fb ?n owner s1 = (Inr (), s2)" "Inv s2" "count_empty (policy s2) = 0" "m_free A s2 = free"
    "\<forall>i. int ?n \<le> i \<longrightarrow> map_of (tables s2) i = None"
    using punched [OF s1(2,3) fb] unfolding free_def by blast
  have run: "worst_case A count_empty pim fb reps s =
     (if free < reps then (Inl AssertionError, s2)
      else bindS (timed_calls A ?n reps) (\<lambda>_. if reps = 0 \<or> reps div 10 = 0 then raise ZeroDivisionError
        else ret \<lparr>br_pool_blocks = int ?n, br_regions = (if pim then int (?n div fb) else int ?n), br_calls = reps\<rparr>) s2)"
    using s1(1) s2(1,3,4) fb by (simp add: worst_case_def bindS_def thenS_def getS_def assertS_def not_le)
  show ?thesis
  proof (cases "free < reps")
    case False
    note t = timed_ok [OF s2(2,5) reps]
    show ?thesis
    proof (cases "1 + reps + reps div 10 \<le> free")
      case True
      with t s2(4) obtain s3 where "timed_calls A ?n reps s2 = (Inr (), s3)" by auto
      then show ?thesis using run True False by (auto simp: bindS_def raise_def ret_def)
    next
      case False
      with t s2(4) have "outcome (timed_calls A ?n reps) s2 = Inl AdmissionFailure" by simp
      then show ?thesis using run False \<open>\<not> free < reps\<close>
        by (cases "timed_calls A ?n reps s2") (simp add: bindS_def)
    qed
  qed (simp add: run)
qed

end

section \<open>The paged pool\<close>

interpretation paged_bench: bench_pool paged_allocator "paged.base_inv {#}" "\<lambda>_. 0" fb for fb
proof (unfold_locales, goal_cases)
  case (1 s sid)
  then show ?case using paged.base_admit [OF 1(1), of 1 sid 1]
    by (auto simp: paged_allocator_def base_allocator_def fresh_def refs_def length_Suc_conv split: prod.splits sum.splits)
next
  case (2 s sid t)
  then show ?case using paged.base_append [OF 2]
    by (auto simp: paged_allocator_def base_allocator_def split: prod.splits sum.splits)
next
  case (3 s sid t)
  then show ?case using paged.base_release [OF 3(1), of sid]
    by (auto simp: paged_allocator_def base_allocator_def split: prod.splits sum.splits)
next
  case (4 s)
  then show ?case using paged.kv_num_free [OF 4] paged.base.free_law [OF 4]
    by (simp add: paged_allocator_def base_allocator_def)
qed simp

section \<open>The PIM-aware pool\<close>

text \<open>No method but a compaction changes anything but frames, hints and counters of the policy.\<close>

definition fixed :: "nat \<Rightarrow> pim \<Rightarrow> bool" where
  "fixed g p \<longleftrightarrow> compact_below p = 0 \<and> frame_size p = g"

lemma keeps_policy: "keeps J m \<Longrightarrow> keeps (\<lambda>s. J (policy s)) (on_policy m)"
  by (auto simp: keeps_def on_policy_def Let_def split: prod.split)

lemma keeps_beside: "(\<And>s. policy (f s) = policy s) \<Longrightarrow> keeps (\<lambda>s. J (policy s)) (modifyS f)"
  by (simp add: keeps_def modifyS_def)

lemma keeps_plan: "(\<And>p. J p \<Longrightarrow> J (f p)) \<Longrightarrow> keeps (\<lambda>s. J (policy s)) (on_plan f)"
  by (simp add: keeps_def on_plan_def modifyS_def)

lemma fixed_hooks: "keeps (fixed g) (alloc_one pim_ops k)" "keeps (fixed g) (free_one pim_ops b)"
  by (auto simp: keeps_def fixed_def pim_ops_def pim_alloc_one_def pim_free_one_def pick_frame_def pick_unplanned_def pick_new_def
    bindS_def Let_def split: prod.splits sum.splits option.splits if_splits)

abbreviation keeps_fixed :: "nat \<Rightarrow> (pim kv, 'a) prog \<Rightarrow> bool" where
  "keeps_fixed g \<equiv> keeps (\<lambda>s. fixed g (policy s))"

lemma fixed_alloc: "keeps_fixed g (alloc pim_ops k)"
  unfolding alloc_def by (intro keeps_intro keeps_policy fixed_hooks keeps_beside) simp

lemma fixed_unref: "keeps_fixed g (unref pim_ops b)"
  unfolding unref_def Let_def by (intro keeps_intro keeps_policy fixed_hooks keeps_beside; simp)

lemma fixed_admit: "keeps_fixed g (pim_admit sid n t)"
  unfolding pim_admit_def admit_def set_table_def
  by (intro keeps_intro keeps_plan fixed_alloc keeps_beside; simp add: fixed_def plan_frames_def split: prod.split)

lemma fixed_append: "keeps_fixed g (append_block pim_ops sid)"
  unfolding append_block_def set_table_def by (intro keeps_intro fixed_alloc keeps_beside) simp

lemma fixed_release: "keeps_fixed g (release pim_ops sid)"
  unfolding release_def by (intro keeps_intro fixed_unref keeps_beside) simp

definition pim_bench_inv :: "nat \<Rightarrow> pim kv \<Rightarrow> bool" where
  "pim_bench_inv g s \<longleftrightarrow> pim_inv {#} s \<and> fixed g (policy s)"

lemma pim_release_plain:
  assumes inv: "pim_bench_inv g s" and tab: "map_of (tables s) sid = Some t"
  shows "\<exists>s'. pim_release sid s = (Inr (), s') \<and> tables s' = AList.delete sid (tables s) \<and> num_blocks s' = num_blocks s
    \<and> pim_bench_inv g s'"
proof -
  have kv: "kv_inv pim_free_set pim_ok (held {#}) s" and pim: "pim_inv {#} s" and fx: "fixed g (policy s)"
    using inv by (simp_all add: pim_inv_def pim_bench_inv_def)
  obtain s1 where s1: "release pim_ops sid s = (Inr (), s1)" "tables s1 = AList.delete sid (tables s)" "num_blocks s1 = num_blocks s"
    using pim.base_release [OF kv, of sid] tab by (auto split: prod.splits sum.splits)
  define s2 where "s2 = s1\<lparr>policy := policy s1\<lparr>affinity := AList.delete (Seq sid) (affinity (policy s1)),
    plans := AList.delete (Seq sid) (plans (policy s1))\<rparr>\<rparr>"
  have fx1: "fixed g (policy s1)" using keepsD [OF fixed_release fx] s1(1) by (metis snd_conv)
  then have run: "pim_release sid s = (Inr (), s2)"
    using s1(1) by (simp add: pim_release_def prog_simps s2_def fixed_def)
  moreover have "pim_inv {#} s2" using pim_release_law [OF pim, of sid] run by simp
  moreover have "fixed g (policy s2)" using fx1 by (simp add: s2_def fixed_def)
  ultimately show ?thesis using s1 by (simp add: pim_bench_inv_def s2_def)
qed

interpretation pim_bench: bench_pool pim_allocator "pim_bench_inv fb" "\<lambda>q. length (empties q)" fb for fb
proof (unfold_locales, goal_cases)
  case (1 s sid)
  then have "fixed fb (policy (snd (pim_admit sid 1 1 s)))"
    using keepsD [OF fixed_admit [of fb sid 1 1], of s] by (simp add: pim_bench_inv_def)
  then show ?case using pim_admit_law [of "{#}" s 1 sid 1] 1
    by (auto simp: pim_bench_inv_def pim_allocator_def base_allocator_def fresh_def refs_def length_Suc_conv split: prod.splits sum.splits)
next
  case (2 s sid t)
  then have "fixed fb (policy (snd (append_block pim_ops sid s)))"
    using keepsD [OF fixed_append [of fb sid], of s] by (simp add: pim_bench_inv_def)
  then show ?case using pim_calls.append_law [of "{#}" s sid t] 2
    by (auto simp: pim_bench_inv_def pim_allocator_def base_allocator_def split: prod.splits sum.splits)
next
  case (3 s sid t)
  then show ?case using pim_release_plain [OF 3] by (simp add: pim_allocator_def base_allocator_def)
next
  case (4 s)
  then have kv: "kv_inv pim_free_set pim_ok (held {#}) s" by (simp add: pim_inv_def pim_bench_inv_def)
  show ?case using pim.kv_num_free [OF kv] pim.base.free_law [OF kv]
    by (simp add: pim_allocator_def base_allocator_def)
next
  case (5 s)
  let ?p = "policy s"
  have inv: "pim_inv {#} s" and g: "frame_size ?p = fb" using 5(1) by (simp_all add: pim_bench_inv_def fixed_def)
  note ok = pim_inv_ok [OF inv]
  have "False" if f: "f \<in> set (empties ?p)" for f
  proof -
    have lt: "f < n_frames ?p" "room ?p f = frame_size ?p" using f by (simp_all add: empties_def)
    have "f < num_blocks s div fb" using lt(1) pim_okD(1,2) [OF ok] g by simp
    then obtain b where b: "b \<in># table_refs s" "b div fb = f" using 5(2) by blast
    have "set (slots ?p f) = {..<frame_size ?p}"
      using card_subset_eq [OF _ pim_okD(6) [OF ok lt(1)]] distinct_card [OF pim_okD(5) [OF ok lt(1)]] lt(2) by simp
    moreover have "b < num_blocks s" "b \<notin> pim_free_set ?p"
      using b(1) inv by (auto simp: pim_inv_def kv_inv_def rc_inv_def)
    ultimately show False using b(2) g pim_okD(1,2) [OF ok] by (simp add: pim_free_set_def)
  qed
  then show ?case by (metis length_0_conv list.set_intros(1) neq_Nil_conv)
qed

section \<open>Properties\<close>

text \<open>The size of the pool: the factory pads a PIM-aware pool to whole regions.\<close>

definition padded :: "string \<Rightarrow> nat \<Rightarrow> nat \<Rightarrow> nat" where
  "padded name n fb = (if name = ''pim-aware'' then nat (ceil_div (int n) (int fb) * int fb) else n)"

lemma padded_mod: "0 < fb \<Longrightarrow> padded ''pim-aware'' n fb mod fb = 0"
proof -
  assume fb: "0 < fb"
  have "0 \<le> ceil_div (int n) (int fb)" using fb by (simp add: ceil_div_eq pos_imp_zdiv_nonneg_iff)
  then obtain m where "ceil_div (int n) (int fb) = int m" using nonneg_int_cases by blast
  then show ?thesis by (simp add: padded_def nat_mult_distrib)
qed

text \<open>C22: What the worst-case benchmark does, on the paged and the PIM-aware pool of any size, with any region size and
  number of calls: filling and punching always succeed and leave no region empty, with \<open>fb - 1\<close> free blocks in every whole
  region. The run then passes the assertion when these are at least \<open>reps\<close>; but it takes \<open>reps + 1 + reps // 10\<close> blocks,
  so with fewer it ends in an uncaught \<open>AdmissionFailure\<close>, and below ten calls in a division by zero. Otherwise it
  reports the pool, the regions it scanned and the calls it made.\<close>

theorem worst_case_outcome:
  assumes "name \<in> {''paged'', ''pim-aware''}" and "0 < fb" and "0 \<le> reps" "reps div 10 < 10 ^ 6"
  shows "run_worst_case name pool_blocks fb reps R seed =
    (let n = padded name pool_blocks fb; free = int (n div fb * (fb - 1)) in
     if free < reps then Inl AssertionError
     else if free < 1 + reps + reps div 10 then Inl AdmissionFailure
     else if reps div 10 = 0 then Inl ZeroDivisionError
     else Inr \<lparr>br_pool_blocks = int n, br_regions = (if name = ''pim-aware'' then int (n div fb) else int n), br_calls = reps\<rparr>)"
proof -
  from assms(1) consider "name = ''paged''" | "name = ''pim-aware''" by blast
  then show ?thesis
  proof cases
    case 1
    have "paged.base_inv {#} (PagedFirstFit pool_blocks)" using paged_init [of pool_blocks] by simp
    moreover have "tables (PagedFirstFit pool_blocks) = []" "num_blocks (PagedFirstFit pool_blocks) = pool_blocks"
      by (simp_all add: PagedFirstFit_def kv_init_def)
    ultimately show ?thesis using paged_bench.worst_case_ok [OF _ _ assms(2-4), of "PagedFirstFit pool_blocks" False] 1
      by (simp add: run_worst_case_def make_allocator_def padded_def Let_def)
  next
    case 2
    let ?n = "padded ''pim-aware'' pool_blocks fb"
    obtain p where p: "PimAware ?n fb True ''bestfit'' 0 = Inr p" "num_blocks p = ?n"
      by (rule pim_pool [OF padded_mod [OF assms(2)] assms(2), of "''bestfit''"]) auto
    have "pim_bench_inv fb p" "tables p = []"
      using p(1) assms(2) pim_init [OF p(1)] by (auto simp: pim_bench_inv_def fixed_def PimAware_def kv_init_def Let_def split: if_splits)
    moreover have "run_worst_case name pool_blocks fb reps R seed
        = outcome (worst_case pim_allocator (\<lambda>q. length (empties q)) True fb reps) p"
      using 2 p assms(2) by (simp add: run_worst_case_def make_allocator_def padded_def Let_def)
    ultimately show ?thesis using pim_bench.worst_case_ok [OF _ _ assms(2-4), of p True] 2 p(2) by (simp add: Let_def)
  qed
qed

lemma in_situ_is_run_witness:
  "run_in_situ 5000000 least_draws ''pim-aware'' ''spec'' ''oracle'' (13 / 10) 1000 0 16 =
    bindE (run_main 5000000 least_draws (run_defaults\<lparr>a_workload := ''spec'', a_allocator := ''pim-aware'', a_addrmap := ''host-cacheline'',
        a_block_tokens := 16, a_requests := 1000, a_seed := 0, a_sample_every := 10 ^ 9, a_sample_seqs := 1,
        a_admission := ''oracle''\<rparr>))
      (row_of_run (insitu_row_of ''pim-aware'' ''spec'' ''oracle'' (13 / 10)))"
  by (rule in_situ_is_run) simp

text \<open>The default pool with 2000 calls, and one with more calls than it can serve.\<close>

lemma worst_case_outcome_witness:
  "run_worst_case ''pim-aware'' 3168 8 2000 least_draws 0 = Inr \<lparr>br_pool_blocks = 3168, br_regions = 396, br_calls = 2000\<rparr>
    \<and> run_worst_case ''pim-aware'' 3168 8 2600 least_draws 0 = Inl AdmissionFailure"
proof -
  have "padded ''pim-aware'' 3168 8 = 3168" by (simp add: padded_def ceil_div_def)
  then show ?thesis by (simp add: worst_case_outcome)
qed

end
