(* ===== verification/Vllm_Ref.thy ===== *)
theory Vllm_Ref
  imports Kv_Freelist
begin

text \<open>
  The allocator the paged baseline is ported from: \<open>BlockAllocator\<close> and \<open>BlockSpaceManager\<close> of vLLM v0.2.7
  (\<open>third_party/vllm_ref/block_manager.py\<close>), on the GPU and without a sliding window, and the proof that
  \<open>PagedFirstFit\<close> implements it. A physical block is its number; \<open>set(block_table)\<close> is iterated in an order that
  Python leaves open, so that order is a parameter.
\<close>

section \<open>The block allocator\<close>

record vllm =
  v_free :: "nat list"
  v_ref :: "nat \<Rightarrow> int"
  v_tables :: "(int, nat list) dict"

definition v_init :: "nat \<Rightarrow> vllm" where
  "v_init n = \<lparr>v_free = [0..<n], v_ref = (\<lambda>_. 0), v_tables = []\<rparr>"

definition v_allocate_block :: "(vllm, nat) prog" where
  "v_allocate_block = (\<lambda>v. if v_free v = [] then (Inl ValueError, v)
     else let b = last (v_free v) in (Inr b, v\<lparr>v_free := butlast (v_free v), v_ref := (v_ref v)(b := 1)\<rparr>))"

definition v_free_block :: "nat \<Rightarrow> (vllm, unit) prog" where
  "v_free_block b =
     thenS (assertS (\<lambda>v. v_ref v b \<noteq> 0) ValueError)
     (thenS (modifyS (\<lambda>v. v\<lparr>v_ref := (v_ref v)(b := v_ref v b - 1)\<rparr>))
     (modifyS (\<lambda>v. if v_ref v b = 0 then v\<lparr>v_free := v_free v @ [b]\<rparr> else v)))"

section \<open>The block space manager\<close>

definition v_put_ref :: "nat \<Rightarrow> (int \<Rightarrow> int) \<Rightarrow> (vllm, unit) prog" where
  "v_put_ref b f = modifyS (\<lambda>v. v\<lparr>v_ref := (v_ref v)(b := f (v_ref v b))\<rparr>)"

definition v_set_table :: "int \<Rightarrow> nat list \<Rightarrow> (vllm, unit) prog" where
  [prog_simps]: "v_set_table sid t = modifyS (\<lambda>v. v\<lparr>v_tables := AList.update sid t (v_tables v)\<rparr>)"

text \<open>\<open>allocate\<close> for a group of waiting sequences \<open>sids\<close> with the same prompt of \<open>n\<close> blocks.\<close>

definition v_allocate :: "int list \<Rightarrow> int \<Rightarrow> (vllm, unit) prog" where
  "v_allocate sids n =
     bindS (repeatS n (bindS v_allocate_block (\<lambda>b. thenS (v_put_ref b (\<lambda>_. int (length sids))) (ret b)))) (\<lambda>t.
     eachS (\<lambda>sid. v_set_table sid t) sids)"

text \<open>\<open>append_slot\<close> of a sequence that has \<open>n_logical\<close> logical blocks: a new block, or copy on write when the last
  block is shared. The result is the pair of blocks to copy, if any.\<close>

definition v_append_slot :: "int \<Rightarrow> int \<Rightarrow> (vllm, (nat \<times> nat) option) prog" where
  "v_append_slot sid n_logical =
     bindS (dget sid v_tables) (\<lambda>t.
     if int (length t) < n_logical
     then bindS v_allocate_block (\<lambda>b. thenS (v_set_table sid (t @ [b])) (ret None))
     else if t = [] then raise IndexError
     else bindS (getS (\<lambda>v. v_ref v (last t))) (\<lambda>rc.
       if rc = 1 then ret None
       else bindS v_allocate_block (\<lambda>b. thenS (v_set_table sid (butlast t @ [b]))
         (thenS (v_free_block (last t)) (ret (Some (last t, b)))))))"

definition v_fork :: "int \<Rightarrow> int \<Rightarrow> (vllm, unit) prog" where
  "v_fork parent child =
     bindS (dget parent v_tables) (\<lambda>t.
     thenS (v_set_table child t)
     (eachS (\<lambda>b. v_put_ref b (\<lambda>rc. rc + 1)) t))"

definition v_free_seq :: "(nat list \<Rightarrow> nat list) \<Rightarrow> int \<Rightarrow> (vllm, unit) prog" where
  "v_free_seq set_order sid = (\<lambda>v. case map_of (v_tables v) sid of
       None \<Rightarrow> (Inr (), v)
     | Some t \<Rightarrow> thenS (eachS v_free_block (set_order t)) (modifyS (\<lambda>v. v\<lparr>v_tables := AList.delete sid (v_tables v)\<rparr>)) v)"

section \<open>Calls\<close>

text \<open>What a scheduler does with either allocator.\<close>

datatype call =
    Admit int int
  | Append int
  | Fork int int
  | Free int

fun paged_call :: "call \<Rightarrow> (paged kv, unit) prog" where
  "paged_call (Admit sid n) = bindS (m_admit paged_allocator sid n n) (\<lambda>_. ret ())"
| "paged_call (Append sid) = bindS (m_append paged_allocator sid) (\<lambda>_. ret ())"
| "paged_call (Fork parent child) = m_fork paged_allocator parent child"
| "paged_call (Free sid) = m_release paged_allocator sid"

fun vllm_call :: "(nat list \<Rightarrow> nat list) \<Rightarrow> call \<Rightarrow> (vllm, unit) prog" where
  "vllm_call set_order (Admit sid n) = v_allocate [sid] n"
| "vllm_call set_order (Append sid) = (\<lambda>v. case map_of (v_tables v) sid of
       None \<Rightarrow> (Inl KeyError, v)
     | Some t \<Rightarrow> bindS (v_append_slot sid (int (length t) + 1)) (\<lambda>_. ret ()) v)"
| "vllm_call set_order (Fork parent child) = v_fork parent child"
| "vllm_call set_order (Free sid) = v_free_seq set_order sid"

section \<open>The simulation relation\<close>

text \<open>Same free list in the same order, same tables, same reference counts; a free block counts 0.\<close>

definition vsim :: "paged kv \<Rightarrow> vllm \<Rightarrow> bool" where
  "vsim s v \<longleftrightarrow> v_free v = free_blocks (policy s) \<and> v_tables v = tables s
     \<and> (\<forall>b. v_ref v b = (case map_of (refcount s) b of None \<Rightarrow> 0 | Some c \<Rightarrow> c))
     \<and> (\<forall>b c. map_of (refcount s) b = Some c \<longrightarrow> 0 < c)"

lemma vsim_alloc:
  assumes "vsim s v" and "alloc paged_ops k s = (Inr b, s')"
  shows "\<exists>v'. v_allocate_block v = (Inr b, v') \<and> vsim s' v' \<and> v_ref v' b = 1"
  using assms by (auto simp: vsim_def alloc_def paged_defs v_allocate_block_def prog_simps Let_def split: if_splits)

lemma ret_run [simp]: "ret x s = (Inr x, s)"
  by (simp add: ret_def)

abbreviation v_alloc_one :: "(vllm, nat) prog" where
  "v_alloc_one \<equiv> bindS v_allocate_block (\<lambda>b. thenS (v_put_ref b (\<lambda>_. 1)) (ret b))"

lemma vsim_allocs:
  "vsim s v \<Longrightarrow> repeatN n (alloc paged_ops k) s = (Inr bs, s') \<Longrightarrow> \<exists>v'. repeatN n v_alloc_one v = (Inr bs, v') \<and> vsim s' v'"
proof (induction n arbitrary: s v bs)
  case 0
  then show ?case by simp
next
  case (Suc n)
  from runsD(1) [OF Suc.prems(2) [unfolded repeatN.simps]] obtain b s1 where
    b: "alloc paged_ops k s = (Inr b, s1)" "bindS (repeatN n (alloc paged_ops k)) (\<lambda>ys. ret (b # ys)) s1 = (Inr bs, s')" by blast
  from runsD(1) [OF b(2)] obtain bs' where bs: "repeatN n (alloc paged_ops k) s1 = (Inr bs', s')" "bs = b # bs'" by auto
  obtain v1 where v1: "v_allocate_block v = (Inr b, v1)" "vsim s1 v1" "v_ref v1 b = 1"
    using vsim_alloc [OF Suc.prems(1) b(1)] by blast
  have "(v_ref v1)(b := 1) = v_ref v1" using v1(3) by (simp add: fun_upd_idem)
  then have "v_put_ref b (\<lambda>_. 1) v1 = (Inr (), v1)" by (simp add: v_put_ref_def modifyS_def)
  then have one: "v_alloc_one v = (Inr b, v1)" by (simp add: runs_on(1) [of v_allocate_block, OF v1(1)] runs_on(2))
  obtain v' where "repeatN n v_alloc_one v1 = (Inr bs', v')" "vsim s' v'" using Suc.IH [OF v1(2) bs(1)] by blast
  then show ?case
    unfolding repeatN.simps bs(2) by (simp add: runs_on(1) [of v_alloc_one, OF one] runs_on(1))
qed

lemma vsim_tables: "vsim s v \<Longrightarrow> vsim (s\<lparr>tables := d\<rparr>) (v\<lparr>v_tables := d\<rparr>)"
  by (simp add: vsim_def)

lemma vsim_incref:
  assumes v: "vsim s v" and run: "incref b s = (Inr (), s')"
  shows "\<exists>v'. v_put_ref b (\<lambda>rc. rc + 1) v = (Inr (), v') \<and> vsim s' v'"
proof -
  obtain c where c: "map_of (refcount s) b = Some c" and s': "s' = s\<lparr>refcount := AList.update b (c + 1) (refcount s)\<rparr>"
    using run by (auto simp: incref_def prog_simps split: option.splits)
  have "0 < c" "v_ref v b = c" using v c by (auto simp: vsim_def)
  then show ?thesis using v unfolding s' vsim_def v_put_ref_def modifyS_def by auto
qed

lemma vsim_each:
  assumes step: "\<And>x s v s'. vsim s v \<Longrightarrow> f x s = (Inr (), s') \<Longrightarrow> \<exists>v'. g x v = (Inr (), v') \<and> vsim s' v'"
  shows "vsim s v \<Longrightarrow> eachS f xs s = (Inr (), s') \<Longrightarrow> \<exists>v'. eachS g xs v = (Inr (), v') \<and> vsim s' v'"
proof (induction xs arbitrary: s v)
  case (Cons x xs)
  from runsD(2) [OF Cons.prems(2) [unfolded eachS.simps]] obtain s1 where s1: "f x s = (Inr (), s1)" "eachS f xs s1 = (Inr (), s')" by auto
  obtain v1 where v1: "g x v = (Inr (), v1)" "vsim s1 v1" using step [OF Cons.prems(1) s1(1)] by blast
  from Cons.IH [OF v1(2) s1(2)] show ?case unfolding eachS.simps runs_on(2) [of "g x", OF v1(1)] .
qed simp

lemma vsim_unref:
  assumes v: "vsim s v" and run: "unref paged_ops b s = (Inr (), s')"
  shows "\<exists>v'. v_free_block b v = (Inr (), v') \<and> vsim s' v'"
proof -
  obtain c where c: "map_of (refcount s) b = Some c" using run by (auto simp: unref_def prog_simps split: option.splits)
  then have ref: "v_ref v b = c" "0 < c" using v by (auto simp: vsim_def)
  show ?thesis
  proof (cases "c = 1")
    case True
    then show ?thesis using v run c ref
      by (auto simp: vsim_def unref_def paged_defs v_free_block_def prog_simps Let_def split: if_splits)
  next
    case False
    then have s': "s' = s\<lparr>refcount := AList.update b (c - 1) (refcount s)\<rparr>" "1 < c"
      using run c ref by (auto simp: unref_def prog_simps Let_def)
    then show ?thesis using v ref False by (auto simp: vsim_def v_free_block_def prog_simps)
  qed
qed

lemma vsim_unrefs:
  assumes "vsim s v" and "eachS (unref paged_ops) bs s = (Inr (), s')"
  shows "\<exists>v'. eachS v_free_block bs v = (Inr (), v') \<and> vsim s' v'"
  by (rule vsim_each [OF vsim_unref assms])

lemma vsim_increfs:
  assumes "vsim s v" and "eachS incref bs s = (Inr (), s')"
  shows "\<exists>v'. eachS (\<lambda>b. v_put_ref b (\<lambda>rc. rc + 1)) bs v = (Inr (), v') \<and> vsim s' v'"
  by (rule vsim_each [OF vsim_incref assms])

section \<open>Calls simulate\<close>

lemma assertD: "thenS (assertS c x) m s = (Inr y, s') \<Longrightarrow> m s = (Inr y, s')"
  by (simp add: thenS_def bindS_def assertS_def split: if_splits)

lemma incref_tables: "incref b s = (Inr (), s') \<Longrightarrow> tables s' = tables s"
  by (auto simp: incref_def prog_simps split: option.splits)

lemma set_table_run: "set_table sid t s = (Inr (), s\<lparr>tables := AList.update sid t (tables s)\<rparr>)"
    "v_set_table sid t v = (Inr (), v\<lparr>v_tables := AList.update sid t (v_tables v)\<rparr>)"
  by (simp_all add: prog_simps)

lemma vsim_set: "vsim s v \<Longrightarrow> vsim (s\<lparr>tables := AList.update sid t (tables s)\<rparr>) (v\<lparr>v_tables := AList.update sid t (v_tables v)\<rparr>)"
  by (simp add: vsim_def)

lemma vsim_del: "vsim s v \<Longrightarrow> vsim (s\<lparr>tables := AList.delete sid (tables s)\<rparr>) (v\<lparr>v_tables := AList.delete sid (v_tables v)\<rparr>)"
  by (simp add: vsim_def)

lemma sim_admit:
  assumes v: "vsim s v" and run: "admit paged_ops sid n t s = (Inr bs, s')"
  shows "\<exists>v'. v_allocate [sid] n v = (Inr (), v') \<and> vsim s' v'"
proof -
  note 1 = assertD [OF assertD [OF run [unfolded admit_def]]]
  from runsD(1) [OF 1] obtain bs' s3 where
    3: "repeatN (nat n) (alloc paged_ops (Seq sid)) s = (Inr bs', s3)" "thenS (set_table sid bs') (ret bs') s3 = (Inr bs, s')"
    unfolding repeatS_def by blast
  obtain v3 where v3: "repeatN (nat n) v_alloc_one v = (Inr bs', v3)" "vsim s3 v3" using vsim_allocs [OF v 3(1)] by blast
  have s': "s' = s3\<lparr>tables := AList.update sid bs' (tables s3)\<rparr>" using 3(2) by (simp add: runs_on(2) [OF set_table_run(1)] eq_commute)
  have "repeatS n v_alloc_one v = (Inr bs', v3)" using v3(1) by (simp add: repeatS_def)
  then have "v_allocate [sid] n v = (Inr (), v3\<lparr>v_tables := AList.update sid bs' (v_tables v3)\<rparr>)"
    by (simp add: v_allocate_def runs_on(1) runs_on(2) [OF set_table_run(2)])
  then show ?thesis using vsim_set [OF v3(2)] s' by blast
qed

lemma sim_append:
  assumes v: "vsim s v" and run: "append_block paged_ops sid s = (Inr b, s')"
  shows "\<exists>v'. vllm_call order (Append sid) v = (Inr (), v') \<and> vsim s' v'"
proof -
  from runsD(1) [OF assertD [OF run [unfolded append_block_def]]] obtain b' s2 where
    2: "alloc paged_ops (Seq sid) s = (Inr b', s2)" "bindS (dget sid tables) (\<lambda>t. thenS (set_table sid (t @ [b'])) (ret b')) s2 = (Inr b, s')"
    by blast
  from runsD(1) [OF 2(2)] obtain t s3 where
    3: "dget sid tables s2 = (Inr t, s3)" "thenS (set_table sid (t @ [b'])) (ret b') s3 = (Inr b, s')" by blast
  have t: "map_of (tables s2) sid = Some t" "s3 = s2" using 3(1) by (auto simp: dget_def split: option.splits)
  have s': "s' = s2\<lparr>tables := AList.update sid (t @ [b']) (tables s2)\<rparr>" using 3(2) t(2) by (simp add: runs_on(2) [OF set_table_run(1)] eq_commute)
  obtain v2 where v2: "v_allocate_block v = (Inr b', v2)" "vsim s2 v2" using vsim_alloc [OF v 2(1)] by blast
  have "v_tables v2 = v_tables v" using v2(1) by (auto simp: v_allocate_block_def Let_def split: if_splits)
  then have tab: "map_of (v_tables v) sid = Some t" using v2(2) t(1) by (simp add: vsim_def)
  have "v_append_slot sid (int (length t) + 1) v = (Inr None, v2\<lparr>v_tables := AList.update sid (t @ [b']) (v_tables v2)\<rparr>)"
    using tab by (simp add: v_append_slot_def dget_def bindS_def v2(1) runs_on(2) [OF set_table_run(2)])
  then show ?thesis using vsim_set [OF v2(2)] s' tab by (auto simp: runs_on(1))
qed

lemma sim_fork:
  assumes v: "vsim s v" and run: "fork parent child s = (Inr (), s')"
  shows "\<exists>v'. v_fork parent child v = (Inr (), v') \<and> vsim s' v'"
proof -
  from runsD(1) [OF run [unfolded fork_def]] obtain t s1 where
    1: "dget parent tables s = (Inr t, s1)" "thenS (eachS incref t) (set_table child t) s1 = (Inr (), s')" by blast
  have t: "map_of (tables s) parent = Some t" "s1 = s" using 1(1) by (auto simp: dget_def split: option.splits)
  from runsD(2) [OF 1(2)] obtain s2 where 2: "eachS incref t s = (Inr (), s2)" "set_table child t s2 = (Inr (), s')" using t(2) by auto
  have same: "tables s2 = tables s"
  proof -
    have "tables s' = tables s" if "eachS incref bs s = (Inr (), s')" for bs s s' using that
    proof (induction bs arbitrary: s)
      case (Cons b bs)
      from runsD(2) [OF Cons.prems [unfolded eachS.simps]] obtain s1 where "incref b s = (Inr (), s1)" "eachS incref bs s1 = (Inr (), s')" by auto
      with Cons.IH [of s1] incref_tables show ?case by simp
    qed simp
    from this [OF 2(1)] show ?thesis .
  qed
  let ?v1 = "v\<lparr>v_tables := AList.update child t (v_tables v)\<rparr>"
  have pre: "eachS incref t (s\<lparr>tables := AList.update child t (tables s)\<rparr>) = (Inr (), s2\<lparr>tables := AList.update child t (tables s)\<rparr>)"
  proof -
    have "eachS incref bs (s\<lparr>tables := d\<rparr>) = (Inr (), s'\<lparr>tables := d\<rparr>)" if "eachS incref bs s = (Inr (), s')" for bs s s' d using that
    proof (induction bs arbitrary: s)
      case (Cons b bs)
      from runsD(2) [OF Cons.prems [unfolded eachS.simps]] obtain s1 where s1: "incref b s = (Inr (), s1)" "eachS incref bs s1 = (Inr (), s')" by auto
      have "incref b (s\<lparr>tables := d\<rparr>) = (Inr (), s1\<lparr>tables := d\<rparr>)" using s1(1) by (auto simp: incref_def prog_simps split: option.splits)
      then show ?case using Cons.IH [OF s1(2)] by (simp add: runs_on(2))
    qed simp
    from this [OF 2(1)] show ?thesis .
  qed
  have s': "s' = s2\<lparr>tables := AList.update child t (tables s)\<rparr>" using 2(2) same by (simp add: set_table_run(1))
  obtain v' where v': "eachS (\<lambda>b. v_put_ref b (\<lambda>rc. rc + 1)) t ?v1 = (Inr (), v')" "vsim s' v'"
    using vsim_increfs [OF vsim_set [OF v] pre] unfolding s' by blast
  have "map_of (v_tables v) parent = Some t" using v t(1) by (simp add: vsim_def)
  then have "v_fork parent child v = (Inr (), v')"
    by (simp add: v_fork_def dget_def bindS_def runs_on(2) [OF set_table_run(2)] v'(1))
  then show ?thesis using v'(2) by blast
qed

lemma sim_free:
  assumes v: "vsim s v" and run: "release paged_ops sid s = (Inr (), s')" and order: "\<And>t. map_of (tables s) sid = Some t \<Longrightarrow> set_order t = t"
  shows "\<exists>v'. v_free_seq set_order sid v = (Inr (), v') \<and> vsim s' v'"
proof -
  from runsD(1) [OF run [unfolded release_def]] obtain t s1 where
    1: "dget sid tables s = (Inr t, s1)" "thenS (modifyS (\<lambda>s. s\<lparr>tables := AList.delete sid (tables s)\<rparr>)) (eachS (unref paged_ops) t) s1 = (Inr (), s')"
    by blast
  have t: "map_of (tables s) sid = Some t" "s1 = s" using 1(1) by (auto simp: dget_def split: option.splits)
  let ?d = "AList.delete sid (tables s)"
  have each: "eachS (unref paged_ops) t (s\<lparr>tables := ?d\<rparr>) = (Inr (), s')" using 1(2) t(2) by (simp add: thenS_def bindS_def modifyS_def)
  obtain v1 where v1: "eachS v_free_block t (v\<lparr>v_tables := ?d\<rparr>) = (Inr (), v1)" "vsim s' v1"
    using vsim_unrefs [OF vsim_tables [OF v] each] by blast
  have frame: "eachS v_free_block bs v = (Inr (), v'\<lparr>v_tables := v_tables v\<rparr>) \<and> v_tables v' = d"
    if "eachS v_free_block bs (v\<lparr>v_tables := d\<rparr>) = (Inr (), v')" for bs v v' d using that
  proof (induction bs arbitrary: v)
    case (Cons b bs)
    from runsD(2) [OF Cons.prems [unfolded eachS.simps]] obtain v1 where
      1: "v_free_block b (v\<lparr>v_tables := d\<rparr>) = (Inr (), v1)" "eachS v_free_block bs v1 = (Inr (), v')" by auto
    then have b: "v_free_block b v = (Inr (), v1\<lparr>v_tables := v_tables v\<rparr>)" "v_tables v1 = d"
      by (auto simp: v_free_block_def prog_simps split: if_splits)
    have "v1 = (v1\<lparr>v_tables := v_tables v\<rparr>)\<lparr>v_tables := d\<rparr>" using b(2) by simp
    then have "eachS v_free_block bs (v1\<lparr>v_tables := v_tables v\<rparr>\<lparr>v_tables := d\<rparr>) = (Inr (), v')" using 1(2) by simp
    from Cons.IH [OF this] b(1) show ?case by (simp add: runs_on(2))
  qed auto
  have vt: "map_of (v_tables v) sid = Some t" "v_tables v = tables s" using v t(1) by (simp_all add: vsim_def)
  from frame [OF v1(1)] have f: "eachS v_free_block t v = (Inr (), v1\<lparr>v_tables := v_tables v\<rparr>)" "v_tables v1 = ?d" by simp_all
  have "(v1\<lparr>v_tables := v_tables v\<rparr>)\<lparr>v_tables := ?d\<rparr> = v1" using f(2) by simp
  then have "v_free_seq set_order sid v = (Inr (), v1)"
    using vt by (simp add: v_free_seq_def order [OF t(1)] runs_on(2) [of "eachS v_free_block t", OF f(1)] modifyS_def)
  then show ?thesis using v1(2) by blast
qed

section \<open>Runs simulate\<close>

text \<open>A client gives a forked sequence an id that is not in use; the ids in use are those admitted or forked and not
  yet freed.\<close>

fun fresh_forks :: "int set \<Rightarrow> call list \<Rightarrow> bool" where
  "fresh_forks live [] \<longleftrightarrow> True"
| "fresh_forks live (Admit sid n # cs) \<longleftrightarrow> 0 \<le> n \<and> fresh_forks (insert sid live) cs"
| "fresh_forks live (Append sid # cs) \<longleftrightarrow> sid \<in> live \<and> fresh_forks live cs"
| "fresh_forks live (Fork parent child # cs) \<longleftrightarrow> child \<notin> live \<and> fresh_forks (insert child live) cs"
| "fresh_forks live (Free sid # cs) \<longleftrightarrow> fresh_forks (live - {sid}) cs"

definition vrel :: "int set \<Rightarrow> paged kv \<Rightarrow> vllm \<Rightarrow> bool" where
  "vrel live s v \<longleftrightarrow> vsim s v \<and> paged.base_inv {#} s \<and> (\<forall>sid t. map_of (tables s) sid = Some t \<longrightarrow> distinct t)
     \<and> dom (map_of (tables s)) = live"

lemma table_subset: "dict_ok (tables s) \<Longrightarrow> map_of (tables s) sid = Some t \<Longrightarrow> set t \<subseteq> set_mset (table_refs s)"
  by (metis set_mset_mset set_mset_union sup_ge2 table_refs_delete)

lemma vrel_tables:
  "vrel live s v \<Longrightarrow> map_of (tables s) sid = Some t \<Longrightarrow> distinct t \<and> set t \<subseteq> set_mset (table_refs s)"
  using table_subset [of s sid t] by (simp add: vrel_def kv_inv_def del: map_of_eq_Some_iff)

lemma vrel_step:
  assumes "vrel live s v" and "vsim s' v'" and "paged.base_inv {#} s'"
    and "map_of (tables s') = (map_of (tables s))(sid := new)" and "\<And>t. new = Some t \<Longrightarrow> distinct t"
  shows "vrel (if new = None then live - {sid} else insert sid live) s' v'"
  using assms by (auto simp: vrel_def)

lemma call_sim:
  assumes rel: "vrel live s v" and order: "\<And>t. distinct t \<Longrightarrow> set_order t = t"
    and ok: "fresh_forks live (c # cs)" and run: "paged_call c s = (Inr (), s')"
  shows "\<exists>v' live'. vllm_call set_order c v = (Inr (), v') \<and> vrel live' s' v' \<and> fresh_forks live' cs"
proof -
  have v: "vsim s v" and inv: "paged.base_inv {#} s" and dom: "dom (map_of (tables s)) = live" using rel by (auto simp: vrel_def)
  show ?thesis
  proof (cases c)
    case (Admit sid n)
    then obtain bs where bs: "admit paged_ops sid n n s = (Inr bs, s')"
      using run by (auto simp: paged_allocator_def base_allocator_def dest!: runsD(1))
    have b: "distinct bs" "tables s' = AList.update sid bs (tables s)" "paged.base_inv {#} s'"
      using paged.base_admit [OF inv, of n sid n] ok Admit bs by (auto simp: fresh_def)
    obtain v' where v': "v_allocate [sid] n v = (Inr (), v')" "vsim s' v'" using sim_admit [OF v bs] by blast
    have "vrel (insert sid live) s' v'"
      using vrel_step [OF rel v'(2) b(3), of sid "Some bs"] b(1,2) by (simp add: update_conv')
    then show ?thesis using v'(1) ok Admit by auto
  next
    case (Append sid)
    then obtain b where b: "append_block paged_ops sid s = (Inr b, s')"
      using run by (auto simp: paged_allocator_def base_allocator_def dest!: runsD(1))
    obtain t where t: "map_of (tables s) sid = Some t" using ok Append dom by (auto simp: dom_def)
    have b': "b \<notin># table_refs s" "tables s' = AList.update sid (t @ [b]) (tables s)" "paged.base_inv {#} s'"
      using paged.base_append [OF inv t] b by (auto simp: fresh_def refs_def)
    have "distinct (t @ [b])" using vrel_tables [OF rel t] b'(1) by auto
    moreover obtain v' where v': "vllm_call set_order (Append sid) v = (Inr (), v')" "vsim s' v'"
      using sim_append [OF v b] by blast
    ultimately have "vrel (insert sid live) s' v'"
      using vrel_step [OF rel v'(2) b'(3), of sid "Some (t @ [b])"] b'(2) by (simp add: update_conv')
    moreover have "insert sid live = live" using ok Append by auto
    ultimately show ?thesis using v'(1) ok Append by auto
  next
    case (Fork parent child)
    then have f: "fork parent child s = (Inr (), s')" using run by (simp add: paged_allocator_def base_allocator_def)
    have new: "map_of (tables s) child = None" using ok Fork dom by (auto simp del: map_of_eq_None_iff)
    then obtain t where t: "map_of (tables s) parent = Some t" "tables s' = AList.update child t (tables s)" "paged.base_inv {#} s'"
      using paged.base.fork_law [OF _ inv, of child parent] f by (auto simp: base_allocator_def)
    obtain v' where v': "v_fork parent child v = (Inr (), v')" "vsim s' v'" using sim_fork [OF v f] by blast
    have "vrel (insert child live) s' v'"
      using vrel_step [OF rel v'(2) t(3), of child "Some t"] vrel_tables [OF rel t(1)] t(2) by (simp add: update_conv')
    then show ?thesis using v'(1) ok Fork by auto
  next
    case (Free sid)
    then have f: "release paged_ops sid s = (Inr (), s')" using run by (simp add: paged_allocator_def base_allocator_def)
    have del: "tables s' = AList.delete sid (tables s)" "paged.base_inv {#} s'"
      using paged.base_release [OF inv, of sid] f by auto
    have ord: "set_order t = t" if "map_of (tables s) sid = Some t" for t using order vrel_tables [OF rel that] by blast
    obtain v' where v': "v_free_seq set_order sid v = (Inr (), v')" "vsim s' v'" using sim_free [OF v f ord] by blast
    have "vrel (live - {sid}) s' v'"
      using vrel_step [OF rel v'(2) del(2), of sid None] del(1) by (simp add: delete_conv')
    then show ?thesis using v'(1) ok Free by auto
  qed
qed

lemma run_sim:
  assumes order: "\<And>t. distinct t \<Longrightarrow> set_order t = t"
  shows "vrel live s v \<Longrightarrow> fresh_forks live cs \<Longrightarrow> eachS paged_call cs s = (Inr (), s')
    \<Longrightarrow> \<exists>v' live'. eachS (vllm_call set_order) cs v = (Inr (), v') \<and> vrel live' s' v'"
proof (induction cs arbitrary: live s v)
  case (Cons c cs)
  from runsD(2) [OF Cons.prems(3) [unfolded eachS.simps]] obtain s1 where
    s1: "paged_call c s = (Inr (), s1)" "eachS paged_call cs s1 = (Inr (), s')" by auto
  obtain v1 live1 where v1: "vllm_call set_order c v = (Inr (), v1)" "vrel live1 s1 v1" "fresh_forks live1 cs"
    using call_sim [OF Cons.prems(1) order Cons.prems(2) s1(1)] by blast
  from Cons.IH [OF v1(2,3) s1(2)] show ?case unfolding eachS.simps runs_on(2) [of "vllm_call set_order c", OF v1(1)] .
qed auto

lemma vrel_init: "vrel {} (PagedFirstFit n) (v_init n)"
  using paged_init [of n] by (simp add: vrel_def vsim_def v_init_def) (simp add: PagedFirstFit_def kv_init_def)


definition demo_calls :: "call list" where
  "demo_calls = [Admit 1 3, Append 1, Fork 1 2, Admit 3 2, Free 1, Append 2, Free 3]"

lemma demo_paged_run:
  "case eachS paged_call demo_calls (PagedFirstFit 8) of (Inl e, s) \<Rightarrow> False
   | (Inr u, s) \<Rightarrow> tables s = [(2, [7, 6, 5, 4, 1])] \<and> free_blocks (policy s) = [0, 3, 2]"
  by code_simp


end
