(* ===== verification/Spec2Isabelle.thy ===== *)
theory Spec2Isabelle
  imports Prelude Config Addr_Map Kv_Freelist Pim_Plan Kv_Contiguous Sim_Theorems Pim_Stream Frame_Ideal
    Validation Sweep_Main Kv_Split Bench Vllm_Admission
begin

text \<open>
  A verification library for \<open>pimkv\<close>, a simulator of where the KV cache of a language-model server lies in
  processing-in-memory DRAM, and of what the placement costs.

  The program. A workload generator (\<open>workload.py\<close>) makes a stream of requests. The serving loop \<open>simulate\<close>
  (\<open>sim.py\<close>) admits, decodes, preempts and retires them, and asks one of four block allocators (\<open>allocator.py\<close>) for
  KV blocks: \<open>PagedFirstFit\<close> (a port of vLLM's block manager, \<open>third_party/vllm_ref\<close>), \<open>RandomAlloc\<close>,
  \<open>ContiguousOracle\<close> and the contribution \<open>PimAware\<close>, which hands out whole alignment frames. From time to time the
  loop samples sequences: their blocks become bursts, the address map (\<open>addrmap.py\<close>) gives each burst a DRAM coordinate
  (geometry in \<open>config.py\<close>), and the execution model (\<open>pimmodel.py\<close>) counts all-bank commands and row hits (M1 to M4).
  \<open>run.py\<close> makes one run, \<open>sweep.py\<close> a grid of runs, \<open>ramulator.py\<close> and \<open>attacc.py\<close> replay sampled sequences on external
  simulators, and \<open>scripts/kv_split.py\<close> and \<open>scripts/bench_alloc.py\<close> are two experiments on top.

  Conventions (\<open>Prelude\<close>). A program over a state is a function from the state to a result and the next state; the result
  is \<open>Inl\<close> of a Python exception or \<open>Inr\<close> of a value, and the state reached before an exception is kept. Pure code returns the
  sum alone (\<open>bindE\<close>, in \<open>Measure\<close>). Dictionaries are association lists in insertion order, heaps are sorted lists,
  integers are unbounded as in Python, NaN is \<open>None\<close>. Floats are real or rational numbers, so rounding is not modelled. The random
  generators of numpy are parameters; what numpy documents of them (number of draws and their ranges) is \<open>numpy_ok\<close>,
  \<open>choice_ok\<close> or \<open>integers_ok\<close>. The external simulators are parameters without any hypothesis.
  A small Hoare logic (\<open>triple\<close>, \<open>keeps\<close>) and the collection \<open>prog_simps\<close> carry the proofs about programs.
\<close>

text \<open>
  Theories and code.

  \<open>Config\<close>, \<open>Addr_Map\<close>: \<open>config.py\<close> and \<open>addrmap.py\<close>. Validation of geometries, presets, sharding; both mapping schemes,
  with \<open>inverse\<close> undoing \<open>map\<close> on every burst, and what a frame is under each scheme.

  \<open>Kv_Policy\<close>, \<open>Kv_Base\<close>, \<open>Kv_Interface\<close>: \<open>KVAllocator\<close>. The locale \<open>block_policy\<close> is what the base class needs of
  a placement policy; the locale \<open>kv_contract\<close> is what a client may rely on, over the method table \<open>allocator\<close> and
  the calls \<open>kv_step\<close> of a client in any order. Every \<open>block_policy\<close> gives a \<open>kv_contract\<close> (a sublocale).
  \<open>Kv_Freelist\<close> (paged and random), \<open>Pim_Aware\<close>, \<open>Pim_Methods\<close>, \<open>Pim_Contract\<close> and \<open>Kv_Contiguous\<close> interpret them on
  the four allocators: conservation in every reachable state. \<open>Pim_Plan\<close> shows that a planned admission uses as few frames as
  any placement and fills empty frames whole, and which frame an append takes; compaction is one injective renaming of
  the blocks in the tables. \<open>Kv_Contiguous\<close> also shows when an admission is refused and that a drained pool heals.

  \<open>Vllm_Ref\<close>, \<open>Vllm_Admission\<close>: vLLM's block manager. The same calls leave the same tables, free list and reference
  counts as \<open>PagedFirstFit\<close>, and the simulator's vLLM mode admits exactly when \<open>can_allocate\<close> answers OK.

  \<open>Pim_Model\<close>, \<open>Pim_Metrics\<close>, \<open>Pim_Stream\<close>: \<open>pimmodel.py\<close>. The command count of a window is the least any schedule
  needs; the metrics are in range; the replayed command stream agrees with the counts. \<open>Measure\<close>: \<open>measure_seq\<close>,
  \<open>placement_diagnostics\<close> and \<open>enumerate_bursts\<close>. \<open>Frame_Ideal\<close> joins planner, address map and execution model: an
  admission of whole frames is measured with the best values the model allows.

  \<open>Workload\<close>: the generators and \<open>auto_pool_blocks\<close>, with the types of their streams. \<open>Sim\<close>: \<open>simulate\<close>, one definition per
  inner function and phase, over a record of its local variables. \<open>Sim_Oracle\<close> and \<open>Sim_Run\<close>: under oracle admission and
  plain decode a run ends, serves every request that fits and drops exactly the others, on any allocator that keeps the
  contract. \<open>Sim_Safety\<close> and \<open>Sim_Modes\<close>: in every mode the pool is conserved, the tables are exact and only two errors are
  possible. \<open>Sim_Samples\<close>: what is recorded was measured. \<open>Sim_Theorems\<close>: the instances, and the two runs that do fail.

  \<open>Run\<close>: \<open>run.py\<close>, \<open>make_allocator\<close>, the summary; a default run returns and serves everybody. \<open>Sweep\<close>, \<open>Sweep_Main\<close>:
  \<open>sweep.py\<close>; \<open>expand\<close> makes the grid, a sweep cell is a run, a sweep ends with a sorted row per point of its grid. \<open>Trace_Text\<close>, \<open>Ramulator\<close>, \<open>Attacc\<close>: trace files and comparison rows, with round
  trips of text and addresses. \<open>Validation\<close>: the two tools end to end; the locale \<open>comparison\<close> is what they need of their
  comparison function, and it is interpreted on both. \<open>Kv_Split\<close> and \<open>Bench\<close>: the scripts; the locale \<open>bench_pool\<close> is what the
  worst-case measurement needs of an allocator, interpreted on the paged and the PIM-aware one.
\<close>

text \<open>
  Fuel. Only the main loop of \<open>simulate\<close> takes fuel; \<open>Inr None\<close> is a run that did not end within it. With
  oracle admission and plain decode \<open>2 * (sum of outputs + number of requests) + 2\<close> iterations (\<open>loop_fuel\<close>) are
  enough, since every iteration decodes a token of each running sequence, settles a request or jumps to the next
  arrival; with the default workloads, whose outputs are at most 2048 tokens, that is at most \<open>4098 * n + 2\<close> for \<open>n\<close> requests.
  The safety theorems hold for any fuel. Every other loop is structural, or a bounded recursion with a measure.

  Not modelled. The figures (\<open>plots.py\<close>, \<open>scripts/plot_bench_alloc.py\<close>, \<open>scripts/plot_kv_split.py\<close>) are calls of matplotlib
  on the files written by the runs, with no logic beyond the choice of columns. Left out of the modelled files are parsing of command
  lines and YAML, printing, CSV and JSON output and its rounding, the process pool of the sweep (a map over independent
  cells), wall-clock time (the timing proxy of \<open>bench_alloc.py\<close>, its call counts and \<open>sys.getsizeof\<close>), and
  the programs \<open>run_ramulator\<close> and \<open>run_attacc\<close> start. Of vLLM's manager, sliding windows and swapping to the CPU are not
  used here and not modelled. Keyword arguments of generators are taken to be numbers where the
  type hints say so, with positive medians and sigmas (numpy gives NaN or raises on others).
\<close>

end
